(* ===== verification/Prelude.thy ===== *)
theory Prelude
  imports "HOL-Library.Word"
begin

text \<open>
  Shared vocabulary of the development: the machine types of the Go code, byte slices with
  their nil value, big-endian 32-bit integers (\<open>encoding/binary\<close>), decimal printing
  (\<open>fmt\<close>'s \<open>%v\<close> on non-negative integers), and the interfaces more than one component
  implements, stated as locales: something closed at most once, a chain of wrappers, a
  self-delimiting encoding, an invariant and an order of a step function.
\<close>

named_theorems wire_simps \<open>unfolding of the wire format and the byte-level readers and writers\<close>
named_theorems inv_defs \<open>definitions of the component invariants\<close>

section \<open>Machine types\<close>

type_synonym byte = "8 word"
type_synonym u32 = "32 word"

text \<open>A Go \<open>[]byte\<close>: \<open>None\<close> is the nil slice, which the code tells apart from an empty one.\<close>

type_synonym bytes = "byte list option"

definition bytes_of :: "bytes \<Rightarrow> byte list" where
  "bytes_of p = (case p of None \<Rightarrow> [] | Some bs \<Rightarrow> bs)"

lemma bytes_of_simps [simp]: "bytes_of None = []" "bytes_of (Some bs) = bs"
  by (simp_all add: bytes_of_def)

section \<open>Big-endian 32-bit integers\<close>

text \<open>\<open>binary.BigEndian.PutUint32\<close> and \<open>binary.BigEndian.Uint32\<close>.\<close>

unbundle bit_operations_syntax

definition put_u32 :: "u32 \<Rightarrow> byte list" where
  "put_u32 w = [ucast (drop_bit 24 w), ucast (drop_bit 16 w), ucast (drop_bit 8 w), ucast w]"

definition get_u32 :: "byte \<Rightarrow> byte \<Rightarrow> byte \<Rightarrow> byte \<Rightarrow> u32" where
  "get_u32 a b c d = ucast d OR push_bit 8 (ucast c) OR push_bit 16 (ucast b) OR push_bit 24 (ucast a)"

lemma length_put_u32 [simp]: "length (put_u32 w) = 4"
  by (simp add: put_u32_def)

lemma bit_byte_high [simp]: "8 \<le> n \<Longrightarrow> \<not> bit (a :: byte) n"
  using bit_imp_le_length [of a n] by auto

lemma get_put_u32 [simp]:
  "get_u32 (ucast (drop_bit 24 w)) (ucast (drop_bit 16 w)) (ucast (drop_bit 8 w)) (ucast w) = w"
  unfolding get_u32_def
proof (rule bit_eqI)
  fix n
  show "bit (ucast (ucast w :: byte) OR push_bit 8 (ucast (ucast (drop_bit 8 w) :: byte))
      OR push_bit 16 (ucast (ucast (drop_bit 16 w) :: byte))
      OR push_bit 24 (ucast (ucast (drop_bit 24 w) :: byte)) :: u32) n = bit w n"
    using bit_imp_le_length [of w n]
    by (cases "24 \<le> n"; cases "16 \<le> n"; cases "8 \<le> n")
       (auto simp: bit_simps not_le less_diff_conv2)
qed

lemma put_get_u32 [simp]: "put_u32 (get_u32 a b c d) = [a, b, c, d]"
  unfolding get_u32_def put_u32_def
  by (auto intro!: bit_eqI simp: bit_simps not_le less_diff_conv2)

section \<open>Decimal printing\<close>

fun decimal :: "nat \<Rightarrow> string" where
  "decimal n = (if n < 10 then [char_of (48 + n)] else decimal (n div 10) @ [char_of (48 + n mod 10)])"

declare decimal.simps [simp del]

lemma decimal_not_Nil: "decimal n \<noteq> []"
  by (subst decimal.simps) simp

section \<open>Runs of an executable step function\<close>

text \<open>
  A component with several goroutines is a step function \<open>step s e\<close>: the event \<open>e\<close> names
  the goroutine that moves and what its environment chose, and \<open>None\<close> says the event is not
  enabled in \<open>s\<close>. A run executes a list of events; the reachable states are those of all runs.
\<close>

fun run :: "('s \<Rightarrow> 'e \<Rightarrow> 's option) \<Rightarrow> 's \<Rightarrow> 'e list \<Rightarrow> 's option" where
  "run step s [] = Some s"
| "run step s (e # es) = (case step s e of None \<Rightarrow> None | Some t \<Rightarrow> run step t es)"

lemma run_append:
  "run step s (xs @ ys) = (case run step s xs of None \<Rightarrow> None | Some t \<Rightarrow> run step t ys)"
  by (induction xs arbitrary: s) (auto split: option.splits)

lemma run_Cons_Some: "run step s (e # es) = Some t \<longleftrightarrow> (\<exists>u. step s e = Some u \<and> run step u es = Some t)"
  by (auto split: option.splits)

lemma run_snoc_Some:
  "run step s (es @ [e]) = Some t \<longleftrightarrow> (\<exists>u. run step s es = Some u \<and> step u e = Some t)"
  by (auto simp: run_append split: option.splits)

text \<open>An invariant of single steps holds along every run.\<close>

locale step_invariant =
  fixes step :: "'s \<Rightarrow> 'e \<Rightarrow> 's option" and inv :: "'s \<Rightarrow> bool"
  assumes inv_step: "inv s \<Longrightarrow> step s e = Some t \<Longrightarrow> inv t"
begin

lemma inv_run: "inv s \<Longrightarrow> run step s es = Some t \<Longrightarrow> inv t"
  by (induction es arbitrary: s) (auto split: option.splits dest: inv_step)

text \<open>So it holds in every state a run passes through.\<close>

lemma inv_prefix: "inv s \<Longrightarrow> run step s (es @ es') = Some t \<Longrightarrow> \<exists>u. run step s es = Some u \<and> inv u"
  by (auto simp: run_append split: option.splits dest: inv_run)

end

text \<open>A reflexive and transitive relation that every step respects relates the ends of a run.\<close>

locale step_monotone =
  fixes step :: "'s \<Rightarrow> 'e \<Rightarrow> 's option" and le :: "'s \<Rightarrow> 's \<Rightarrow> bool"
  assumes le_refl: "le s s"
    and le_trans: "le s t \<Longrightarrow> le t u \<Longrightarrow> le s u"
    and le_step: "step s e = Some t \<Longrightarrow> le s t"
begin

lemma le_run: "run step s es = Some t \<Longrightarrow> le s t"
  by (induction es arbitrary: s)
     (auto split: option.splits intro: le_refl dest: le_step le_trans)

end

section \<open>Closing at most once\<close>

text \<open>
  \<open>sync.Once\<close> around a \<open>close\<close>, or a flag tested before it: the second and every later close
  does nothing, so a Go channel is never closed twice (which would panic).
\<close>

locale once =
  fixes shut :: "'s \<Rightarrow> 's" and is_shut :: "'s \<Rightarrow> bool"
  assumes is_shut_shut: "is_shut (shut s)"
    and shut_again: "is_shut s \<Longrightarrow> shut s = s"
begin

lemma shut_idem: "shut (shut s) = shut s"
  by (simp add: is_shut_shut shut_again)

lemma shut_iterate: "(shut ^^ Suc n) s = shut s"
  by (induction n) (simp_all add: shut_idem)

end

section \<open>Chains of wrappers\<close>

text \<open>
  An interceptor chain builds a final function from a list of wrappers, the first of the list
  outermost. Client and server chains are built by recursions of this shape.
\<close>

locale wrapper_chain =
  fixes wrap :: "'i \<Rightarrow> 'f \<Rightarrow> 'f" and chain :: "'i list \<Rightarrow> 'f \<Rightarrow> 'f"
  assumes chain_Nil: "chain [] f = f"
    and chain_Cons: "chain (i # is) f = wrap i (chain is f)"
begin

lemma chain_foldr: "chain is f = foldr wrap is f"
  by (induction "is") (simp_all add: chain_Nil chain_Cons)

lemma chain_append: "chain (is @ js) f = chain is (chain js f)"
  by (simp add: chain_foldr)

lemma chain_neutral: "(\<And>i f. i \<in> set is \<Longrightarrow> wrap i f = f) \<Longrightarrow> chain is f = f"
  by (induction "is") (simp_all add: chain_Nil chain_Cons)

end

section \<open>Self-delimiting encodings\<close>

text \<open>
  A wire format: \<open>enc m\<close> is the frame of a message, \<open>dec\<close> reads one frame off the front of the
  input and returns the rest. The one law makes the concatenation of frames uniquely readable.
\<close>

locale framing =
  fixes enc :: "'m \<Rightarrow> 'b list" and dec :: "'b list \<Rightarrow> ('m \<times> 'b list) option" and valid :: "'m \<Rightarrow> bool"
  assumes dec_enc: "valid m \<Longrightarrow> dec (enc m @ rest) = Some (m, rest)"
    and dec_Nil: "dec [] = None"
begin

lemma enc_not_Nil: "valid m \<Longrightarrow> enc m \<noteq> []"
  using dec_enc [of m "[]"] dec_Nil by auto

lemma enc_prefix_free:
  assumes "valid m" "valid m'" "enc m @ r = enc m' @ r'"
  shows "m = m' \<and> r = r'"
proof -
  have "Some (m, r) = Some (m', r')"
    using dec_enc [OF assms(1), of r] dec_enc [OF assms(2), of r'] unfolding assms(3) by (rule trans [OF sym])
  then show ?thesis by simp
qed

lemma concat_enc_inject:
  assumes "\<forall>m \<in> set ms. valid m" "\<forall>m \<in> set ms'. valid m"
    and "concat (map enc ms) = concat (map enc ms')"
  shows "ms = ms'"
  using assms
proof (induction ms arbitrary: ms')
  case Nil
  then show ?case using enc_not_Nil by (cases ms') simp_all
next
  case (Cons m ms)
  then have "concat (map enc ms') \<noteq> []"
    using enc_not_Nil [of m] by (metis append_is_Nil_conv concat.simps(2) list.set_intros(1) list.simps(9))
  then obtain n ns where ms': "ms' = n # ns"
    by (cases ms') simp_all
  have eq: "enc m @ concat (map enc ms) = enc n @ concat (map enc ns)"
    using Cons.prems(3) by (simp only: ms' list.map concat.simps)
  have "valid m" "valid n"
    using Cons.prems(1,2) by (simp_all add: ms')
  from enc_prefix_free [OF this eq] have "m = n" "concat (map enc ms) = concat (map enc ns)"
    by blast+
  with Cons.IH [of ns] Cons.prems(1,2) show ?case by (simp add: ms')
qed

end

end
