(* ===== verification/Errors.thy ===== *)
theory Errors
  imports Prelude
begin

text \<open>
  Go error values as the program sees them (\<open>src/errors.go\<close> and the sentinels of the standard
  library it compares with), \<open>errors.Is\<close> and \<open>errors.As\<close> on wrapped errors, and the gRPC
  status values. \<open>google.golang.org/grpc/status\<close> is a third-party package: its
  \<open>status.FromError\<close> and the text of a status error are the fields of the parameter
  \<open>status_lib\<close>, and \<open>status_lib_ok\<close> states the documented behaviour relied on.
\<close>

section \<open>Error values\<close>

text \<open>The gRPC codes (\<open>google.golang.org/grpc/codes\<close>) by name.\<close>

datatype code =
    CodeOK | CodeCanceled | CodeUnknown | CodeInvalidArgument | CodeDeadlineExceeded
  | CodeNotFound | CodeAlreadyExists | CodePermissionDenied | CodeResourceExhausted
  | CodeFailedPrecondition | CodeAborted | CodeOutOfRange | CodeUnimplemented | CodeInternal
  | CodeUnavailable | CodeDataLoss | CodeUnauthenticated

datatype errno = ECONNRESET | EPIPE | EPERM | EACCES | EEXIST | ENOTEMPTY | ENOENT | OtherErrno string

text \<open>
  \<open>WrapErr text e\<close> is \<open>fmt.Errorf\<close> with a \<open>%w\<close> verb, \<open>OpError op text e\<close> a \<open>*net.OpError\<close>,
  \<open>PathError text e\<close> any of the three \<open>os\<close> errors with an underlying error; \<open>text\<close> is the full
  \<open>Error()\<close> string. \<open>StatusErr c m\<close> is the error of \<open>status.Errorf(c, m)\<close>, \<open>ErrString\<close> an
  error of \<open>errors.New\<close> or of \<open>fmt.Errorf\<close> without \<open>%w\<close>.
\<close>

datatype go_error =
    IoEOF | IoUnexpectedEOF | IoClosedPipe | IoNoProgress | IoShortBuffer | IoShortWrite
  | OsErrInvalid | OsErrExist | OsErrNotExist | OsErrPermission
  | NetErrClosed
  | CtxCanceled | CtxDeadlineExceeded
  | Errno errno
  | OpError string string go_error
  | PathError string go_error
  | ErrProtocol | ErrClosed | ErrServerClosed | ErrStreamClosed | ErrStreamFull
  | StatusErr code string
  | WrapErr string go_error
  | OversizedMessageErr int go_error
  | ErrString string

datatype status = Status (Code: code) (Message: string)

text \<open>\<open>(*Status).Code()\<close> on a possibly nil status: nil is OK.\<close>

definition status_code :: "status option \<Rightarrow> code" where
  "status_code st = (case st of None \<Rightarrow> CodeOK | Some s \<Rightarrow> Code s)"

lemma status_code_simps [simp]: "status_code None = CodeOK" "status_code (Some s) = Code s"
  by (simp_all add: status_code_def)

record status_lib =
  FromError :: "go_error option \<Rightarrow> status option \<times> bool"
  StatusText :: "code \<Rightarrow> string \<Rightarrow> string"

section \<open>Wrapping\<close>

text \<open>The errors reached by \<open>errors.Unwrap\<close>, outermost first.\<close>

fun err_chain :: "go_error \<Rightarrow> go_error list" where
  "err_chain (OpError op t e) = OpError op t e # err_chain e"
| "err_chain (PathError t e) = PathError t e # err_chain e"
| "err_chain (WrapErr t e) = WrapErr t e # err_chain e"
| "err_chain (OversizedMessageErr n e) = OversizedMessageErr n e # err_chain e"
| "err_chain e = [e]"

definition errors_is :: "go_error \<Rightarrow> go_error \<Rightarrow> bool" where
  "errors_is e target \<longleftrightarrow> List.member (err_chain e) target"

definition is_op_error :: "go_error \<Rightarrow> bool" where
  "is_op_error e = (case e of OpError _ _ _ \<Rightarrow> True | _ \<Rightarrow> False)"

text \<open>\<open>errors.As(err, &oerr)\<close> with \<open>oerr\<close> a \<open>*net.OpError\<close>: the operation of the first one.\<close>

definition errors_as_op :: "go_error \<Rightarrow> string option" where
  "errors_as_op e =
     (case List.find is_op_error (err_chain e) of Some (OpError op _ _) \<Rightarrow> Some op | _ \<Rightarrow> None)"

lemma errors_is_refl [simp]: "errors_is e e"
  by (cases e) (simp_all add: errors_is_def)

lemma errors_is_WrapErr [simp]: "errors_is (WrapErr t e) e' \<longleftrightarrow> e' = WrapErr t e \<or> errors_is e e'"
  by (auto simp: errors_is_def)

lemma errors_is_OpError [simp]: "errors_is (OpError op t e) e' \<longleftrightarrow> e' = OpError op t e \<or> errors_is e e'"
  by (auto simp: errors_is_def)

text \<open>\<open>os.IsExist\<close>, \<open>os.IsNotExist\<close>, \<open>os.IsPermission\<close> look through one \<open>os\<close> wrapper only.\<close>

definition underlying :: "go_error \<Rightarrow> go_error" where
  "underlying e = (case e of PathError _ c \<Rightarrow> c | _ \<Rightarrow> e)"

definition os_is_exist :: "go_error \<Rightarrow> bool" where
  "os_is_exist e \<longleftrightarrow> List.member [OsErrExist, Errno EEXIST, Errno ENOTEMPTY] (underlying e)"

definition os_is_not_exist :: "go_error \<Rightarrow> bool" where
  "os_is_not_exist e \<longleftrightarrow> List.member [OsErrNotExist, Errno ENOENT] (underlying e)"

definition os_is_permission :: "go_error \<Rightarrow> bool" where
  "os_is_permission e \<longleftrightarrow> List.member [OsErrPermission, Errno EACCES, Errno EPERM] (underlying e)"

section \<open>Oversized messages\<close>

definition messageLengthMax :: nat where
  "messageLengthMax = 4194304"

definition oversized_text :: "nat \<Rightarrow> string" where
  "oversized_text n = ''message length '' @ decimal n @ '' exceed maximum message size of '' @ decimal messageLengthMax"

definition OversizedMessageError :: "int \<Rightarrow> go_error option" where
  "OversizedMessageError messageLength =
     (if messageLength \<le> int messageLengthMax then None
      else Some (OversizedMessageErr messageLength
             (StatusErr CodeResourceExhausted (oversized_text (nat messageLength)))))"

text \<open>The accessors of \<open>*OversizedMessageErr\<close>; \<open>None\<close> when the error is not of that type.\<close>

definition Unwrap :: "go_error \<Rightarrow> go_error option" where
  "Unwrap e = (case e of OversizedMessageErr _ c \<Rightarrow> Some c | _ \<Rightarrow> None)"

definition RejectedLength :: "go_error \<Rightarrow> int option" where
  "RejectedLength e = (case e of OversizedMessageErr n _ \<Rightarrow> Some n | _ \<Rightarrow> None)"

definition MaximumLength :: "go_error \<Rightarrow> nat option" where
  "MaximumLength e = (case e of OversizedMessageErr _ _ \<Rightarrow> Some messageLengthMax | _ \<Rightarrow> None)"

section \<open>Texts\<close>

fun errno_text :: "errno \<Rightarrow> string" where
  "errno_text ECONNRESET = ''connection reset by peer''"
| "errno_text EPIPE = ''broken pipe''"
| "errno_text EPERM = ''operation not permitted''"
| "errno_text EACCES = ''permission denied''"
| "errno_text EEXIST = ''file exists''"
| "errno_text ENOTEMPTY = ''directory not empty''"
| "errno_text ENOENT = ''no such file or directory''"
| "errno_text (OtherErrno t) = t"

text \<open>The \<open>Error()\<close> string of an error.\<close>

fun error_text :: "status_lib \<Rightarrow> go_error \<Rightarrow> string" where
  "error_text L IoEOF = ''EOF''"
| "error_text L IoUnexpectedEOF = ''unexpected EOF''"
| "error_text L IoClosedPipe = ''io: read/write on closed pipe''"
| "error_text L IoNoProgress = ''multiple Read calls return no data or error''"
| "error_text L IoShortBuffer = ''short buffer''"
| "error_text L IoShortWrite = ''short write''"
| "error_text L OsErrInvalid = ''invalid argument''"
| "error_text L OsErrExist = ''file already exists''"
| "error_text L OsErrNotExist = ''file does not exist''"
| "error_text L OsErrPermission = ''permission denied''"
| "error_text L NetErrClosed = ''use of closed network connection''"
| "error_text L CtxCanceled = ''context canceled''"
| "error_text L CtxDeadlineExceeded = ''context deadline exceeded''"
| "error_text L (Errno n) = errno_text n"
| "error_text L (OpError op t e) = t"
| "error_text L (PathError t e) = t"
| "error_text L ErrProtocol = ''protocol error''"
| "error_text L ErrClosed = ''ttrpc: closed''"
| "error_text L ErrServerClosed = ''ttrpc: server closed''"
| "error_text L ErrStreamClosed = ''ttrpc: stream closed''"
| "error_text L ErrStreamFull = ''ttrpc: stream buffer full''"
| "error_text L (StatusErr c m) = StatusText L c m"
| "error_text L (WrapErr t e) = t"
| "error_text L (OversizedMessageErr n e) = error_text L e"
| "error_text L (ErrString t) = t"

text \<open>\<open>strings.Contains\<close>.\<close>

fun contains :: "string \<Rightarrow> string \<Rightarrow> bool" where
  "contains [] pat = (pat = [])"
| "contains (c # cs) pat = (take (length pat) (c # cs) = pat \<or> contains cs pat)"

section \<open>What \<open>status.FromError\<close> promises\<close>

text \<open>
  The first status error of the chain, if any: \<open>status.FromError\<close> returns its code (with a
  message that may have the wrapping text added) and true; without one it returns code Unknown,
  the error's text and false. A nil error gives a status of code OK and true.
\<close>

definition is_status_error :: "go_error \<Rightarrow> bool" where
  "is_status_error e = (case e of StatusErr c _ \<Rightarrow> c \<noteq> CodeOK | _ \<Rightarrow> False)"

definition status_lib_ok :: "status_lib \<Rightarrow> bool" where
  "status_lib_ok L \<longleftrightarrow>
     status_code (fst (FromError L None)) = CodeOK \<and> snd (FromError L None) \<and>
     (\<forall>c m. c \<noteq> CodeOK \<longrightarrow> FromError L (Some (StatusErr c m)) = (Some (Status c m), True)) \<and>
     (\<forall>e c m. List.find is_status_error (err_chain e) = Some (StatusErr c m) \<longrightarrow>
        (\<exists>t. FromError L (Some e) = (Some (Status c t), True))) \<and>
     (\<forall>e. (\<forall>x \<in> set (err_chain e). \<not> is_status_error x) \<longrightarrow>
        FromError L (Some e) = (Some (Status CodeUnknown (error_text L e)), False))"

text \<open>An instance for the witnesses: the behaviour above, computed.\<close>

definition example_status_text :: "code \<Rightarrow> string \<Rightarrow> string" where
  "example_status_text c m = ''rpc error: desc = '' @ m"

definition example_from_error :: "go_error option \<Rightarrow> status option \<times> bool" where
  "example_from_error oe =
     (case oe of None \<Rightarrow> (None, True)
      | Some e \<Rightarrow> (case List.find is_status_error (err_chain e) of
          Some (StatusErr c m) \<Rightarrow> (Some (Status c m), True)
        | _ \<Rightarrow> (Some (Status CodeUnknown
                 (error_text \<lparr>FromError = \<lambda>_. (None, True), StatusText = example_status_text\<rparr> e)), False)))"

definition example_status_lib :: status_lib where
  "example_status_lib = \<lparr>FromError = example_from_error, StatusText = example_status_text\<rparr>"

lemma error_text_StatusText: "StatusText L = StatusText L' \<Longrightarrow> error_text L e = error_text L' e"
  by (induction e) auto

lemma find_status_None:
  "(\<forall>x \<in> set (err_chain e). \<not> is_status_error x) \<Longrightarrow> List.find is_status_error (err_chain e) = None"
  by (simp add: find_None_iff)

lemma example_status_lib_ok: "status_lib_ok example_status_lib"
  unfolding status_lib_ok_def
  by (auto simp: example_status_lib_def example_from_error_def find_status_None is_status_error_def
        intro!: error_text_StatusText)

section \<open>Laws\<close>

lemma from_error_StatusErr:
  "status_lib_ok L \<Longrightarrow> c \<noteq> CodeOK \<Longrightarrow> FromError L (Some (StatusErr c m)) = (Some (Status c m), True)"
  by (simp add: status_lib_ok_def)

lemma from_error_plain:
  "status_lib_ok L \<Longrightarrow> (\<forall>x \<in> set (err_chain e). \<not> is_status_error x) \<Longrightarrow>
   FromError L (Some e) = (Some (Status CodeUnknown (error_text L e)), False)"
  unfolding status_lib_ok_def by (elim conjE) blast

lemma from_error_wrapped:
  "status_lib_ok L \<Longrightarrow> List.find is_status_error (err_chain e) = Some (StatusErr c m) \<Longrightarrow>
   \<exists>t. FromError L (Some e) = (Some (Status c t), True)"
  unfolding status_lib_ok_def by (elim conjE) blast

text \<open>The two sides of the size limit: at most the maximum is no error, above it the error is a
  ResourceExhausted status that carries the rejected length.\<close>

lemma OversizedMessageError_None_iff: "OversizedMessageError n = None \<longleftrightarrow> n \<le> int messageLengthMax"
  by (simp add: OversizedMessageError_def)

lemma OversizedMessageError_SomeD:
  "OversizedMessageError n = Some e \<Longrightarrow>
   n > int messageLengthMax \<and> RejectedLength e = Some n \<and> MaximumLength e = Some messageLengthMax \<and>
   Unwrap e = Some (StatusErr CodeResourceExhausted (oversized_text (nat n)))"
  by (auto simp: OversizedMessageError_def RejectedLength_def MaximumLength_def Unwrap_def split: if_splits)

lemma oversized_from_error:
  assumes "status_lib_ok L" "OversizedMessageError n = Some e"
  shows "\<exists>t. FromError L (Some e) = (Some (Status CodeResourceExhausted t), True)"
proof (rule from_error_wrapped [OF assms(1)])
  show "List.find is_status_error (err_chain e)
      = Some (StatusErr CodeResourceExhausted (oversized_text (nat n)))"
    using assms(2) by (auto simp: OversizedMessageError_def is_status_error_def split: if_splits)
qed

end
