(* ===== verification/Metadata.thy ===== *)
theory Metadata
  imports Prelude
begin

text \<open>
  Request metadata (\<open>src/metadata.go\<close>). An \<open>MD\<close> is a Go map from keys to string slices, and
  slices share backing arrays, so the model has an explicit heap of arrays: \<open>Append\<close> writes in
  place when the capacity allows, and \<open>Clone\<close> gives all its values one shared array. The
  contract is the abstract map \<open>md_abs\<close> from keys to value lists; the lemmas show that every
  operation implements its abstract counterpart and that a clone is independent of the original.
\<close>

section \<open>Slices of strings over a heap\<close>

type_synonym heap = "string list list"

record sslice =
  base :: nat
  off :: nat
  len :: nat
  cap :: nat

text \<open>A \<open>[]string\<close>; \<open>None\<close> is nil.\<close>

type_synonym strings = "sslice option"

definition slen :: "strings \<Rightarrow> nat" where
  "slen v = (case v of None \<Rightarrow> 0 | Some s \<Rightarrow> len s)"

definition read_slice :: "heap \<Rightarrow> strings \<Rightarrow> string list" where
  "read_slice h v = (case v of None \<Rightarrow> [] | Some s \<Rightarrow> take (len s) (drop (off s) (h ! base s)))"

definition write_at :: "'a list \<Rightarrow> nat \<Rightarrow> 'a list \<Rightarrow> 'a list" where
  "write_at xs pos ys = take pos xs @ ys @ drop (pos + length ys) xs"

text \<open>A fresh slice holding the given values, as the call \<open>f(vs...)\<close> of a variadic function
  makes (nil when there are none).\<close>

definition new_slice :: "heap \<Rightarrow> string list \<Rightarrow> heap \<times> strings" where
  "new_slice h vs =
     (if vs = [] then (h, None)
      else (h @ [vs], Some \<lparr>base = length h, off = 0, len = length vs, cap = length vs\<rparr>))"

text \<open>\<open>append(cur, vs...)\<close>: in place when the capacity suffices, else into a new array, with
  \<open>extra\<close> cells of spare capacity (the growth is up to the runtime).\<close>

definition append_slice :: "nat \<Rightarrow> heap \<Rightarrow> strings \<Rightarrow> string list \<Rightarrow> heap \<times> strings" where
  "append_slice extra h cur vs =
     (case cur of
        None \<Rightarrow>
          (if vs = [] then (h, None)
           else (h @ [vs @ replicate extra ''''],
                 Some \<lparr>base = length h, off = 0, len = length vs, cap = length vs + extra\<rparr>))
      | Some s \<Rightarrow>
          (if len s + length vs \<le> cap s
           then (h[base s := write_at (h ! base s) (off s + len s) vs], Some (s\<lparr>len := len s + length vs\<rparr>))
           else (h @ [read_slice h cur @ vs @ replicate extra ''''],
                 Some \<lparr>base = length h, off = 0, len = len s + length vs, cap = len s + length vs + extra\<rparr>)))"

section \<open>The operations\<close>

text \<open>\<open>strings.ToLower\<close> on ASCII letters; other bytes are unchanged.\<close>

definition lower_char :: "char \<Rightarrow> char" where
  "lower_char c = (if 65 \<le> (of_char c :: nat) \<and> (of_char c :: nat) \<le> 90 then char_of ((of_char c :: nat) + 32) else c)"

definition ToLower :: "string \<Rightarrow> string" where
  "ToLower s = map lower_char s"

text \<open>A non-nil \<open>MD\<close>; a nil one is \<open>None\<close> of \<open>md option\<close>.\<close>

type_synonym md = "string \<rightharpoonup> strings"

definition md_Get :: "md option \<Rightarrow> string \<Rightarrow> strings \<times> bool" where
  "md_Get m key =
     (case (case m of None \<Rightarrow> None | Some f \<Rightarrow> f (ToLower key)) of
        None \<Rightarrow> (None, False)
      | Some lst \<Rightarrow> if slen lst = 0 then (None, False) else (lst, True))"

text \<open>Writing to a nil map panics (\<open>None\<close>); deleting from it does nothing.\<close>

definition md_Set :: "md option \<Rightarrow> string \<Rightarrow> strings \<Rightarrow> md option option" where
  "md_Set m key vals =
     (if slen vals = 0 then Some (case m of None \<Rightarrow> None | Some f \<Rightarrow> Some (f(ToLower key := None)))
      else (case m of None \<Rightarrow> None | Some f \<Rightarrow> Some (Some (f(ToLower key \<mapsto> vals)))))"

definition md_Append :: "nat \<Rightarrow> heap \<Rightarrow> md option \<Rightarrow> string \<Rightarrow> strings \<Rightarrow> heap \<times> md option option" where
  "md_Append extra h m key vals =
     (let key = ToLower key in
      if slen vals = 0 then (h, Some m)
      else (case (case m of None \<Rightarrow> None | Some f \<Rightarrow> f key) of
          Some current \<Rightarrow>
            (case append_slice extra h current (read_slice h vals) of
               (h', vals') \<Rightarrow> (h', md_Set m key vals'))
        | None \<Rightarrow> (h, md_Set m key vals)))"

text \<open>
  \<open>Clone\<close>: one array for all values, in the order \<open>ks\<close> in which the range loop visits the keys;
  each value is a full-slice expression \<open>sv[:n:n]\<close> of it, so its capacity is its length.
\<close>

definition total_values :: "md \<Rightarrow> string list \<Rightarrow> nat" where
  "total_values f ks = sum_list (map (\<lambda>k. case f k of None \<Rightarrow> 0 | Some vv \<Rightarrow> slen vv) ks)"

fun clone_loop :: "md \<Rightarrow> nat \<Rightarrow> string list \<Rightarrow> nat \<Rightarrow> heap \<Rightarrow> md \<Rightarrow> heap \<times> md" where
  "clone_loop f b [] pos h m2 = (h, m2)"
| "clone_loop f b (k # ks) pos h m2 =
     (case f k of
        None \<Rightarrow> clone_loop f b ks pos h m2
      | Some None \<Rightarrow> clone_loop f b ks pos h (m2(k \<mapsto> None))
      | Some (Some vv) \<Rightarrow>
          (let src = read_slice h (Some vv);
               n = min (length (h ! b) - pos) (len vv);
               h' = h[b := write_at (h ! b) pos (take n src)];
               s = \<lparr>base = b, off = pos, len = n, cap = n\<rparr>
           in clone_loop f b ks (pos + n) h' (m2(k \<mapsto> Some s))))"

definition md_Clone :: "string list \<Rightarrow> heap \<Rightarrow> md option \<Rightarrow> heap \<times> md option" where
  "md_Clone ks h m =
     (case m of
        None \<Rightarrow> (h, None)
      | Some f \<Rightarrow>
          (case clone_loop f (length h) ks 0 (h @ [replicate (total_values f ks) '''']) Map.empty of
             (h', m2) \<Rightarrow> (h', Some m2)))"

section \<open>Metadata on the wire\<close>

record KeyValue =
  Key :: string
  Value :: string

text \<open>\<open>setRequest\<close> appends to \<open>r.Metadata\<close>, visiting the keys in the order \<open>ks\<close>.\<close>

fun md_setRequest :: "string list \<Rightarrow> heap \<Rightarrow> md \<Rightarrow> KeyValue list \<Rightarrow> KeyValue list" where
  "md_setRequest [] h f kvs = kvs"
| "md_setRequest (k # ks) h f kvs =
     md_setRequest ks h f
       (kvs @ (case f k of None \<Rightarrow> [] | Some vv \<Rightarrow> map (\<lambda>v. \<lparr>Key = k, Value = v\<rparr>) (read_slice h vv)))"

fun md_fromRequest :: "nat \<Rightarrow> KeyValue list \<Rightarrow> heap \<Rightarrow> md \<Rightarrow> heap \<times> md" where
  "md_fromRequest extra [] h f = (h, f)"
| "md_fromRequest extra (kv # kvs) h f =
     (case append_slice extra h (case f (Key kv) of None \<Rightarrow> None | Some vv \<Rightarrow> vv) [Value kv] of
        (h', vv') \<Rightarrow> md_fromRequest extra kvs h' (f(Key kv \<mapsto> vv')))"

section \<open>Metadata in a context\<close>

text \<open>The value a context holds under \<open>metadataKey{}\<close>, and the rest of the context.\<close>

record 'c go_context =
  md_value :: "md option option"
  ctx_rest :: 'c

definition WithMetadata :: "'c go_context \<Rightarrow> md option \<Rightarrow> 'c go_context" where
  "WithMetadata ctx m = ctx\<lparr>md_value := Some m\<rparr>"

definition GetMetadata :: "'c go_context \<Rightarrow> md option \<times> bool" where
  "GetMetadata ctx = (case md_value ctx of None \<Rightarrow> (None, False) | Some m \<Rightarrow> (m, True))"

definition GetMetadataValue :: "heap \<Rightarrow> 'c go_context \<Rightarrow> string \<Rightarrow> string \<times> bool" where
  "GetMetadataValue h ctx name =
     (case GetMetadata ctx of
        (m, ok) \<Rightarrow>
          if \<not> ok then ('''', False)
          else (case md_Get m name of
              (lst, True) \<Rightarrow> (hd (read_slice h lst), True)
            | (_, False) \<Rightarrow> ('''', False)))"

section \<open>The abstract contract\<close>

type_synonym md_spec = "string \<rightharpoonup> string list"

definition md_abs :: "heap \<Rightarrow> md \<Rightarrow> md_spec" where
  "md_abs h f = (\<lambda>k. map_option (read_slice h) (f k))"

definition spec_Set :: "string \<Rightarrow> string list \<Rightarrow> md_spec \<Rightarrow> md_spec" where
  "spec_Set key vs M = (if vs = [] then M(ToLower key := None) else M(ToLower key \<mapsto> vs))"

definition vals_at :: "md_spec \<Rightarrow> string \<Rightarrow> string list" where
  "vals_at M k = (case M k of None \<Rightarrow> [] | Some vs \<Rightarrow> vs)"

definition add_vals :: "string \<Rightarrow> string list \<Rightarrow> md_spec \<Rightarrow> md_spec" where
  "add_vals k vs M = M(k \<mapsto> vals_at M k @ vs)"

lemma vals_at_simps [simp]: "M k = None \<Longrightarrow> vals_at M k = []" "M k = Some vs \<Longrightarrow> vals_at M k = vs"
  by (simp_all add: vals_at_def)

lemma add_vals_apply: "add_vals k vs M k' = (if k' = k then Some (vals_at M k @ vs) else M k')"
  by (simp add: add_vals_def)

lemma add_vals_add_vals: "add_vals k ws (add_vals k vs M) = add_vals k (vs @ ws) M"
  by (simp add: add_vals_def vals_at_def)

definition spec_Append :: "string \<Rightarrow> string list \<Rightarrow> md_spec \<Rightarrow> md_spec" where
  "spec_Append key vs M =
     (if vs = [] then M else add_vals (ToLower key) vs M)"

text \<open>A slice lies within its array; a slice with spare capacity is the only user of its array,
  and that array is not one of the frozen set \<open>F\<close> (the arrays of other maps).\<close>

definition slice_ok :: "heap \<Rightarrow> sslice \<Rightarrow> bool" where
  "slice_ok h s \<longleftrightarrow> base s < length h \<and> len s \<le> cap s \<and> off s + cap s \<le> length (h ! base s)"

definition md_inv :: "nat set \<Rightarrow> heap \<Rightarrow> md \<Rightarrow> bool" where
  "md_inv F h f \<longleftrightarrow> F \<subseteq> {..<length h} \<and>
     (\<forall>k s. f k = Some (Some s) \<longrightarrow> slice_ok h s \<and>
        (len s < cap s \<longrightarrow> base s \<notin> F \<and>
           (\<forall>k' s'. k' \<noteq> k \<longrightarrow> f k' = Some (Some s') \<longrightarrow> base s' \<noteq> base s)))"

text \<open>The heap only grows, and the frozen arrays keep their contents.\<close>

definition heap_ext :: "nat set \<Rightarrow> heap \<Rightarrow> heap \<Rightarrow> bool" where
  "heap_ext F h h' \<longleftrightarrow> length h \<le> length h' \<and> (\<forall>a \<in> F. h' ! a = h ! a)"

lemma heap_ext_refl [simp]: "heap_ext F h h"
  by (simp add: heap_ext_def)

lemma heap_ext_trans: "heap_ext F h h' \<Longrightarrow> heap_ext F h' h'' \<Longrightarrow> heap_ext F h h''"
  by (simp add: heap_ext_def)

lemma ToLower_examples [simp]:
  "ToLower ''Name'' = ''name''" "ToLower ''Trace'' = ''trace''" "ToLower ''x'' = ''x''"
  by code_simp+

lemma ToLower_idem [simp]: "ToLower (ToLower k) = ToLower k"
proof -
  have "lower_char (lower_char c) = lower_char c" for c
    by (auto simp: lower_char_def take_bit_eq_mod)
  then show ?thesis by (simp add: ToLower_def)
qed

lemma read_slice_simps [simp]:
  "read_slice h None = []" "read_slice h (Some s) = take (len s) (drop (off s) (h ! base s))"
  by (simp_all add: read_slice_def)

lemma slen_simps [simp]: "slen None = 0" "slen (Some s) = len s"
  by (simp_all add: slen_def)

lemma read_slice_append_heap [simp]: "slice_ok h s \<Longrightarrow> read_slice (h @ xs) (Some s) = read_slice h (Some s)"
  by (simp add: slice_ok_def nth_append)

lemma slice_ok_append_heap: "slice_ok h s \<Longrightarrow> slice_ok (h @ xs) s"
  by (simp add: slice_ok_def nth_append)

lemma length_read_slice: "slice_ok h s \<Longrightarrow> length (read_slice h (Some s)) = len s"
  by (auto simp: slice_ok_def min_def)

lemma length_write_at [simp]: "pos + length ys \<le> length xs \<Longrightarrow> length (write_at xs pos ys) = length xs"
  by (simp add: write_at_def)

lemma take_drop_write_at:
  assumes "p + m + length ys \<le> length xs"
  shows "take (m + length ys) (drop p (write_at xs (p + m) ys)) = take m (drop p xs) @ ys"
proof -
  have "drop p (write_at xs (p + m) ys) = take m (drop p xs) @ ys @ drop (p + m + length ys) xs"
    using assms by (simp add: write_at_def drop_take)
  moreover have "length (take m (drop p xs)) = m"
    using assms by simp
  ultimately show ?thesis by simp
qed

text \<open>An append writes behind its slice when there is spare capacity, else makes a new array.\<close>

lemma append_slice_grow:
  assumes "\<forall>s. cur = Some s \<longrightarrow> slice_ok h s" "vs \<noteq> []" "append_slice extra h cur vs = (h', v')"
  obtains (inplace) s where "cur = Some s" "len s < cap s" "v' = Some (s\<lparr>len := len s + length vs\<rparr>)"
      "h' = h[base s := write_at (h ! base s) (off s + len s) vs]" "len s + length vs \<le> cap s"
    | (fresh) n where "h' = h @ [read_slice h cur @ vs @ replicate extra '''']"
      "v' = Some \<lparr>base = length h, off = 0, len = n, cap = n + extra\<rparr>"
      "n = length (read_slice h cur @ vs)"
proof (cases cur)
  case None
  with assms(2,3) show ?thesis by (intro that(2)) (auto simp: append_slice_def)
next
  case (Some s)
  with assms(1) have s: "slice_ok h s" by simp
  show ?thesis
  proof (cases "len s + length vs \<le> cap s")
    case True
    have "0 < length vs" using assms(2) by simp
    with True have "len s < cap s" by linarith
    with True Some assms(3) show ?thesis by (intro that(1) [of s]) (auto simp: append_slice_def)
  next
    case False
    with Some assms(3) length_read_slice [OF s] show ?thesis
      by (intro that(2)) (auto simp: append_slice_def)
  qed
qed

text \<open>
  What an append to the slice under \<open>key\<close> must achieve: the map stays well-formed, other arrays
  are untouched, and only the values of \<open>key\<close> grow.
\<close>

definition grown :: "nat set \<Rightarrow> heap \<Rightarrow> md \<Rightarrow> string \<Rightarrow> string list \<Rightarrow> heap \<Rightarrow> strings \<Rightarrow> bool" where
  "grown F h f key ws h' v' \<longleftrightarrow> md_inv F h' (f(key \<mapsto> v')) \<and> heap_ext F h h' \<and>
     md_abs h' (f(key \<mapsto> v')) = (md_abs h f)(key \<mapsto> ws)"

lemma md_invD:
  assumes "md_inv F h f" "f k = Some (Some s)"
  shows "slice_ok h s" "base s < length h"
    and "len s < cap s \<Longrightarrow> base s \<notin> F"
    and "len s < cap s \<Longrightarrow> k' \<noteq> k \<Longrightarrow> f k' = Some (Some s') \<Longrightarrow> base s' \<noteq> base s"
  using assms by (auto simp: md_inv_def slice_ok_def)

lemma md_invI:
  assumes "F \<subseteq> {..<length h}"
    and "\<And>k s. f k = Some (Some s) \<Longrightarrow> slice_ok h s"
    and "\<And>k s. f k = Some (Some s) \<Longrightarrow> len s < cap s \<Longrightarrow> base s \<notin> F"
    and "\<And>k s k' s'. f k = Some (Some s) \<Longrightarrow> len s < cap s \<Longrightarrow> k' \<noteq> k \<Longrightarrow>
           f k' = Some (Some s') \<Longrightarrow> base s' \<noteq> base s"
  shows "md_inv F h f"
  using assms by (simp add: md_inv_def)

lemma md_abs_update:
  assumes "read_slice h' v' = ws"
    and "\<And>k s. k \<noteq> key \<Longrightarrow> f k = Some (Some s) \<Longrightarrow> read_slice h' (Some s) = read_slice h (Some s)"
  shows "md_abs h' (f(key \<mapsto> v')) = (md_abs h f)(key \<mapsto> ws)"
proof
  fix k
  show "md_abs h' (f(key \<mapsto> v')) k = ((md_abs h f)(key \<mapsto> ws)) k"
  proof (cases "k = key \<or> f k = None \<or> f k = Some None")
    case True
    with assms(1) show ?thesis by (auto simp: md_abs_def)
  next
    case False
    then obtain s where "f k = Some (Some s)" by (metis option.exhaust)
    with False assms(2) [of k s] show ?thesis by (simp add: md_abs_def)
  qed
qed

lemma grown_inplace:
  assumes inv: "md_inv F h f" and key: "f key = Some (Some s)" and spare: "len s < cap s"
    and fits: "len s + length vs \<le> cap s"
  shows "grown F h f key (read_slice h (Some s) @ vs)
    (h[base s := write_at (h ! base s) (off s + len s) vs]) (Some (s\<lparr>len := len s + length vs\<rparr>))"
proof -
  let ?h = "h[base s := write_at (h ! base s) (off s + len s) vs]" and ?s = "s\<lparr>len := len s + length vs\<rparr>"
  let ?f = "f(key \<mapsto> Some ?s)"
  note s = md_invD [OF inv key]
  have room: "off s + len s + length vs \<le> length (h ! base s)"
    using s(1) fits by (simp add: slice_ok_def)
  have ok: "slice_ok h t \<Longrightarrow> slice_ok ?h t" for t
    using room s(2) by (cases "base t = base s") (auto simp: slice_ok_def)
  have "md_inv F ?h ?f"
  proof (rule md_invI)
    show "F \<subseteq> {..<length ?h}" using inv by (simp add: md_inv_def)
    fix k t
    assume t: "?f k = Some (Some t)"
    have "slice_ok h ?s" using s(1) fits by (simp add: slice_ok_def)
    then have "slice_ok h t" using t md_invD(1) [OF inv] by (auto split: if_splits)
    then show "slice_ok ?h t" by (rule ok)
    assume "len t < cap t"
    then show "base t \<notin> F" using t md_invD(3) [OF inv] s(3) [OF spare] by (auto split: if_splits)
    fix k' s'
    assume "k' \<noteq> k" "?f k' = Some (Some s')"
    then show "base s' \<noteq> base t"
      using t \<open>len t < cap t\<close> s(4) [OF spare] md_invD(4) [OF inv] by (auto split: if_splits) metis
  qed
  moreover have "heap_ext F h ?h"
    using s(3) [OF spare] by (auto simp: heap_ext_def) (metis nth_list_update_neq)
  moreover have "md_abs ?h ?f = (md_abs h f)(key \<mapsto> read_slice h (Some s) @ vs)"
  proof (rule md_abs_update)
    show "read_slice ?h (Some ?s) = read_slice h (Some s) @ vs"
      using take_drop_write_at [OF room] s(2) by simp
    show "read_slice ?h (Some t) = read_slice h (Some t)" if "k \<noteq> key" "f k = Some (Some t)" for k t
      using s(4) [OF spare that] by simp
  qed
  ultimately show ?thesis by (simp add: grown_def)
qed

lemma grown_fresh:
  assumes inv: "md_inv F h f" and n: "n = length ws"
  shows "grown F h f key ws (h @ [ws @ replicate extra ''''])
    (Some \<lparr>base = length h, off = 0, len = n, cap = n + extra\<rparr>)"
proof -
  let ?h = "h @ [ws @ replicate extra '''']" and ?s = "\<lparr>base = length h, off = 0, len = n, cap = n + extra\<rparr>"
  let ?f = "f(key \<mapsto> Some ?s)"
  have F: "F \<subseteq> {..<length h}" using inv by (simp add: md_inv_def)
  have "md_inv F ?h ?f"
  proof (rule md_invI)
    show "F \<subseteq> {..<length ?h}" using F by auto
    fix k t
    assume t: "?f k = Some (Some t)"
    have "slice_ok ?h ?s" by (simp add: slice_ok_def n)
    then show "slice_ok ?h t"
      using t md_invD(1) [OF inv] slice_ok_append_heap by (auto split: if_splits)
    assume "len t < cap t"
    then show "base t \<notin> F" using t md_invD(3) [OF inv] F by (auto split: if_splits)
    fix k' s'
    assume "k' \<noteq> k" "?f k' = Some (Some s')"
    then show "base s' \<noteq> base t"
      using t \<open>len t < cap t\<close> md_invD(2,4) [OF inv] by (auto split: if_splits) (metis nat_neq_iff)+
  qed
  moreover have "heap_ext F h ?h"
    using F by (auto simp: heap_ext_def nth_append)
  moreover have "md_abs ?h ?f = (md_abs h f)(key \<mapsto> ws)"
  proof (rule md_abs_update)
    show "read_slice ?h (Some ?s) = ws" by (simp add: n)
    show "read_slice ?h (Some t) = read_slice h (Some t)" if "f k = Some (Some t)" for k t
      by (rule read_slice_append_heap) (rule md_invD(1) [OF inv that])
  qed
  ultimately show ?thesis by (simp add: grown_def)
qed

lemma md_append_key:
  assumes inv: "md_inv F h f" and vs: "vs \<noteq> []"
    and app: "append_slice extra h (case f key of None \<Rightarrow> None | Some vv \<Rightarrow> vv) vs = (h', v')"
  shows "grown F h f key (vals_at (md_abs h f) key @ vs) h' v'"
proof -
  let ?cur = "case f key of None \<Rightarrow> None | Some vv \<Rightarrow> vv"
  have cur: "\<forall>s. ?cur = Some s \<longrightarrow> f key = Some (Some s)"
    by (auto split: option.splits)
  with inv have ok: "\<forall>s. ?cur = Some s \<longrightarrow> slice_ok h s" by (blast dest: md_invD(1))
  have abs: "vals_at (md_abs h f) key = read_slice h ?cur"
    by (simp add: md_abs_def vals_at_def split: option.splits)
  from ok vs app show ?thesis
  proof (cases rule: append_slice_grow)
    case (inplace s)
    with cur have "f key = Some (Some s)" by blast
    from grown_inplace [OF inv this inplace(2,5)] show ?thesis
      by (simp only: abs inplace)
  next
    case (fresh n)
    from grown_fresh [OF inv fresh(3), of key extra] show ?thesis
      by (simp only: abs fresh(1,2) append_assoc)
  qed
qed

section \<open>Sequences of updates\<close>

text \<open>Updates as a caller writes them, with literal values: \<open>m.Set(key, vs...)\<close> and
  \<open>m.Append(key, vs...)\<close>, the latter with the spare capacity the runtime would add.\<close>

datatype md_op = OpSet string "string list" | OpAppend nat string "string list"

fun md_step :: "heap \<times> md \<Rightarrow> md_op \<Rightarrow> (heap \<times> md) option" where
  "md_step (h, f) (OpSet key vs) =
     (case new_slice h vs of (h1, vals) \<Rightarrow>
        (case md_Set (Some f) key vals of Some (Some f') \<Rightarrow> Some (h1, f') | _ \<Rightarrow> None))"
| "md_step (h, f) (OpAppend extra key vs) =
     (case new_slice h vs of (h1, vals) \<Rightarrow>
        (case md_Append extra h1 (Some f) key vals of
           (h2, Some (Some f')) \<Rightarrow> Some (h2, f') | _ \<Rightarrow> None))"

fun spec_step :: "md_op \<Rightarrow> md_spec \<Rightarrow> md_spec" where
  "spec_step (OpSet key vs) = spec_Set key vs"
| "spec_step (OpAppend extra key vs) = spec_Append key vs"

lemma md_inv_grow_heap:
  assumes "md_inv F h f"
  shows "md_inv F (h @ xs) f" "md_abs (h @ xs) f = md_abs h f" "heap_ext F h (h @ xs)"
proof -
  have F: "F \<subseteq> {..<length h}" using assms by (simp add: md_inv_def)
  then show "md_inv F (h @ xs) f"
    using assms by (auto intro!: md_invI slice_ok_append_heap dest: md_invD(1,3,4))
  show "heap_ext F h (h @ xs)"
    using F by (auto simp: heap_ext_def nth_append)
  show "md_abs (h @ xs) f = md_abs h f"
  proof
    fix k
    show "md_abs (h @ xs) f k = md_abs h f k"
      using read_slice_append_heap [OF md_invD(1) [OF assms, of k]]
      by (cases "f k"; cases "the (f k)") (simp_all add: md_abs_def)
  qed
qed

lemma md_inv_delete: "md_inv F h f \<Longrightarrow> md_inv F h (f(k := None))"
  by (rule md_invI) (auto dest: md_invD(1,3,4) simp: md_inv_def split: if_splits)

lemma md_abs_delete: "md_abs h (f(k := None)) = (md_abs h f)(k := None)"
  by (auto simp: md_abs_def)

lemma grownD:
  assumes "grown F h f key ws h' v'"
  shows "md_inv F h' (f(key \<mapsto> v'))" "heap_ext F h h'" "md_abs h' (f(key \<mapsto> v')) = (md_abs h f)(key \<mapsto> ws)"
  using assms by (simp_all add: grown_def)

text \<open>Each update succeeds, keeps the map well-formed and the frozen arrays unchanged, and acts
  on the abstract map as its specification says.\<close>

lemma md_step_refines:
  assumes inv: "md_inv F h f"
  shows "\<exists>h' f'. md_step (h, f) op = Some (h', f') \<and> md_inv F h' f' \<and> heap_ext F h h' \<and>
    md_abs h' f' = spec_step op (md_abs h f)"
proof (cases op)
  case (OpSet key vs)
  show ?thesis
  proof (cases "vs = []")
    case True
    with OpSet inv show ?thesis
      by (simp add: new_slice_def md_Set_def spec_Set_def md_inv_delete md_abs_delete)
  next
    case False
    with grownD [OF grown_fresh [OF inv refl, of "ToLower key" vs 0]] OpSet show ?thesis
      by (simp add: new_slice_def md_Set_def spec_Set_def)
  qed
next
  case (OpAppend extra key vs)
  show ?thesis
  proof (cases "vs = []")
    case True
    with OpAppend inv show ?thesis
      by (simp add: new_slice_def md_Append_def spec_Append_def add_vals_def)
  next
    case vs: False
    let ?h = "h @ [vs]" and ?v = "\<lparr>base = length h, off = 0, len = length vs, cap = length vs\<rparr>"
    note h1 = md_inv_grow_heap [OF inv, of "[vs]"]
    show ?thesis
    proof (cases "f (ToLower key)")
      case None
      with grownD [OF grown_fresh [OF inv refl, of "ToLower key" vs 0]] vs OpAppend show ?thesis
        by (simp add: new_slice_def md_Append_def md_Set_def spec_Append_def add_vals_def Let_def md_abs_def)
    next
      case (Some cur)
      obtain h' v' where app: "append_slice extra ?h cur vs = (h', v')" by fastforce
      with Some have "append_slice extra ?h (case f (ToLower key) of None \<Rightarrow> None | Some vv \<Rightarrow> vv) vs = (h', v')"
        by simp
      note g = grownD [OF md_append_key [OF h1(1) vs this]]
      have "slen v' \<noteq> 0"
        using app vs by (auto simp: append_slice_def split: option.splits if_splits)
      with app Some vs OpAppend have "md_step (h, f) op = Some (h', f(ToLower key \<mapsto> v'))"
        by (simp add: new_slice_def md_Append_def md_Set_def Let_def)
      with g h1(2,3) vs OpAppend show ?thesis
        by (auto simp: spec_Append_def add_vals_def intro: heap_ext_trans)
    qed
  qed
qed

lemma md_run_refines:
  assumes "md_inv F h f"
  shows "\<exists>h' f'. run md_step (h, f) ops = Some (h', f') \<and> md_inv F h' f' \<and> heap_ext F h h' \<and>
    md_abs h' f' = fold spec_step ops (md_abs h f)"
  using assms
proof (induction ops arbitrary: h f)
  case Nil
  then show ?case by simp
next
  case (Cons op ops)
  obtain h1 f1 where s: "md_step (h, f) op = Some (h1, f1)" "md_inv F h1 f1" "heap_ext F h h1"
    "md_abs h1 f1 = spec_step op (md_abs h f)"
    using md_step_refines [OF Cons.prems] by blast
  with Cons.IH [OF s(2)] show ?case by (auto intro: heap_ext_trans)
qed

section \<open>Clone\<close>

lemma take_drop_write_below:
  assumes "p + n \<le> pos" "pos \<le> length xs"
  shows "take n (drop p (write_at xs pos ys)) = take n (drop p xs)"
  using assms by (auto simp: write_at_def drop_take min_def)

lemma md_abs_unchanged:
  assumes "\<And>k s. f k = Some (Some s) \<Longrightarrow> read_slice h' (Some s) = read_slice h (Some s)"
  shows "md_abs h' f = md_abs h f"
proof
  fix k
  show "md_abs h' f k = md_abs h f k"
    using assms [of k] by (cases "f k"; cases "the (f k)") (simp_all add: md_abs_def)
qed

text \<open>One value: it is copied in full to the write position, and neither the originals nor the
  values copied before it change.\<close>

lemma clone_one:
  assumes b: "b < length h" "slice_ok h vv" "base vv < b" "pos + len vv \<le> length (h ! b)"
    and f: "\<forall>k s. f k = Some (Some s) \<longrightarrow> base s < b"
    and m2: "\<forall>k s. m2 k = Some (Some s) \<longrightarrow> base s = b \<and> cap s = len s \<and> off s + len s \<le> pos"
  defines "h1 \<equiv> h[b := write_at (h ! b) pos (read_slice h (Some vv))]"
    and "s1 \<equiv> \<lparr>base = b, off = pos, len = len vv, cap = len vv\<rparr>"
  shows "length (h1 ! b) = length (h ! b)" "md_abs h1 f = md_abs h f"
    and "md_abs h1 (m2(k \<mapsto> Some s1)) = (md_abs h m2)(k \<mapsto> read_slice h (Some vv))"
proof -
  have len: "length (read_slice h (Some vv)) = len vv" by (rule length_read_slice) (rule b(2))
  show "length (h1 ! b) = length (h ! b)"
    using b(1,4) len by (simp add: h1_def)
  show "md_abs h1 f = md_abs h f"
  proof (rule md_abs_unchanged)
    fix j s
    assume "f j = Some (Some s)"
    with f have "base s \<noteq> b" by fastforce
    then show "read_slice h1 (Some s) = read_slice h (Some s)" by (simp add: h1_def)
  qed
  show "md_abs h1 (m2(k \<mapsto> Some s1)) = (md_abs h m2)(k \<mapsto> read_slice h (Some vv))"
  proof (rule md_abs_update)
    show "read_slice h1 (Some s1) = read_slice h (Some vv)"
    proof -
      have "take (0 + length (read_slice h (Some vv))) (drop pos (write_at (h ! b) (pos + 0) (read_slice h (Some vv))))
          = take 0 (drop pos (h ! b)) @ read_slice h (Some vv)"
        using b(4) len by (intro take_drop_write_at) simp
      then have "take (len vv) (drop pos (write_at (h ! b) pos (read_slice h (Some vv)))) = read_slice h (Some vv)"
        by (simp only: len add_0 add_0_right take_0 append_Nil)
      then show ?thesis
        using b(1) by (simp only: h1_def s1_def read_slice_simps(2) sslice.select_convs nth_list_update_eq)
    qed
    fix j s
    assume "m2 j = Some (Some s)"
    with m2 have s: "base s = b" "off s + len s \<le> pos" by blast+
    have "pos \<le> length (h ! b)" using b(4) by simp
    from take_drop_write_below [OF s(2) this] show "read_slice h1 (Some s) = read_slice h (Some s)"
      using b(1) s(1) by (simp only: h1_def read_slice_simps nth_list_update_eq)
  qed
qed

text \<open>What the loop keeps: the values copied so far are read back from the shared array, below
  the write position, and what is still to be copied fits behind it.\<close>

text \<open>What the loop expects of the map, the new array and what it has stored so far; what it makes.\<close>

definition clone_pre :: "md \<Rightarrow> nat \<Rightarrow> nat \<Rightarrow> string list \<Rightarrow> heap \<Rightarrow> md \<Rightarrow> bool" where
  "clone_pre f b pos ks h m2 \<longleftrightarrow>
     distinct ks \<and> b < length h \<and> (\<forall>k s. f k = Some (Some s) \<longrightarrow> slice_ok h s \<and> base s < b) \<and>
     pos + total_values f ks = length (h ! b) \<and>
     (\<forall>k s. m2 k = Some (Some s) \<longrightarrow> base s = b \<and> cap s = len s \<and> off s + len s \<le> pos)"

definition cloned :: "md \<Rightarrow> nat \<Rightarrow> string list \<Rightarrow> heap \<Rightarrow> md \<Rightarrow>
    heap \<Rightarrow> md \<Rightarrow> bool" where
  "cloned f b ks h m2 h' m2' \<longleftrightarrow>
     length h' = length h \<and> (\<forall>a. a \<noteq> b \<longrightarrow> h' ! a = h ! a) \<and> length (h' ! b) = length (h ! b) \<and>
     (\<forall>k s. m2' k = Some (Some s) \<longrightarrow> base s = b \<and> cap s = len s \<and> off s + len s \<le> length (h ! b)) \<and>
     md_abs h' m2' = (\<lambda>k. if k \<in> set ks \<and> f k \<noteq> None then md_abs h f k else md_abs h m2 k)"

lemma cloned_None: "f k = None \<Longrightarrow> cloned f b ks h m2 h' m2' \<Longrightarrow> cloned f b (k # ks) h m2 h' m2'"
  by (auto simp: cloned_def fun_eq_iff)

lemma cloned_nil:
  "f k = Some None \<Longrightarrow> k \<notin> set ks \<Longrightarrow> cloned f b ks h (m2(k \<mapsto> None)) h' m2' \<Longrightarrow> cloned f b (k # ks) h m2 h' m2'"
  by (auto simp: cloned_def fun_eq_iff md_abs_def)

lemma clone_loop_value:
  assumes pre: "clone_pre f b pos (k # ks) h m2" and fk: "f k = Some (Some vv)"
    and l: "clone_loop f b (k # ks) pos h m2 = (h', m2')"
  defines "h1 \<equiv> h[b := write_at (h ! b) pos (read_slice h (Some vv))]"
    and "m1 \<equiv> m2(k \<mapsto> Some \<lparr>base = b, off = pos, len = len vv, cap = len vv\<rparr>)"
  shows "clone_pre f b (pos + len vv) ks h1 m1" "clone_loop f b ks (pos + len vv) h1 m1 = (h', m2')"
    "cloned f b ks h1 m1 h' m2' \<Longrightarrow> cloned f b (k # ks) h m2 h' m2'"
proof -
  have b: "b < length h" and k: "k \<notin> set ks" "distinct ks"
    and f: "\<forall>k s. f k = Some (Some s) \<longrightarrow> slice_ok h s \<and> base s < b"
    and m2: "\<forall>k s. m2 k = Some (Some s) \<longrightarrow> base s = b \<and> cap s = len s \<and> off s + len s \<le> pos"
    and tot: "pos + len vv + total_values f ks = length (h ! b)"
    using pre fk by (simp_all add: clone_pre_def total_values_def)
  have vv: "slice_ok h vv" "base vv < b" using f fk by blast+
  have fits: "pos + len vv \<le> length (h ! b)" using tot by simp
  have f': "\<forall>k s. f k = Some (Some s) \<longrightarrow> base s < b" using f by blast
  note one = clone_one(1,2) [OF b vv fits f' m2, folded h1_def] clone_one(3) [OF b vv fits f' m2, where k = k, folded h1_def m1_def]
  have "\<forall>k s. f k = Some (Some s) \<longrightarrow> slice_ok h1 s \<and> base s < b"
  proof (intro allI impI)
    fix j s
    assume "f j = Some (Some s)"
    with f have "slice_ok h s" "base s < b" by blast+
    then show "slice_ok h1 s \<and> base s < b" by (simp add: h1_def slice_ok_def)
  qed
  moreover have "\<forall>j s. m1 j = Some (Some s) \<longrightarrow> base s = b \<and> cap s = len s \<and> off s + len s \<le> pos + len vv"
    using m2 by (auto simp: m1_def intro: le_add1 dest: order_trans [OF _ le_add1])
  ultimately show "clone_pre f b (pos + len vv) ks h1 m1"
    unfolding clone_pre_def using b k(2) tot one(1) by (simp add: h1_def)
  have "take (len vv) (read_slice h (Some vv)) = read_slice h (Some vv)"
    using length_read_slice [OF vv(1)] by simp
  moreover have "min (length (h ! b) - pos) (len vv) = len vv" using fits by simp
  ultimately show "clone_loop f b ks (pos + len vv) h1 m1 = (h', m2')"
    using fk l by (simp add: h1_def m1_def Let_def del: read_slice_simps(2))
  have "md_abs h f k = Some (read_slice h (Some vv))" by (simp add: md_abs_def fk)
  then have eq: "(\<lambda>j. if j \<in> set (k # ks) \<and> f j \<noteq> None then md_abs h f j else md_abs h m2 j)
      = (\<lambda>j. if j \<in> set ks \<and> f j \<noteq> None then md_abs h1 f j else md_abs h1 m1 j)"
    unfolding one(2,3) using fk k(1) by (auto simp: fun_eq_iff simp del: read_slice_simps)
  show "cloned f b ks h1 m1 h' m2' \<Longrightarrow> cloned f b (k # ks) h m2 h' m2'"
    unfolding cloned_def eq using one(1) by (simp add: h1_def)
qed

lemma clone_loop_spec:
  assumes "clone_pre f b pos ks h m2" "clone_loop f b ks pos h m2 = (h', m2')"
  shows "cloned f b ks h m2 h' m2'"
  using assms
proof (induction ks arbitrary: pos h m2)
  case Nil
  then show ?case by (fastforce simp: clone_pre_def cloned_def)
next
  case (Cons k ks)
  from Cons.prems(1) have k: "k \<notin> set ks" by (simp add: clone_pre_def)
  consider (none) "f k = None" | (nil) "f k = Some None" | (vals) vv where "f k = Some (Some vv)"
    by (metis not_Some_eq)
  then show ?case
  proof cases
    case none
    with Cons.prems have "clone_pre f b pos ks h m2" "clone_loop f b ks pos h m2 = (h', m2')"
      by (simp_all add: clone_pre_def total_values_def)
    from cloned_None [OF none Cons.IH [OF this]] show ?thesis .
  next
    case nil
    with Cons.prems have "clone_pre f b pos ks h (m2(k \<mapsto> None))" "clone_loop f b ks pos h (m2(k \<mapsto> None)) = (h', m2')"
      by (auto simp: clone_pre_def total_values_def)
    from cloned_nil [OF nil k Cons.IH [OF this]] show ?thesis .
  next
    case vals
    note step = clone_loop_value [OF Cons.prems(1) vals Cons.prems(2)]
    show ?thesis by (rule step(3) [OF Cons.IH [OF step(1,2)]])
  qed
qed

lemma md_Clone_frozen:
  assumes inv: "md_inv {} h f"
    and sp: "length h' = Suc (length h)" "\<forall>a. a \<noteq> length h \<longrightarrow> h' ! a = (h @ [x]) ! a"
  shows "md_inv {length h} h' f \<and> md_abs h' f = md_abs h f"
proof
  have base: "base s < length h" if "f k = Some (Some s)" for k s
    using md_invD(1) [OF inv that] by (simp add: slice_ok_def)
  have keep: "h' ! base s = h ! base s" if "f k = Some (Some s)" for k s
    using base [OF that] sp by (simp add: nth_append)
  then show "md_abs h' f = md_abs h f" by (intro md_abs_unchanged) simp
  show "md_inv {length h} h' f"
  proof (rule md_invI)
    show "{length h} \<subseteq> {..<length h'}" using sp by simp
  next
    fix k s
    assume s: "f k = Some (Some s)"
    show "slice_ok h' s" using md_invD(1) [OF inv s] keep [OF s] sp by (simp add: slice_ok_def)
    show "base s \<notin> {length h}" using base [OF s] by simp
  next
    fix k s k' s'
    assume "f k = Some (Some s)" "len s < cap s" "k' \<noteq> k" "f k' = Some (Some s')"
    then show "base s' \<noteq> base s" using md_invD(4) [OF inv] by blast
  qed
qed

text \<open>The clone has the values of the original (nil where it is nil) and full slices only.\<close>

lemma md_Clone_spec:
  assumes inv: "md_inv {} h f" and ks: "distinct ks" "set ks = dom f"
    and cl: "md_Clone ks h (Some f) = (h', Some f')"
  shows "md_inv {..<length h} h' f' \<and> md_abs h' f' = md_abs h f \<and> md_inv {length h} h' f \<and>
    md_abs h' f = md_abs h f \<and> (\<forall>k s. f' k = Some (Some s) \<longrightarrow> base s = length h)"
proof -
  let ?a = "replicate (total_values f ks) ''''" and ?b = "length h"
  let ?h = "h @ [?a]"
  have l: "clone_loop f ?b ks 0 ?h Map.empty = (h', f')"
    using cl by (simp add: md_Clone_def split: prod.splits)
  have "\<forall>k s. f k = Some (Some s) \<longrightarrow> slice_ok ?h s \<and> base s < ?b"
    using inv by (auto dest: md_invD(1,2) simp: slice_ok_append_heap)
  then have "clone_pre f ?b 0 ks ?h Map.empty" using ks(1) by (simp add: clone_pre_def)
  note sp = clone_loop_spec [OF this l, unfolded cloned_def]
  have "md_abs h' f' = md_abs h f"
  proof
    fix k
    have "md_abs h' f' k = (if k \<in> set ks \<and> f k \<noteq> None then md_abs h f k else md_abs ?h Map.empty k)"
      using sp by (auto simp: md_inv_grow_heap(2) [OF inv])
    then show "md_abs h' f' k = md_abs h f k"
      using ks(2) by (cases "k \<in> dom f") (auto simp: md_abs_def)
  qed
  moreover have "md_inv {..<length h} h' f'"
  proof (rule md_invI)
    show "{..<length h} \<subseteq> {..<length h'}" using sp by auto
  next
    fix k s
    assume "f' k = Some (Some s)"
    with sp have s: "base s = ?b" "cap s = len s" "off s + len s \<le> length (h' ! ?b)" by simp_all
    then show "slice_ok h' s" "base s \<notin> {..<length h}" using sp by (simp_all add: slice_ok_def)
  next
    fix k s k' and s' :: sslice
    assume "f' k = Some (Some s)" "len s < cap s"
    with sp show "base s' \<noteq> base s" by fastforce
  qed
  moreover have "md_inv {?b} h' f \<and> md_abs h' f = md_abs h f"
    using sp by (intro md_Clone_frozen [OF inv, where x = ?a]) simp_all
  ultimately show ?thesis using sp by blast
qed

text \<open>Updating one map keeps what another map reads, when the latter's arrays are frozen.\<close>

lemma heap_ext_md_abs:
  assumes "heap_ext F h h'" "\<And>k s. f k = Some (Some s) \<Longrightarrow> base s \<in> F"
  shows "md_abs h' f = md_abs h f"
  by (rule md_abs_unchanged) (use assms in \<open>auto simp: heap_ext_def\<close>)

section \<open>Requests\<close>

definition request_spec :: "KeyValue list \<Rightarrow> md_spec \<Rightarrow> md_spec" where
  "request_spec kvs M = fold (\<lambda>kv. add_vals (Key kv) [Value kv]) kvs M"

lemma request_spec_simps [simp]:
  "request_spec [] M = M"
  "request_spec (kv # kvs) M = request_spec kvs (add_vals (Key kv) [Value kv] M)"
  "request_spec (xs @ ys) M = request_spec ys (request_spec xs M)"
  by (simp_all add: request_spec_def)

lemma md_inv_empty: "md_inv {} h Map.empty"
  by (simp add: md_inv_def)

lemma md_fromRequest_spec:
  assumes "md_inv F h f" "md_fromRequest extra kvs h f = (h', f')"
  shows "md_inv F h' f' \<and> heap_ext F h h' \<and> md_abs h' f' = request_spec kvs (md_abs h f)"
  using assms
proof (induction kvs arbitrary: h f)
  case Nil
  then show ?case by simp
next
  case (Cons kv kvs)
  obtain h1 v1 where app: "append_slice extra h (case f (Key kv) of None \<Rightarrow> None | Some vv \<Rightarrow> vv) [Value kv] = (h1, v1)"
    by fastforce
  have vs: "[Value kv] \<noteq> []" by simp
  note g = grownD [OF md_append_key [OF Cons.prems(1) vs app]]
  have "md_fromRequest extra kvs h1 (f(Key kv \<mapsto> v1)) = (h', f')"
    using Cons.prems(2) app by simp
  from Cons.IH [OF g(1) this] have "md_inv F h' f'" "heap_ext F h1 h'"
    "md_abs h' f' = request_spec kvs (md_abs h1 (f(Key kv \<mapsto> v1)))" by blast+
  with g(2) show ?case
    unfolding g(3) request_spec_simps add_vals_def by (blast intro: heap_ext_trans)
qed

definition key_values :: "string \<Rightarrow> string list \<Rightarrow> KeyValue list" where
  "key_values k vs = map (\<lambda>v. \<lparr>Key = k, Value = v\<rparr>) vs"

lemma md_setRequest_concat:
  "md_setRequest ks h f kvs = kvs @ concat (map (\<lambda>k. key_values k (vals_at (md_abs h f) k)) ks)"
  by (induction ks arbitrary: kvs) (auto simp: md_abs_def key_values_def vals_at_def split: option.splits)

lemma request_spec_key_values:
  "request_spec (key_values k vs) M = (if vs = [] then M else add_vals k vs M)"
proof (induction vs arbitrary: M)
  case Nil
  show ?case by (simp add: key_values_def)
next
  case (Cons v vs)
  have "request_spec (key_values k (v # vs)) M = request_spec (key_values k vs) (add_vals k [v] M)"
    by (simp add: key_values_def)
  also have "\<dots> = add_vals k (v # vs) M"
    unfolding Cons.IH by (simp add: add_vals_add_vals)
  finally show ?case by simp
qed

lemma request_spec_other: "\<forall>kv \<in> set kvs. Key kv \<noteq> k \<Longrightarrow> request_spec kvs M k = M k"
  by (induction kvs arbitrary: M) (auto simp: add_vals_apply)

lemma request_spec_keys:
  assumes "distinct ks"
  shows "request_spec (concat (map (\<lambda>k. key_values k (g k)) ks)) M k =
    (if k \<in> set ks \<and> g k \<noteq> [] then Some (vals_at M k @ g k) else M k)"
  using assms
proof (induction ks arbitrary: M)
  case Nil
  show ?case by simp
next
  case (Cons j ks)
  let ?M = "if g j = [] then M else add_vals j (g j) M"
  have "request_spec (concat (map (\<lambda>k. key_values k (g k)) (j # ks))) M k
      = request_spec (concat (map (\<lambda>k. key_values k (g k)) ks)) ?M k"
    by (simp add: request_spec_key_values)
  also have "\<dots> = (if k \<in> set ks \<and> g k \<noteq> [] then Some (vals_at ?M k @ g k) else ?M k)"
    using Cons.prems by (intro Cons.IH) simp
  also have "\<dots> = (if k \<in> set (j # ks) \<and> g k \<noteq> [] then Some (vals_at M k @ g k) else M k)"
    using Cons.prems by (auto simp: add_vals_apply vals_at_def)
  finally show ?case .
qed

section \<open>Properties\<close>

lemma slen_length: "(\<And>s. v = Some s \<Longrightarrow> slice_ok h s) \<Longrightarrow> slen v = length (read_slice h v)"
  by (cases v) (simp_all add: length_read_slice del: read_slice_simps(2))

lemma md_Get_abs:
  assumes "md_inv F h f"
  shows "md_Get (Some f) key =
    (case f (ToLower key) of
       None \<Rightarrow> (None, False)
     | Some v \<Rightarrow> if read_slice h v = [] then (None, False) else (v, True))"
proof (cases "f (ToLower key)")
  case None
  then show ?thesis by (simp add: md_Get_def)
next
  case (Some v)
  have "slen v = length (read_slice h v)"
    by (rule slen_length) (use md_invD(1) [OF assms] Some in blast)
  with Some show ?thesis by (simp add: md_Get_def)
qed

text \<open>
  C26: Whatever sequence of \<open>Set\<close> and \<open>Append\<close> calls is made on a metadata map, with any spare
  capacity the runtime gives to grown slices, the calls never panic and the map holds exactly
  what the abstract map of value lists holds: \<open>Set\<close> overwrites or (without values) deletes,
  \<open>Append\<close> extends, and no call disturbs the values of another key through a shared array.
\<close>

theorem md_updates_refine:
  assumes "md_inv {} h f"
  shows "\<exists>h' f'. run md_step (h, f) ops = Some (h', f') \<and> md_inv {} h' f' \<and>
    md_abs h' f' = fold spec_step ops (md_abs h f)"
  using md_run_refines [OF assms, of ops] by blast

theorem md_updates_refine_witness:
  "\<exists>h' f'. run md_step ([], Map.empty) [OpSet ''Foo'' [''1''], OpAppend 4 ''foo'' [''2''], OpAppend 0 ''FOO'' [''3'']]
      = Some (h', f') \<and> md_inv {} h' f' \<and>
    md_abs h' f' = fold spec_step [OpSet ''Foo'' [''1''], OpAppend 4 ''foo'' [''2''], OpAppend 0 ''FOO'' [''3'']]
      (md_abs [] Map.empty)"
  by (rule md_updates_refine) (rule md_inv_empty)

text \<open>
  \<open>Get\<close> and \<open>GetMetadataValue\<close> read the abstract map at the lower-cased key: \<open>Get\<close> returns
  the values and true exactly when there is at least one, and the context lookup returns the
  first of them.
\<close>

theorem md_lookup_spec:
  assumes "md_inv F h f"
  shows "(case md_Get (Some f) key of (lst, ok) \<Rightarrow>
           (ok \<longleftrightarrow> (\<exists>v vs. md_abs h f (ToLower key) = Some (v # vs))) \<and>
           (ok \<longrightarrow> md_abs h f (ToLower key) = Some (read_slice h lst)) \<and>
           (\<not> ok \<longrightarrow> lst = None)) \<and>
         GetMetadataValue h (WithMetadata ctx (Some f)) key =
           (case md_abs h f (ToLower key) of Some (v # vs) \<Rightarrow> (v, True) | _ \<Rightarrow> ('''', False))"
proof (cases "f (ToLower key)")
  case None
  then show ?thesis
    by (simp add: md_Get_abs [OF assms] GetMetadataValue_def GetMetadata_def WithMetadata_def md_abs_def)
next
  case (Some v)
  then show ?thesis
    by (cases "read_slice h v")
       (simp_all add: md_Get_abs [OF assms] GetMetadataValue_def GetMetadata_def WithMetadata_def md_abs_def)
qed

theorem md_lookup_spec_witness:
  "GetMetadataValue [[''koye'']]
     (WithMetadata \<lparr>md_value = None, ctx_rest = ()\<rparr>
        (Some [''name'' \<mapsto> Some \<lparr>base = 0, off = 0, len = 1, cap = 1\<rparr>])) ''Name'' = (''koye'', True)"
proof -
  have "md_inv {} [[''koye'']] [''name'' \<mapsto> Some \<lparr>base = 0, off = 0, len = 1, cap = 1\<rparr>]"
    by (rule md_invI) (auto simp: slice_ok_def split: if_splits)
  from md_lookup_spec [OF this, of "''Name''" "\<lparr>md_value = None, ctx_rest = ()\<rparr>"] show ?thesis
    by (simp add: md_abs_def)
qed

text \<open>
  C27: A clone is independent of its original although all its values share one backing array: it
  holds the same values (nil and empty ones included), any updates of the clone act on it as on a
  private map and leave every value read through the original unchanged, and updates of the
  original leave the clone unchanged.
\<close>

theorem md_clone_independent:
  assumes inv: "md_inv {} h f" and ks: "distinct ks" "set ks = dom f"
    and cl: "md_Clone ks h (Some f) = (h1, Some f1)"
  shows "md_abs h1 f1 = md_abs h f \<and>
    (\<exists>h2 f2. run md_step (h1, f1) ops = Some (h2, f2) \<and>
       md_abs h2 f2 = fold spec_step ops (md_abs h f) \<and> md_abs h2 f = md_abs h f) \<and>
    (\<exists>h2 f2. run md_step (h1, f) ops = Some (h2, f2) \<and>
       md_abs h2 f2 = fold spec_step ops (md_abs h f) \<and> md_abs h2 f1 = md_abs h f)"
proof -
  note c = md_Clone_spec [OF inv ks cl]
  then have c1: "md_inv {..<length h} h1 f1" and c2: "md_inv {length h} h1 f" by simp_all
  have b: "f k = Some (Some s) \<Longrightarrow> base s \<in> {..<length h}" for k s
    using md_invD(2) [OF inv] by simp
  have b1: "f1 k = Some (Some s) \<Longrightarrow> base s \<in> {length h}" for k s
    using c by simp
  obtain h2 f2 where u: "run md_step (h1, f1) ops = Some (h2, f2)" "heap_ext {..<length h} h1 h2"
    "md_abs h2 f2 = fold spec_step ops (md_abs h1 f1)"
    using md_run_refines [OF c1, of ops] by blast
  obtain h3 f3 where v: "run md_step (h1, f) ops = Some (h3, f3)" "heap_ext {length h} h1 h3"
    "md_abs h3 f3 = fold spec_step ops (md_abs h1 f)"
    using md_run_refines [OF c2, of ops] by blast
  have "md_abs h2 f = md_abs h f" "md_abs h3 f1 = md_abs h f"
    using heap_ext_md_abs [OF u(2) b] heap_ext_md_abs [OF v(2) b1] c by simp_all
  with u(1,3) v(1,3) c show ?thesis by simp
qed

lemma md_Clone_Some: "\<exists>h' f'. md_Clone ks h (Some f) = (h', Some f')"
  by (simp add: md_Clone_def split: prod.split)

definition shared_heap :: heap where
  "shared_heap = [[''a'', ''b'']]"

definition example_md :: md where
  "example_md = [''x'' \<mapsto> Some \<lparr>base = 0, off = 0, len = 1, cap = 1\<rparr>,
                 ''y'' \<mapsto> Some \<lparr>base = 0, off = 1, len = 1, cap = 1\<rparr>]"

lemma example_md_inv: "md_inv {} shared_heap example_md"
  by (rule md_invI) (auto simp: slice_ok_def shared_heap_def example_md_def split: if_splits)

theorem md_clone_independent_witness:
  "\<exists>h1 f1 h2 f2. md_Clone [''x'', ''y''] shared_heap (Some example_md) = (h1, Some f1) \<and>
     run md_step (h1, f1) [OpAppend 0 ''x'' [''c'']] = Some (h2, f2) \<and>
     md_abs h2 f2 = fold spec_step [OpAppend 0 ''x'' [''c'']] (md_abs shared_heap example_md)"
proof -
  obtain h1 f1 where cl: "md_Clone [''x'', ''y''] shared_heap (Some example_md) = (h1, Some f1)"
    using md_Clone_Some by blast
  have "set [''x'', ''y''] = dom example_md"
    by (auto simp: example_md_def split: if_splits)
  from md_clone_independent [OF example_md_inv _ this cl, of "[OpAppend 0 ''x'' [''c'']]"] cl
  show ?thesis by simp blast
qed

text \<open>
  Metadata survives the trip to the server: the entries \<open>setRequest\<close> writes into a request,
  in whatever order the map is visited, are read back by \<open>fromRequest\<close> as the same keys with the
  same values in the same order; only keys without values are lost.
\<close>

theorem md_request_roundtrip:
  assumes "distinct ks" "set ks = dom f"
    and "md_fromRequest extra (md_setRequest ks h f []) h0 Map.empty = (h1, f1)"
  shows "md_abs h1 f1 k = (if md_abs h f k = Some [] then None else md_abs h f k)"
proof -
  let ?g = "vals_at (md_abs h f)"
  have "md_abs h1 f1 = request_spec (md_setRequest ks h f []) (md_abs h0 Map.empty)"
    using md_fromRequest_spec [OF md_inv_empty assms(3)] by simp
  moreover have "md_abs h0 Map.empty = Map.empty"
    by (simp add: md_abs_def)
  ultimately have "md_abs h1 f1 k = (if k \<in> set ks \<and> ?g k \<noteq> [] then Some (?g k) else None)"
    using request_spec_keys [OF assms(1), of ?g Map.empty k] by (simp add: md_setRequest_concat)
  moreover have "k \<in> set ks \<longleftrightarrow> md_abs h f k \<noteq> None"
    using assms(2) by (auto simp: md_abs_def dom_def)
  ultimately show ?thesis by (auto simp: vals_at_def split: option.splits)
qed

theorem md_request_roundtrip_witness:
  "\<exists>h1 f1. md_fromRequest 1 (md_setRequest [''y'', ''x''] shared_heap example_md []) [] Map.empty = (h1, f1) \<and>
     md_abs h1 f1 ''x'' = Some [''a'']"
proof -
  obtain h1 f1 where r: "md_fromRequest 1 (md_setRequest [''y'', ''x''] shared_heap example_md []) [] Map.empty = (h1, f1)"
    by fastforce
  have "set [''y'', ''x''] = dom example_md"
    by (auto simp: example_md_def split: if_splits)
  from md_request_roundtrip [OF _ this r, of "''x''"] r show ?thesis
    by (auto simp: md_abs_def example_md_def shared_heap_def)
qed

text \<open>
  \<open>fromRequest\<close> stores keys as they arrive while \<open>Get\<close> lower-cases its argument, so metadata
  sent under a key with an upper-case letter is in the server's map but no \<open>Get\<close>, with any
  spelling of the key, returns it.
\<close>

theorem md_uppercase_unreachable:
  assumes "ToLower key \<noteq> key" "kvs \<noteq> []" "\<forall>kv \<in> set kvs. Key kv = key"
    and "md_fromRequest extra kvs h Map.empty = (h', f')" "ToLower key' = ToLower key"
  shows "f' key \<noteq> None \<and> md_Get (Some f') key' = (None, False)"
proof -
  have spec: "md_abs h' f' = request_spec kvs Map.empty"
    using md_fromRequest_spec [OF md_inv_empty assms(4)] by (simp add: md_abs_def)
  have "kvs = key_values key (map Value kvs)"
    unfolding key_values_def map_map by (rule sym, rule map_idI) (use assms(3) in auto)
  then have "md_abs h' f' key \<noteq> None"
    using request_spec_key_values [of key "map Value kvs" Map.empty] assms(2) spec by (simp add: add_vals_apply)
  moreover have "md_abs h' f' (ToLower key') = None"
    using request_spec_other [of kvs "ToLower key'" Map.empty] assms(1,3,5) spec by simp
  ultimately show ?thesis by (auto simp: md_abs_def md_Get_def)
qed

theorem md_uppercase_unreachable_witness:
  "\<exists>h' f'. md_fromRequest 0 [\<lparr>Key = ''Trace'', Value = ''1''\<rparr>] [] Map.empty = (h', f') \<and>
     f' ''Trace'' \<noteq> None \<and> md_Get (Some f') ''Trace'' = (None, False)"
proof -
  obtain h' f' where r: "md_fromRequest 0 [\<lparr>Key = ''Trace'', Value = ''1''\<rparr>] [] Map.empty = (h', f')"
    by fastforce
  from md_uppercase_unreachable [OF _ _ _ r refl, of "''Trace''"] r show ?thesis
    by simp
qed

end
