(* ===== verification/Messages.thy ===== *)
theory Messages
  imports Errors Metadata
begin

text \<open>
  The values that travel: Go interface values (\<open>any\<close>), the protobuf messages \<open>Request\<close> and
  \<open>Response\<close> (\<open>src/request.pb.go\<close>), the codec (\<open>src/codec.go\<close>) and the payload marshaling of
  \<open>src/services.go\<close>. \<open>google.golang.org/protobuf\<close> is a third-party package: its \<open>Marshal\<close> and
  \<open>Unmarshal\<close> are the fields of the parameter \<open>proto_lib\<close>, over an abstract type of messages.
\<close>

section \<open>Interface values\<close>

text \<open>
  A value of type \<open>any\<close> is nil, a protobuf message (a pointer, nil when the content is
  \<open>None\<close>) or a value of another type; \<open>data_word_zero\<close> says whether the second word of such a
  value is zero, as it is for a nil pointer, map or function.
\<close>

datatype 'm any =
    NilAny
  | ProtoMsg (type_name: string) (content: "'m option")
  | OtherVal (type_name: string) (data_word_zero: bool)

definition isNil :: "'m any \<Rightarrow> bool" where
  "isNil resp = (case resp of NilAny \<Rightarrow> True | ProtoMsg _ m \<Rightarrow> m = None | OtherVal _ z \<Rightarrow> z)"

text \<open>The verb \<open>%T\<close>.\<close>

definition show_type :: "'m any \<Rightarrow> string" where
  "show_type v = (case v of NilAny \<Rightarrow> ''<nil>'' | ProtoMsg t _ \<Rightarrow> t | OtherVal t _ \<Rightarrow> t)"

section \<open>Requests and responses\<close>

record Request =
  Service :: string
  req_Method :: string
  Payload :: bytes
  TimeoutNano :: int
  req_Metadata :: "KeyValue list"

text \<open>\<open>rs_status\<close> is the \<open>*spb.Status\<close> of a response: nil for success without a status.\<close>

record Response =
  rs_status :: "status option"
  rs_payload :: bytes

text \<open>The generated accessors, which also work on a nil message.\<close>

definition GetService :: "Request option \<Rightarrow> string" where
  "GetService x = (case x of Some r \<Rightarrow> Service r | None \<Rightarrow> '''')"

definition GetMethod :: "Request option \<Rightarrow> string" where
  "GetMethod x = (case x of Some r \<Rightarrow> req_Method r | None \<Rightarrow> '''')"

definition GetPayload :: "Request option \<Rightarrow> bytes" where
  "GetPayload x = (case x of Some r \<Rightarrow> Payload r | None \<Rightarrow> None)"

definition GetTimeoutNano :: "Request option \<Rightarrow> int" where
  "GetTimeoutNano x = (case x of Some r \<Rightarrow> TimeoutNano r | None \<Rightarrow> 0)"

definition GetReqMetadata :: "Request option \<Rightarrow> KeyValue list" where
  "GetReqMetadata x = (case x of Some r \<Rightarrow> req_Metadata r | None \<Rightarrow> [])"

section \<open>The protobuf library\<close>

text \<open>
  \<open>pUnmarshal p t m\<close> decodes \<open>p\<close> into a message of type \<open>t\<close> whose content was \<open>m\<close>: an error, if
  any, and the content afterwards. The two messages of the protocol have fields of their own.
\<close>

record 'm proto_lib =
  pMarshal :: "string \<Rightarrow> 'm option \<Rightarrow> go_error + bytes"
  pUnmarshal :: "bytes \<Rightarrow> string \<Rightarrow> 'm option \<Rightarrow> go_error option \<times> 'm option"
  mRequest :: "Request \<Rightarrow> go_error + bytes"
  uRequest :: "bytes \<Rightarrow> go_error + Request"
  mResponse :: "Response \<Rightarrow> go_error + bytes"
  uResponse :: "bytes \<Rightarrow> go_error + Response"

section \<open>The codec\<close>

definition codec_Marshal :: "'m proto_lib \<Rightarrow> 'm any \<Rightarrow> go_error + bytes" where
  "codec_Marshal P msg =
     (case msg of
        ProtoMsg t m \<Rightarrow> pMarshal P t m
      | _ \<Rightarrow> Inl (ErrString (''ttrpc: cannot marshal unknown type: '' @ show_type msg)))"

definition codec_Unmarshal :: "'m proto_lib \<Rightarrow> bytes \<Rightarrow> 'm any \<Rightarrow> go_error option \<times> 'm any" where
  "codec_Unmarshal P p msg =
     (case msg of
        ProtoMsg t m \<Rightarrow> (case pUnmarshal P p t m of (e, m') \<Rightarrow> (e, ProtoMsg t m'))
      | _ \<Rightarrow> (Some (ErrString (''ttrpc: cannot unmarshal into unknown type: '' @ show_type msg)), msg))"

section \<open>Payloads on the server\<close>

definition protoUnmarshal :: "status_lib \<Rightarrow> 'm proto_lib \<Rightarrow> bytes \<Rightarrow> 'm any \<Rightarrow> go_error option \<times> 'm any" where
  "protoUnmarshal L P p obj =
     (case obj of
        ProtoMsg t m \<Rightarrow>
          (case pUnmarshal P p t m of
             (Some err, m') \<Rightarrow>
               (Some (StatusErr CodeInternal
                  (''ttrpc: error unmarshalling payload: '' @ error_text L err)), ProtoMsg t m')
           | (None, m') \<Rightarrow> (None, ProtoMsg t m'))
      | _ \<Rightarrow> (Some (StatusErr CodeInternal
               (''ttrpc: error unsupported request type: '' @ show_type obj)), obj))"

definition protoMarshal :: "status_lib \<Rightarrow> 'm proto_lib \<Rightarrow> 'm any \<Rightarrow> go_error + bytes" where
  "protoMarshal L P obj =
     (case obj of
        NilAny \<Rightarrow> Inr None
      | ProtoMsg t m \<Rightarrow>
          (case pMarshal P t m of
             Inl err \<Rightarrow> Inl (StatusErr CodeInternal
               (''ttrpc: error marshaling payload: '' @ error_text L err))
           | Inr r \<Rightarrow> Inr r)
      | OtherVal t z \<Rightarrow> Inl (StatusErr CodeInternal
          (''ttrpc: error unsupported response type: '' @ show_type obj)))"

text \<open>Every error of the payload functions is an Internal status.\<close>

lemma protoMarshal_Inl:
  "protoMarshal L P obj = Inl e \<Longrightarrow> \<exists>m. e = StatusErr CodeInternal m"
  by (auto simp: protoMarshal_def split: any.splits sum.splits)

lemma protoUnmarshal_Some:
  "protoUnmarshal L P p obj = (Some e, obj') \<Longrightarrow> \<exists>m. e = StatusErr CodeInternal m"
  by (auto simp: protoUnmarshal_def split: any.splits prod.splits option.splits)

section \<open>What the protobuf library promises\<close>

text \<open>
  Decoding the encoding of a message gives it back, except that an empty payload field is not
  written at all and comes back nil (the proto3 rule the comment on \<open>handle\<close> refers to).
\<close>

definition norm_bytes :: "bytes \<Rightarrow> bytes" where
  "norm_bytes p = (if bytes_of p = [] then None else p)"

lemma norm_bytes_simps [simp]:
  "norm_bytes None = None" "norm_bytes (Some []) = None" "bs \<noteq> [] \<Longrightarrow> norm_bytes (Some bs) = Some bs"
  "bytes_of (norm_bytes p) = bytes_of p" "norm_bytes (norm_bytes p) = norm_bytes p"
  by (simp_all add: norm_bytes_def)

definition proto_ok :: "'m proto_lib \<Rightarrow> bool" where
  "proto_ok P \<longleftrightarrow>
     (\<forall>r p. mRequest P r = Inr p \<longrightarrow> uRequest P p = Inr (r\<lparr>Payload := norm_bytes (Payload r)\<rparr>)) \<and>
     (\<forall>r p. mResponse P r = Inr p \<longrightarrow> uResponse P p = Inr (r\<lparr>rs_payload := norm_bytes (rs_payload r)\<rparr>))"

lemma proto_request: "proto_ok P \<Longrightarrow> mRequest P r = Inr p \<Longrightarrow>
    uRequest P p = Inr (r\<lparr>Payload := norm_bytes (Payload r)\<rparr>)"
  by (simp add: proto_ok_def)

lemma proto_response: "proto_ok P \<Longrightarrow> mResponse P r = Inr p \<Longrightarrow>
    uResponse P p = Inr (r\<lparr>rs_payload := norm_bytes (rs_payload r)\<rparr>)"
  by (simp add: proto_ok_def)

end
