(* ===== verification/UnixCreds.thy ===== *)
theory UnixCreds
  imports Errors
begin

text \<open>
  Connection handshakes (\<open>src/handshake.go\<close>) and the Unix credential check of
  \<open>src/unixcreds_linux.go\<close>. A connection is what the handshake asks of it: whether it is a
  \<open>*net.UnixConn\<close>, and the answers of \<open>SyscallConn\<close>, \<open>Control\<close> and the \<open>SO_PEERCRED\<close> query.
  User and group ids are Go \<open>int\<close>s (64 bits, here \<open>int\<close>), the kernel's are \<open>uint32\<close>.
\<close>

record Ucred =
  Pid :: "32 word"
  Uid :: u32
  Gid :: u32

record net_conn =
  conn_id :: nat
  conn_is_unix :: bool
  conn_syscall :: "go_error option"
  conn_control :: "go_error option"
  conn_ucred :: "go_error + Ucred"

text \<open>A handshaker returns the connection to use and its credential data, or an error.\<close>

type_synonym 'a Handshaker = "net_conn \<Rightarrow> go_error + (net_conn \<times> 'a option)"

definition noopHandshake :: "'a Handshaker" where
  "noopHandshake conn = Inr (conn, None)"

section \<open>The credential check\<close>

definition requireUidGid :: "Ucred \<Rightarrow> int \<Rightarrow> int \<Rightarrow> go_error option" where
  "requireUidGid ucred uid gid =
     (if (uid \<noteq> -1 \<and> (of_int uid :: u32) \<noteq> Uid ucred) \<or> (gid \<noteq> -1 \<and> (of_int gid :: u32) \<noteq> Gid ucred)
      then Some (ErrString (''ttrpc: invalid credentials: '' @ errno_text EPERM))
      else None)"

definition UnixSocketRequireUidGid :: "int \<Rightarrow> int \<Rightarrow> Ucred \<Rightarrow> go_error option" where
  "UnixSocketRequireUidGid uid gid = (\<lambda>ucred. requireUidGid ucred uid gid)"

definition UnixSocketRequireRoot :: "Ucred \<Rightarrow> go_error option" where
  "UnixSocketRequireRoot = UnixSocketRequireUidGid 0 0"

text \<open>\<open>os.Geteuid()\<close> and \<open>os.Getegid()\<close> are arguments.\<close>

definition UnixSocketRequireSameUser :: "int \<Rightarrow> int \<Rightarrow> Ucred \<Rightarrow> go_error option" where
  "UnixSocketRequireSameUser euid egid = UnixSocketRequireUidGid euid egid"

section \<open>The handshake\<close>

definition requireUnixSocket :: "net_conn \<Rightarrow> go_error + net_conn" where
  "requireUnixSocket conn =
     (if conn_is_unix conn then Inr conn else Inl (ErrString ''a unix socket connection is required''))"

definition handshake_error :: "status_lib \<Rightarrow> string \<Rightarrow> go_error \<Rightarrow> go_error" where
  "handshake_error L what e = WrapErr (''ttrpc.UnixCredentialsFunc: '' @ what @ '': '' @ error_text L e) e"

definition UnixCredentialsFunc_Handshake ::
    "status_lib \<Rightarrow> (Ucred \<Rightarrow> go_error option) \<Rightarrow> Ucred Handshaker" where
  "UnixCredentialsFunc_Handshake L fn conn =
     (case requireUnixSocket conn of
        Inl e \<Rightarrow> Inl (handshake_error L ''require unix socket'' e)
      | Inr uc \<Rightarrow>
          (case conn_syscall uc of
             Some e \<Rightarrow> Inl (handshake_error L ''(net.UnixConn).SyscallConn failed'' e)
           | None \<Rightarrow>
               (case conn_control uc of
                  Some e \<Rightarrow> Inl (handshake_error L ''(*syscall.RawConn).Control failed'' e)
                | None \<Rightarrow>
                    (case conn_ucred uc of
                       Inl e \<Rightarrow> Inl (handshake_error L ''failed to retrieve socket peer credentials'' e)
                     | Inr ucred \<Rightarrow>
                         (case fn ucred of
                            Some e \<Rightarrow> Inl (handshake_error L ''credential check failed'' e)
                          | None \<Rightarrow> Inr (uc, Some ucred))))))"

section \<open>Laws\<close>

lemma requireUidGid_None_iff:
  "requireUidGid ucred uid gid = None \<longleftrightarrow>
     (uid = -1 \<or> of_int uid = Uid ucred) \<and> (gid = -1 \<or> of_int gid = Gid ucred)"
  by (auto simp: requireUidGid_def)

lemma of_int_eq_word_iff: "(of_int k :: u32) = w \<longleftrightarrow> k mod 2 ^ 32 = uint w"
proof -
  have "uint (of_int k :: u32) = k mod 2 ^ 32"
    by (simp add: unsigned_of_int take_bit_eq_mod)
  then show ?thesis by (metis unsigned_word_eqI)
qed

lemma handshake_Inr_iff:
  "UnixCredentialsFunc_Handshake L fn conn = Inr (c, u) \<longleftrightarrow>
     c = conn \<and> conn_is_unix conn \<and> conn_syscall conn = None \<and> conn_control conn = None \<and>
     (\<exists>ucred. u = Some ucred \<and> conn_ucred conn = Inr ucred \<and> fn ucred = None)"
  by (auto simp: UnixCredentialsFunc_Handshake_def requireUnixSocket_def split: option.splits sum.splits)

section \<open>Properties\<close>

text \<open>
  What the credential check accepts: an id of -1 accepts everything, and any other id is
  compared modulo 2^32 with the peer's, since the Go \<open>int\<close> is truncated to \<open>uint32\<close> before the
  comparison. So ids within the range of \<open>uint32\<close> are compared exactly, and an id outside it is
  an alias of its remainder.
\<close>

theorem requireUidGid_accepts_iff:
  "requireUidGid ucred uid gid = None \<longleftrightarrow>
     (uid = -1 \<or> uid mod 2 ^ 32 = uint (Uid ucred)) \<and> (gid = -1 \<or> gid mod 2 ^ 32 = uint (Gid ucred))"
  by (simp only: requireUidGid_None_iff of_int_eq_word_iff)

text \<open>
  A connection that passes the handshake with \<open>UnixSocketRequireUidGid(uid, gid)\<close>, for ids in
  the range of \<open>uint32\<close>, is the Unix socket connection that came in, and its peer's effective user
  and group are exactly these, the credentials that are returned; and every such peer passes.
\<close>

theorem handshake_same_ids:
  assumes "0 \<le> uid" "uid < 2 ^ 32" "0 \<le> gid" "gid < 2 ^ 32"
  shows "UnixCredentialsFunc_Handshake L (UnixSocketRequireUidGid uid gid) conn = Inr (c, u) \<longleftrightarrow>
    c = conn \<and> conn_is_unix conn \<and> conn_syscall conn = None \<and> conn_control conn = None \<and>
    (\<exists>ucred. u = Some ucred \<and> conn_ucred conn = Inr ucred \<and> uint (Uid ucred) = uid \<and> uint (Gid ucred) = gid)"
proof -
  have "UnixSocketRequireUidGid uid gid ucred = None \<longleftrightarrow> uint (Uid ucred) = uid \<and> uint (Gid ucred) = gid" for ucred
    using assms
    by (auto simp: UnixSocketRequireUidGid_def requireUidGid_None_iff of_int_eq_word_iff)
  then show ?thesis by (simp add: handshake_Inr_iff)
qed

definition root_conn :: net_conn where
  "root_conn = \<lparr>conn_id = 1, conn_is_unix = True, conn_syscall = None, conn_control = None,
                conn_ucred = Inr \<lparr>Pid = 7, Uid = 0, Gid = 0\<rparr>\<rparr>"

theorem handshake_same_ids_witness:
  "UnixCredentialsFunc_Handshake example_status_lib (UnixSocketRequireUidGid 0 0) root_conn =
     Inr (root_conn, Some \<lparr>Pid = 7, Uid = 0, Gid = 0\<rparr>)"
  by (subst handshake_same_ids) (simp_all add: root_conn_def)

end
