(* ===== verification/Interceptors.thy ===== *)
theory Interceptors
  imports UnixCreds
begin

text \<open>
  Interceptors (\<open>src/interceptor.go\<close>), the server options of \<open>src/config.go\<close> and the client's
  interceptor options of \<open>src/client.go\<close>. Handlers and interceptors are user code: they are
  functions, over any type of contexts, unmarshalers, requests, replies and results.
\<close>

section \<open>Types\<close>

record UnaryServerInfo =
  us_FullMethod :: string

record UnaryClientInfo =
  uc_FullMethod :: string

record StreamServerInfo =
  ss_FullMethod :: string
  StreamingClient :: bool
  StreamingServer :: bool

type_synonym ('c, 'u, 'r) Method = "'c \<Rightarrow> 'u \<Rightarrow> 'r"

type_synonym ('c, 'u, 'r) UnaryServerInterceptor =
  "'c \<Rightarrow> 'u \<Rightarrow> UnaryServerInfo \<Rightarrow> ('c, 'u, 'r) Method \<Rightarrow> 'r"

type_synonym ('c, 'q, 'p, 'r) Invoker = "'c \<Rightarrow> 'q \<Rightarrow> 'p \<Rightarrow> 'r"

type_synonym ('c, 'q, 'p, 'r) UnaryClientInterceptor =
  "'c \<Rightarrow> 'q \<Rightarrow> 'p \<Rightarrow> UnaryClientInfo \<Rightarrow> ('c, 'q, 'p, 'r) Invoker \<Rightarrow> 'r"

definition defaultServerInterceptor :: "('c, 'u, 'r) UnaryServerInterceptor" where
  "defaultServerInterceptor ctx unmarshal info method = method ctx unmarshal"

definition defaultClientInterceptor :: "('c, 'q, 'p, 'r) UnaryClientInterceptor" where
  "defaultClientInterceptor ctx req resp info invoker = invoker ctx req resp"

definition defaultStreamServerInterceptor ::
    "'c \<Rightarrow> 's \<Rightarrow> StreamServerInfo \<Rightarrow> ('c \<Rightarrow> 's \<Rightarrow> 'r) \<Rightarrow> 'r" where
  "defaultStreamServerInterceptor ctx ss info stream = stream ctx ss"

section \<open>Server options\<close>

record ('c, 'u, 'r, 'a) serverConfig =
  handshaker :: "'a Handshaker option"
  interceptor :: "('c, 'u, 'r) UnaryServerInterceptor option"

definition emptyConfig :: "('c, 'u, 'r, 'a) serverConfig" where
  "emptyConfig = \<lparr>handshaker = None, interceptor = None\<rparr>"

text \<open>A \<open>ServerOpt\<close> updates the configuration or fails.\<close>

type_synonym ('c, 'u, 'r, 'a) ServerOpt =
  "('c, 'u, 'r, 'a) serverConfig \<Rightarrow> go_error + ('c, 'u, 'r, 'a) serverConfig"

definition WithServerHandshaker :: "'a Handshaker option \<Rightarrow> ('c, 'u, 'r, 'a) ServerOpt" where
  "WithServerHandshaker h c =
     (if handshaker c \<noteq> None then Inl (ErrString ''only one handshaker allowed per server'')
      else Inr (c\<lparr>handshaker := h\<rparr>))"

definition WithUnaryServerInterceptor ::
    "('c, 'u, 'r) UnaryServerInterceptor option \<Rightarrow> ('c, 'u, 'r, 'a) ServerOpt" where
  "WithUnaryServerInterceptor i c =
     (if interceptor c \<noteq> None then Inl (ErrString ''only one unchained interceptor allowed per server'')
      else Inr (c\<lparr>interceptor := i\<rparr>))"

fun chainUnaryServerInterceptors ::
    "UnaryServerInfo \<Rightarrow> ('c, 'u, 'r) Method \<Rightarrow> ('c, 'u, 'r) UnaryServerInterceptor list \<Rightarrow>
     ('c, 'u, 'r) Method" where
  "chainUnaryServerInterceptors info method [] = method"
| "chainUnaryServerInterceptors info method (i # is) =
     (\<lambda>ctx unmarshal. i ctx unmarshal info (chainUnaryServerInterceptors info method is))"

definition WithChainUnaryServerInterceptor ::
    "('c, 'u, 'r) UnaryServerInterceptor list \<Rightarrow> ('c, 'u, 'r, 'a) ServerOpt" where
  "WithChainUnaryServerInterceptor interceptors c =
     (if interceptors = [] then Inr c
      else (case (case interceptor c of Some i \<Rightarrow> i # interceptors | None \<Rightarrow> interceptors) of
              [] \<Rightarrow> Inr c
            | i # is \<Rightarrow> Inr (c\<lparr>interceptor := Some (\<lambda>ctx unmarshal info method.
                i ctx unmarshal info (chainUnaryServerInterceptors info method is))\<rparr>)))"

text \<open>The option loop of \<open>NewServer\<close>, with its early return, and the default interceptor.\<close>

fun apply_opts :: "('c, 'u, 'r, 'a) ServerOpt list \<Rightarrow> ('c, 'u, 'r, 'a) ServerOpt" where
  "apply_opts [] c = Inr c"
| "apply_opts (opt # opts) c = (case opt c of Inl e \<Rightarrow> Inl e | Inr c' \<Rightarrow> apply_opts opts c')"

definition NewServer_config ::
    "('c, 'u, 'r, 'a) ServerOpt list \<Rightarrow> go_error + ('c, 'u, 'r, 'a) serverConfig" where
  "NewServer_config opts =
     (case apply_opts opts emptyConfig of
        Inl e \<Rightarrow> Inl e
      | Inr c \<Rightarrow> Inr (case interceptor c of
            None \<Rightarrow> c\<lparr>interceptor := Some defaultServerInterceptor\<rparr>
          | Some _ \<Rightarrow> c))"

section \<open>Client options\<close>

record ('c, 'q, 'p, 'r) clientConfig =
  c_interceptor :: "('c, 'q, 'p, 'r) UnaryClientInterceptor option"
  c_userCloseFunc :: "nat option"

text \<open>The user's close callback is named by a number; \<open>None\<close> is the default that does nothing.\<close>

definition WithOnClose :: "nat \<Rightarrow> ('c, 'q, 'p, 'r) clientConfig \<Rightarrow> ('c, 'q, 'p, 'r) clientConfig" where
  "WithOnClose onClose c = c\<lparr>c_userCloseFunc := Some onClose\<rparr>"

definition WithUnaryClientInterceptor ::
    "('c, 'q, 'p, 'r) UnaryClientInterceptor option \<Rightarrow>
     ('c, 'q, 'p, 'r) clientConfig \<Rightarrow> ('c, 'q, 'p, 'r) clientConfig" where
  "WithUnaryClientInterceptor i c = c\<lparr>c_interceptor := i\<rparr>"

fun chainUnaryInterceptors ::
    "('c, 'q, 'p, 'r) UnaryClientInterceptor list \<Rightarrow> ('c, 'q, 'p, 'r) Invoker \<Rightarrow> UnaryClientInfo \<Rightarrow>
     ('c, 'q, 'p, 'r) Invoker" where
  "chainUnaryInterceptors [] final info = final"
| "chainUnaryInterceptors (i # is) final info =
     (\<lambda>ctx req reply. i ctx req reply info (chainUnaryInterceptors is final info))"

definition WithChainUnaryClientInterceptor ::
    "('c, 'q, 'p, 'r) UnaryClientInterceptor list \<Rightarrow>
     ('c, 'q, 'p, 'r) clientConfig \<Rightarrow> ('c, 'q, 'p, 'r) clientConfig" where
  "WithChainUnaryClientInterceptor interceptors c =
     (if interceptors = [] then c
      else (case (case c_interceptor c of Some i \<Rightarrow> i # interceptors | None \<Rightarrow> interceptors) of
              [] \<Rightarrow> c
            | i # is \<Rightarrow> c\<lparr>c_interceptor := Some (\<lambda>ctx req reply info final.
                i ctx req reply info (chainUnaryInterceptors is final info))\<rparr>))"

definition NewClient_config ::
    "(('c, 'q, 'p, 'r) clientConfig \<Rightarrow> ('c, 'q, 'p, 'r) clientConfig) list \<Rightarrow> ('c, 'q, 'p, 'r) clientConfig" where
  "NewClient_config opts =
     (let c = fold (\<lambda>opt c. opt c) opts \<lparr>c_interceptor = None, c_userCloseFunc = None\<rparr>
      in case c_interceptor c of
           None \<Rightarrow> c\<lparr>c_interceptor := Some defaultClientInterceptor\<rparr>
         | Some _ \<Rightarrow> c)"

section \<open>Both chains are chains of wrappers\<close>

interpretation server_chain: wrapper_chain
  "\<lambda>i f ctx unmarshal. i ctx unmarshal info f"
  "\<lambda>is f. chainUnaryServerInterceptors info f is" for info
  by unfold_locales simp_all

interpretation client_chain: wrapper_chain
  "\<lambda>i f ctx req reply. i ctx req reply info f"
  "\<lambda>is f. chainUnaryInterceptors is f info" for info
  by unfold_locales simp_all

text \<open>The list a chain option runs: the interceptor installed before it comes first.\<close>

definition chained :: "'i option \<Rightarrow> 'i list \<Rightarrow> 'i list" where
  "chained i is = (case i of None \<Rightarrow> is | Some i \<Rightarrow> i # is)"

lemma WithChain_server:
  assumes "is \<noteq> []"
  shows "WithChainUnaryServerInterceptor is c =
    Inr (c\<lparr>interceptor := Some (\<lambda>ctx unmarshal info method.
             chainUnaryServerInterceptors info method (chained (interceptor c) is) ctx unmarshal)\<rparr>)"
  using assms
  by (cases "interceptor c"; cases "is") (simp_all add: WithChainUnaryServerInterceptor_def chained_def)

lemma WithChain_client:
  assumes "is \<noteq> []"
  shows "WithChainUnaryClientInterceptor is c =
    c\<lparr>c_interceptor := Some (\<lambda>ctx req reply info final.
        chainUnaryInterceptors (chained (c_interceptor c) is) final info ctx req reply)\<rparr>"
  using assms
  by (cases "c_interceptor c"; cases "is") (simp_all add: WithChainUnaryClientInterceptor_def chained_def)

section \<open>Properties\<close>

text \<open>
  C37: A server built with one or several chain options runs the interceptors as one nested call,
  in the order they were given, the first outermost and the handler innermost: the chains given
  in two options compose to the chain of their concatenation, and every interceptor of the chain
  sees the method information of the call.
\<close>

theorem server_chain_order:
  assumes "is \<noteq> []" "js \<noteq> []"
  shows "\<exists>c. NewServer_config [WithChainUnaryServerInterceptor is, WithChainUnaryServerInterceptor js] = Inr c \<and>
    NewServer_config [WithChainUnaryServerInterceptor (is @ js)] = Inr c \<and>
    interceptor c = Some (\<lambda>ctx unmarshal info method.
      foldr (\<lambda>i f ctx unmarshal. i ctx unmarshal info f) (is @ js) method ctx unmarshal)"
proof -
  have "chainUnaryServerInterceptors info m (is @ js) =
      chainUnaryServerInterceptors info (chainUnaryServerInterceptors info m js) is" for info m
    by (rule server_chain.chain_append)
  with assms show ?thesis
    by (simp add: NewServer_config_def WithChain_server emptyConfig_def chained_def server_chain.chain_foldr)
qed

theorem server_chain_order_witness:
  "\<exists>c. NewServer_config
      [WithChainUnaryServerInterceptor [\<lambda>ctx u info m. ''a'' @ m ctx u],
       WithChainUnaryServerInterceptor [\<lambda>ctx u info m. ''b'' @ m ctx u]] =
      (Inr c :: go_error + (unit, unit, string, unit) serverConfig) \<and>
    map_option (\<lambda>i. i () () \<lparr>us_FullMethod = ''/s/m''\<rparr> (\<lambda>_ _. ''h'')) (interceptor c) = Some ''abh''"
proof -
  let ?a = "(\<lambda>ctx u info m. ''a'' @ m ctx u) :: (unit, unit, string) UnaryServerInterceptor"
  let ?b = "(\<lambda>ctx u info m. ''b'' @ m ctx u) :: (unit, unit, string) UnaryServerInterceptor"
  have "[?a] \<noteq> []" "[?b] \<noteq> []" by simp_all
  from server_chain_order [where 'd = unit, OF this]
  obtain c :: "(unit, unit, string, unit) serverConfig" where
    c: "NewServer_config [WithChainUnaryServerInterceptor [?a], WithChainUnaryServerInterceptor [?b]] = Inr c"
       "interceptor c = Some (\<lambda>ctx unmarshal info method.
          foldr (\<lambda>i f ctx unmarshal. i ctx unmarshal info f) ([?a] @ [?b]) method ctx unmarshal)"
    by blast
  show ?thesis
    by (rule exI [of _ c], rule conjI [OF c(1)], unfold c(2), simp)
qed

text \<open>
  The client's chain option behaves the same way: after any earlier interceptor, the given
  ones run in order around the final invoker, and two options compose to one.
\<close>

theorem client_chain_order:
  assumes "is \<noteq> []" "js \<noteq> []"
  shows "WithChainUnaryClientInterceptor js (WithChainUnaryClientInterceptor is c) =
      WithChainUnaryClientInterceptor (is @ js) c \<and>
    c_interceptor (WithChainUnaryClientInterceptor is c) = Some (\<lambda>ctx req reply info final.
      foldr (\<lambda>i f ctx req reply. i ctx req reply info f)
        ((case c_interceptor c of None \<Rightarrow> [] | Some i \<Rightarrow> [i]) @ is) final ctx req reply)"
proof -
  have "chainUnaryInterceptors (xs @ js) final info =
      chainUnaryInterceptors xs (chainUnaryInterceptors js final info) info" for xs final info
    by (rule client_chain.chain_append)
  from this [of "chained (c_interceptor c) is"] assms show ?thesis
    by (cases "c_interceptor c") (simp_all add: WithChain_client chained_def client_chain.chain_foldr)
qed

theorem client_chain_order_witness:
  "map_option (\<lambda>i. i () () () \<lparr>uc_FullMethod = ''/s/m''\<rparr> (\<lambda>_ _ _. ''h''))
     (c_interceptor (WithChainUnaryClientInterceptor [\<lambda>ctx q p info f. ''b'' @ f ctx q p]
        \<lparr>c_interceptor = Some (\<lambda>ctx q p info f. ''a'' @ f ctx q p), c_userCloseFunc = None\<rparr>)) = Some ''abh''"
proof -
  let ?c = "\<lparr>c_interceptor = Some (\<lambda>ctx q p info f. ''a'' @ f ctx q p), c_userCloseFunc = None\<rparr>"
  let ?is = "[\<lambda>(ctx :: unit) (q :: unit) (p :: unit) (info :: UnaryClientInfo) f. ''b'' @ f ctx q p]"
  have "?is \<noteq> []" by simp
  from client_chain_order [OF this this, of ?c] show ?thesis by simp
qed

text \<open>
  A server cannot be built with two handshakers, or with a plain interceptor after another
  interceptor: \<open>NewServer\<close> returns the error of the offending option and no server.
\<close>

theorem server_options_exclusive:
  assumes "interceptor c \<noteq> None" "handshaker c \<noteq> None"
  shows "apply_opts (WithServerHandshaker h # opts) c = Inl (ErrString ''only one handshaker allowed per server'') \<and>
    apply_opts (WithUnaryServerInterceptor i # opts) c =
      Inl (ErrString ''only one unchained interceptor allowed per server'') \<and>
    NewServer_config (WithServerHandshaker (Some g) # WithServerHandshaker h # opts) =
      Inl (ErrString ''only one handshaker allowed per server'')"
  using assms by (simp add: WithServerHandshaker_def WithUnaryServerInterceptor_def NewServer_config_def emptyConfig_def)

theorem server_options_exclusive_witness:
  "NewServer_config [WithServerHandshaker (Some noopHandshake), WithServerHandshaker None] =
     (Inl (ErrString ''only one handshaker allowed per server'') ::
       go_error + (unit, unit, unit, unit) serverConfig)"
proof -
  let ?c = "\<lparr>handshaker = Some noopHandshake, interceptor = Some defaultServerInterceptor\<rparr>
    :: (unit, unit, unit, unit) serverConfig"
  have "interceptor ?c \<noteq> None" "handshaker ?c \<noteq> None" by simp_all
  from server_options_exclusive [OF this, of None "[]" None noopHandshake] show ?thesis by (elim conjE)
qed

end
