(* ===== verification/Services.thy ===== *)
theory Services
  imports Messages Interceptors
begin

text \<open>
  The service table and the unary path of \<open>src/services.go\<close>: registration, the full method name
  of an RPC (with \<open>path.Join\<close> and \<open>path.Clean\<close> of the standard library), the conversion of Go
  errors to gRPC codes, \<open>unaryCall\<close> and \<open>streamCall\<close>, and the request context of \<open>src/server.go\<close>.
\<close>

section \<open>Paths\<close>

text \<open>\<open>path.Clean\<close>: the elements between slashes, with empty and dot elements dropped and
  dot-dot elements resolved.\<close>

fun split_path :: "string \<Rightarrow> string list" where
  "split_path [] = [[]]"
| "split_path (c # cs) =
     (if c = CHR ''/'' then [] # split_path cs
      else (case split_path cs of [] \<Rightarrow> [[c]] | w # ws \<Rightarrow> (c # w) # ws))"

fun join_path :: "string list \<Rightarrow> string" where
  "join_path [] = ''''"
| "join_path [w] = w"
| "join_path (w # ws) = w @ ''/'' @ join_path ws"

text \<open>The elements kept so far, the last one first.\<close>

fun clean_elems :: "bool \<Rightarrow> string list \<Rightarrow> string list \<Rightarrow> string list" where
  "clean_elems rooted [] out = rev out"
| "clean_elems rooted (w # ws) out =
     (if w = '''' \<or> w = ''.'' then clean_elems rooted ws out
      else if w = ''..'' then
        (case out of
           [] \<Rightarrow> clean_elems rooted ws (if rooted then [] else [w])
         | v # vs \<Rightarrow> clean_elems rooted ws (if v = ''..'' then w # v # vs else vs))
      else clean_elems rooted ws (w # out))"

definition path_Clean :: "string \<Rightarrow> string" where
  "path_Clean p =
     (if p = '''' then ''.''
      else let rooted = (hd p = CHR ''/'');
               s = join_path (clean_elems rooted (split_path p) [])
           in if rooted then ''/'' @ s else if s = '''' then ''.'' else s)"

text \<open>\<open>path.Join\<close> of two elements.\<close>

definition path_Join :: "string \<Rightarrow> string \<Rightarrow> string" where
  "path_Join a b =
     (if a = '''' \<and> b = '''' then ''''
      else path_Clean (if a = '''' then b else a @ ''/'' @ b))"

definition fullPath :: "string \<Rightarrow> string \<Rightarrow> string" where
  "fullPath service method = ''/'' @ path_Join service method"

text \<open>An ordinary name: a single path element that is not a dot or dot-dot.\<close>

definition simple_name :: "string \<Rightarrow> bool" where
  "simple_name n \<longleftrightarrow> n \<noteq> '''' \<and> n \<noteq> ''.'' \<and> n \<noteq> ''..'' \<and> \<not> List.member n (CHR ''/'')"

lemma split_path_simple: "CHR ''/'' \<notin> set n \<Longrightarrow> split_path n = [n]"
  by (induction n) auto

lemma split_path_cons: "CHR ''/'' \<notin> set n \<Longrightarrow> split_path (n @ CHR ''/'' # m) = n # split_path m"
  by (induction n) auto

lemma fullPath_simple:
  assumes "simple_name s" "simple_name m"
  shows "fullPath s m = ''/'' @ s @ ''/'' @ m"
proof -
  have "CHR ''/'' \<notin> set s" "CHR ''/'' \<notin> set m" and ne: "s \<noteq> ''''" "m \<noteq> ''''"
    using assms by (auto simp: simple_name_def)
  then have "split_path (s @ ''/'' @ m) = [s, m]"
    by (simp add: split_path_cons split_path_simple)
  moreover have "hd (s @ ''/'' @ m) \<noteq> CHR ''/''"
    using ne \<open>CHR ''/'' \<notin> set s\<close> by (cases s) auto
  ultimately show ?thesis
    using assms ne by (simp add: fullPath_def path_Join_def path_Clean_def simple_name_def)
qed

section \<open>Registration\<close>

record ('h, 's) ServiceDesc =
  Methods :: "string \<rightharpoonup> 'h"
  Streams :: "string \<rightharpoonup> 's"

record 'h Stream =
  Handler :: 'h
  st_StreamingClient :: bool
  st_StreamingServer :: bool

record ('d, 'i, 'j) serviceSet =
  services :: "string \<rightharpoonup> 'd"
  unaryInterceptor :: 'i
  streamInterceptor :: 'j

definition newServiceSet ::
    "('c, 'u, 'r) UnaryServerInterceptor \<Rightarrow>
     ('d, ('c, 'u, 'r) UnaryServerInterceptor, 'x \<Rightarrow> 'y \<Rightarrow> StreamServerInfo \<Rightarrow> ('x \<Rightarrow> 'y \<Rightarrow> 'z) \<Rightarrow> 'z) serviceSet" where
  "newServiceSet i =
     \<lparr>services = Map.empty, unaryInterceptor = i, streamInterceptor = defaultStreamServerInterceptor\<rparr>"

text \<open>\<open>Inl\<close> is the panic value.\<close>

definition register :: "string \<Rightarrow> 'd \<Rightarrow> ('d, 'i, 'j) serviceSet \<Rightarrow> string + ('d, 'i, 'j) serviceSet" where
  "register name desc s =
     (case services s name of
        Some _ \<Rightarrow> Inl (''duplicate service '' @ name @ '' registered'')
      | None \<Rightarrow> Inr (s\<lparr>services := (services s)(name \<mapsto> desc)\<rparr>))"

definition Register ::
    "string \<Rightarrow> (string \<rightharpoonup> 'h) \<Rightarrow> (('h, 's) ServiceDesc, 'i, 'j) serviceSet \<Rightarrow>
     string + (('h, 's) ServiceDesc, 'i, 'j) serviceSet" where
  "Register name methods s = register name \<lparr>Methods = methods, Streams = Map.empty\<rparr> s"

definition RegisterService :: "string \<Rightarrow> 'd \<Rightarrow> ('d, 'i, 'j) serviceSet \<Rightarrow> string + ('d, 'i, 'j) serviceSet" where
  "RegisterService name desc s = register name desc s"

fun register_all :: "(string \<times> 'd) list \<Rightarrow> ('d, 'i, 'j) serviceSet \<Rightarrow> string + ('d, 'i, 'j) serviceSet" where
  "register_all [] s = Inr s"
| "register_all ((n, d) # ds) s =
     (case register n d s of Inl e \<Rightarrow> Inl e | Inr s' \<Rightarrow> register_all ds s')"

lemma register_Inr_iff:
  "register n d s = Inr s' \<longleftrightarrow> services s n = None \<and> s' = s\<lparr>services := (services s)(n \<mapsto> d)\<rparr>"
  by (auto simp: register_def split: option.splits)

lemma register_all_Inr:
  "register_all ds s = Inr s' \<Longrightarrow>
   distinct (map fst ds) \<and> (\<forall>n \<in> set (map fst ds). services s n = None) \<and>
   services s' = services s ++ map_of ds"
proof (induction ds arbitrary: s)
  case Nil
  then show ?case by simp
next
  case (Cons nd ds)
  obtain n d where nd: "nd = (n, d)" by (cases nd)
  from Cons.prems obtain t where t: "register n d s = Inr t" "register_all ds t = Inr s'"
    by (auto simp: nd split: sum.splits)
  then have n: "services s n = None" and st: "services t = (services s)(n \<mapsto> d)"
    by (auto simp: register_Inr_iff)
  from Cons.IH [OF t(2)] have IH: "distinct (map fst ds)"
    "\<forall>k \<in> set (map fst ds). services t k = None" "services s' = services t ++ map_of ds"
    by blast+
  have nin: "n \<notin> set (map fst ds)" using IH(2) st by fastforce
  then have none: "map_of ds n = None" by (simp add: map_of_eq_None_iff)
  have fresh: "services s k = None" if "k \<in> set (map fst ds)" for k
    using IH(2) that st nin by (metis fun_upd_other)
  have "services s' = services s ++ map_of (nd # ds)"
  proof (rule ext)
    fix x
    show "services s' x = (services s ++ map_of (nd # ds)) x"
      using none by (cases "map_of ds x") (auto simp: IH(3) st nd map_add_def)
  qed
  moreover have "distinct (map fst (nd # ds))" using nin IH(1) by (simp add: nd)
  moreover have "\<forall>k \<in> set (map fst (nd # ds)). services s k = None"
    using fresh n by (simp add: nd)
  ultimately show ?case by blast
qed

lemma register_all_distinct:
  "distinct (map fst ds) \<Longrightarrow> (\<forall>n \<in> set (map fst ds). services s n = None) \<Longrightarrow>
   \<exists>s'. register_all ds s = Inr s'"
proof (induction ds arbitrary: s)
  case Nil
  then show ?case by simp
next
  case (Cons nd ds)
  obtain n d where nd: "nd = (n, d)" by (cases nd)
  let ?t = "s\<lparr>services := (services s)(n \<mapsto> d)\<rparr>"
  have "\<forall>k \<in> set (map fst ds). services ?t k = None"
    using Cons.prems by (auto simp: nd)
  with Cons.IH [of ?t] Cons.prems show ?case
    by (simp add: nd register_def)
qed

section \<open>Errors to codes\<close>

definition convertCode :: "go_error option \<Rightarrow> code" where
  "convertCode err =
     (case err of
        None \<Rightarrow> CodeOK
      | Some e \<Rightarrow>
          if e = IoEOF then CodeOutOfRange
          else if List.member [IoClosedPipe, IoNoProgress, IoShortBuffer, IoShortWrite, IoUnexpectedEOF] e
            then CodeFailedPrecondition
          else if e = OsErrInvalid then CodeInvalidArgument
          else if e = CtxCanceled then CodeCanceled
          else if e = CtxDeadlineExceeded then CodeDeadlineExceeded
          else if os_is_exist e then CodeAlreadyExists
          else if os_is_not_exist e then CodeNotFound
          else if os_is_permission e then CodePermissionDenied
          else CodeUnknown)"

lemma convertCode_OK_iff [simp]: "convertCode err = CodeOK \<longleftrightarrow> err = None"
  by (cases err) (simp_all add: convertCode_def)

text \<open>
  The status both call paths send for the final error: the one \<open>status.FromError\<close> finds, else
  one with the converted code. (\<open>FromError\<close> accepts nil, so \<open>err.Error()\<close> is called on an error.)
\<close>

definition error_status :: "status_lib \<Rightarrow> go_error option \<Rightarrow> status option" where
  "error_status L err =
     (case FromError L err of
        (st, ok) \<Rightarrow>
          if ok then st
          else Some (Status (convertCode err) (case err of Some e \<Rightarrow> error_text L e | None \<Rightarrow> '''')))"

lemma error_status_None: "status_lib_ok L \<Longrightarrow> status_code (error_status L None) = CodeOK"
  by (cases "FromError L None") (simp add: error_status_def status_lib_ok_def)

lemma error_status_StatusErr:
  "status_lib_ok L \<Longrightarrow> c \<noteq> CodeOK \<Longrightarrow> error_status L (Some (StatusErr c m)) = Some (Status c m)"
  by (simp add: error_status_def from_error_StatusErr)

lemma error_status_plain:
  "status_lib_ok L \<Longrightarrow> (\<forall>x \<in> set (err_chain e). \<not> is_status_error x) \<Longrightarrow>
   error_status L (Some e) = Some (Status (convertCode (Some e)) (error_text L e))"
  by (simp add: error_status_def from_error_plain)

lemma find_is_status_error:
  assumes "x \<in> set (err_chain e)" "is_status_error x"
  shows "\<exists>c m. List.find is_status_error (err_chain e) = Some (StatusErr c m) \<and> c \<noteq> CodeOK"
proof -
  obtain y where y: "List.find is_status_error (err_chain e) = Some y"
    using assms by (cases "List.find is_status_error (err_chain e)") (auto simp: find_None_iff)
  then have "is_status_error y" by (auto simp: find_Some_iff)
  then obtain c m where "y = StatusErr c m" "c \<noteq> CodeOK"
    by (auto simp: is_status_error_def split: go_error.splits)
  with y show ?thesis by blast
qed

text \<open>The client never takes an error for a success.\<close>

lemma error_status_OK_iff:
  assumes "status_lib_ok L"
  shows "status_code (error_status L err) = CodeOK \<longleftrightarrow> err = None"
proof (cases err)
  case None
  with error_status_None [OF assms] show ?thesis by simp
next
  case (Some e)
  show ?thesis
  proof (cases "\<forall>x \<in> set (err_chain e). \<not> is_status_error x")
    case True
    with error_status_plain [OF assms] Some show ?thesis by simp
  next
    case False
    then obtain c m where "List.find is_status_error (err_chain e) = Some (StatusErr c m)" "c \<noteq> CodeOK"
      using find_is_status_error by blast
    with from_error_wrapped [OF assms] Some show ?thesis
      by (fastforce simp: error_status_def)
  qed
qed

section \<open>Calls\<close>

text \<open>
  A method decodes its request through the \<open>unmarshal\<close> argument and returns a reply and an error.
  The methods and interceptors of the table are user code, any functions of these types.
\<close>

type_synonym 'm Unmarshaler = "'m any \<Rightarrow> go_error option \<times> 'm any"
type_synonym 'm reply = "'m any \<times> go_error option"
type_synonym ('c, 'm) MethodFn = "('c, 'm Unmarshaler, 'm reply) Method"

text \<open>What follows the interceptor: the payload and the status of its reply.\<close>

definition unaryCall_reply :: "status_lib \<Rightarrow> 'm proto_lib \<Rightarrow> 'm reply \<Rightarrow> bytes \<times> status option" where
  "unaryCall_reply L P r =
     (let (resp, err) = r;
          (p, err') =
            (if err = None then
               (if isNil resp then (None, Some (ErrString ''ttrpc: marshal called with nil''))
                else (case protoMarshal L P resp of Inl e \<Rightarrow> (None, Some e) | Inr p \<Rightarrow> (p, None)))
             else (None, err))
      in (p, error_status L err'))"

definition unaryCall ::
    "status_lib \<Rightarrow> 'm proto_lib \<Rightarrow> ('c, 'm Unmarshaler, 'm reply) UnaryServerInterceptor \<Rightarrow>
     'c \<Rightarrow> ('c, 'm) MethodFn \<Rightarrow> UnaryServerInfo \<Rightarrow> bytes \<Rightarrow> bytes \<times> status option" where
  "unaryCall L P intercept ctx method info dat =
     (let unmarshal = protoUnmarshal L P dat in unaryCall_reply L P (intercept ctx unmarshal info method))"

definition streamCall ::
    "status_lib \<Rightarrow> 'm proto_lib \<Rightarrow> ('c \<Rightarrow> 'x \<Rightarrow> StreamServerInfo \<Rightarrow> ('c \<Rightarrow> 'x \<Rightarrow> 'm reply) \<Rightarrow> 'm reply) \<Rightarrow>
     'c \<Rightarrow> ('c \<Rightarrow> 'x \<Rightarrow> 'm reply) \<Rightarrow> StreamServerInfo \<Rightarrow> 'x \<Rightarrow> bytes \<times> status option" where
  "streamCall L P intercept ctx stream info ss =
     (let (resp, err) = intercept ctx ss info stream;
          (p, err') =
            (if err = None
             then (case protoMarshal L P resp of Inl e \<Rightarrow> (None, Some e) | Inr p \<Rightarrow> (p, None))
             else (None, err))
      in (p, error_status L err'))"

text \<open>A call fails with no payload, or succeeds with the encoding of the reply.\<close>

lemma unaryCall_cases:
  assumes "status_lib_ok L" "unaryCall L P intercept ctx meth info dat = (p, st)"
    and r: "intercept ctx (protoUnmarshal L P dat) info meth = (resp, err)"
  shows "(status_code st = CodeOK \<longleftrightarrow> err = None \<and> \<not> isNil resp \<and> protoMarshal L P resp = Inr p) \<and>
    (status_code st \<noteq> CodeOK \<longrightarrow> p = None)"
proof -
  have ok: "status_code (error_status L e) = CodeOK \<longleftrightarrow> e = None" for e
    by (rule error_status_OK_iff [OF assms(1)])
  show ?thesis
  proof (cases "err = None \<and> \<not> isNil resp")
    case True
    then show ?thesis
      using assms(2) r
      by (cases "protoMarshal L P resp") (auto simp: unaryCall_def unaryCall_reply_def ok)
  next
    case False
    then show ?thesis
      using assms(2) r by (auto simp: unaryCall_def unaryCall_reply_def ok split: if_splits)
  qed
qed

lemma streamCall_cases:
  assumes "status_lib_ok L" "streamCall L P intercept ctx stream info ss = (p, st)"
    and r: "intercept ctx ss info stream = (resp, err)"
  shows "(status_code st = CodeOK \<longleftrightarrow> err = None \<and> protoMarshal L P resp = Inr p) \<and>
    (status_code st \<noteq> CodeOK \<longrightarrow> p = None)"
proof -
  have ok: "status_code (error_status L e) = CodeOK \<longleftrightarrow> e = None" for e
    by (rule error_status_OK_iff [OF assms(1)])
  show ?thesis
    using assms(2) r
    by (cases "protoMarshal L P resp"; cases err) (auto simp: streamCall_def ok)
qed

section \<open>The request context\<close>

text \<open>How the context derived for a request ends: \<open>WithCancel\<close> or \<open>WithTimeout\<close> of a duration.\<close>

datatype ctx_end = CtxWithCancel | CtxWithTimeout int

definition getRequestContext ::
    "nat \<Rightarrow> heap \<Rightarrow> 'c go_context \<Rightarrow> Request \<Rightarrow> heap \<times> 'c go_context \<times> ctx_end" where
  "getRequestContext extra h ctx req =
     (let (h', ctx') =
            (if req_Metadata req \<noteq> []
             then (case md_fromRequest extra (req_Metadata req) h Map.empty of
                     (h', m) \<Rightarrow> (h', WithMetadata ctx (Some m)))
             else (h, ctx))
      in if TimeoutNano req = 0 then (h', ctx', CtxWithCancel)
         else (h', ctx', CtxWithTimeout (TimeoutNano req)))"

section \<open>Properties\<close>

text \<open>
  Registering services panics exactly when a name is registered twice; otherwise the table of
  the server finds under each name the description registered for it and nothing under any other.
\<close>

theorem service_table:
  fixes i :: "('c, 'u, 'r) UnaryServerInterceptor"
    and ds :: "(string \<times> 'd) list"
    and set0 :: "('d, ('c, 'u, 'r) UnaryServerInterceptor, 'x \<Rightarrow> 'y \<Rightarrow> StreamServerInfo \<Rightarrow> ('x \<Rightarrow> 'y \<Rightarrow> 'z) \<Rightarrow> 'z) serviceSet"
  assumes "set0 = newServiceSet i"
  shows "((\<exists>s. register_all ds set0 = Inr s) \<longleftrightarrow> distinct (map fst ds)) \<and>
    (\<forall>s n d. register_all ds set0 = Inr s \<longrightarrow> (services s n = Some d \<longleftrightarrow> (n, d) \<in> set ds))"
proof (intro conjI allI impI iffI)
  have s0: "services set0 = Map.empty" by (simp add: assms newServiceSet_def)
  show "distinct (map fst ds)" if "\<exists>s. register_all ds set0 = Inr s"
    using that register_all_Inr by blast
  show "\<exists>s. register_all ds set0 = Inr s" if "distinct (map fst ds)"
    using register_all_distinct [OF that, of set0] s0 by simp
  fix s n d
  assume "register_all ds set0 = Inr s"
  from register_all_Inr [OF this] s0 have "distinct (map fst ds)" "services s = map_of ds"
    by simp_all
  then have "services s n = Some d \<longleftrightarrow> (n, d) \<in> set ds" by simp
  then show "services s n = Some d \<Longrightarrow> (n, d) \<in> set ds" "(n, d) \<in> set ds \<Longrightarrow> services s n = Some d"
    by blast+
qed

theorem service_table_witness:
  "\<not> (\<exists>s. register_all [(''a'', 1), (''b'', 2), (''a'', 3 :: nat)]
       (newServiceSet (\<lambda>c u i m. m c u) ::
         (nat, (unit, unit, unit) UnaryServerInterceptor,
          unit \<Rightarrow> unit \<Rightarrow> StreamServerInfo \<Rightarrow> (unit \<Rightarrow> unit \<Rightarrow> unit) \<Rightarrow> unit) serviceSet) = Inr s)"
  by (subst service_table [OF refl, THEN conjunct1]) simp

text \<open>
  For ordinary service and method names the full method name given to the interceptors is
  \<open>/service/method\<close>, and it identifies the pair.
\<close>

theorem full_method_name:
  assumes "simple_name s" "simple_name m" "simple_name s'" "simple_name m'"
  shows "fullPath s m = ''/'' @ s @ ''/'' @ m \<and> (fullPath s m = fullPath s' m' \<longleftrightarrow> s = s' \<and> m = m')"
proof -
  have no: "CHR ''/'' \<notin> set s" "CHR ''/'' \<notin> set s'" "CHR ''/'' \<notin> set m" "CHR ''/'' \<notin> set m'"
    using assms by (auto simp: simple_name_def)
  have "s = s' \<and> m = m'" if "s @ ''/'' @ m = s' @ ''/'' @ m'"
  proof -
    have "split_path (s @ ''/'' @ m) = [s, m]" "split_path (s' @ ''/'' @ m') = [s', m']"
      using no by (simp_all add: split_path_cons split_path_simple)
    with that show ?thesis by simp
  qed
  with assms show ?thesis by (auto simp: fullPath_simple)
qed

theorem full_method_name_witness:
  "fullPath ''test.v1.service'' ''Foo'' = ''/test.v1.service/Foo''"
  using full_method_name [of "''test.v1.service''" "''Foo''" "''s''" "''m''"] by (simp add: simple_name_def)

lemma error_status_wrapped:
  assumes "status_lib_ok L" "List.find is_status_error (err_chain e) = Some (StatusErr c m)"
  shows "\<exists>t. error_status L (Some e) = Some (Status c t) \<and> (e = StatusErr c m \<longrightarrow> t = m)"
proof (cases "e = StatusErr c m")
  case True
  have "is_status_error (StatusErr c m)" using assms(2) by (auto simp: find_Some_iff)
  then have "c \<noteq> CodeOK" by (simp add: is_status_error_def)
  with True error_status_StatusErr [OF assms(1)] show ?thesis by simp
next
  case False
  obtain t where "FromError L (Some e) = (Some (Status c t), True)"
    using assms unfolding status_lib_ok_def by blast
  with False show ?thesis by (simp add: error_status_def)
qed

text \<open>The codes of the errors of the standard library, plain and as the \<open>os\<close> package or \<open>%w\<close> wraps them.\<close>

definition stdlib_codes :: "string \<Rightarrow> (go_error \<times> code) list" where
  "stdlib_codes t =
     [(IoEOF, CodeOutOfRange), (IoClosedPipe, CodeFailedPrecondition), (IoNoProgress, CodeFailedPrecondition),
      (IoShortBuffer, CodeFailedPrecondition), (IoShortWrite, CodeFailedPrecondition),
      (IoUnexpectedEOF, CodeFailedPrecondition), (OsErrInvalid, CodeInvalidArgument), (CtxCanceled, CodeCanceled),
      (CtxDeadlineExceeded, CodeDeadlineExceeded), (PathError t (Errno EEXIST), CodeAlreadyExists),
      (PathError t (Errno ENOENT), CodeNotFound), (PathError t (Errno EACCES), CodePermissionDenied),
      (WrapErr t IoEOF, CodeUnknown), (ErrString t, CodeUnknown)]"

lemma stdlib_codes_ok:
  "(e, c) \<in> set (stdlib_codes t) \<Longrightarrow> convertCode (Some e) = c \<and> (\<forall>x \<in> set (err_chain e). \<not> is_status_error x)"
  by (auto simp: stdlib_codes_def convertCode_def is_status_error_def os_is_exist_def os_is_not_exist_def
      os_is_permission_def underlying_def)

text \<open>
  C36: What the client learns of a unary call, for every outcome of interceptors and method: a message
  that marshals is the payload of an OK response; one that does not, and a reply that is no message,
  is an Internal status with the text of the code; a nil reply is Unknown; an error with a gRPC
  status in it, however deep it is wrapped, keeps that status's code (and its text when it is not
  wrapped); any other error arrives with its converted code and its own text, the errors of the
  standard library with the codes of \<open>stdlib_codes\<close>. A failed call carries no payload.
\<close>

theorem unary_call_outcome:
  assumes "status_lib_ok L" "unaryCall L P intercept ctx meth info dat = (p, st)"
    and "intercept ctx (protoUnmarshal L P dat) info meth = (resp, err)"
  shows "(\<forall>t m b. err = None \<and> resp = ProtoMsg t m \<and> \<not> isNil resp \<and> pMarshal P t m = Inr b \<longrightarrow>
       p = b \<and> status_code st = CodeOK) \<and>
    (\<forall>t m e. err = None \<and> resp = ProtoMsg t m \<and> \<not> isNil resp \<and> pMarshal P t m = Inl e \<longrightarrow>
       p = None \<and> st = Some (Status CodeInternal (''ttrpc: error marshaling payload: '' @ error_text L e))) \<and>
    (\<forall>t z. err = None \<and> resp = OtherVal t z \<and> \<not> isNil resp \<longrightarrow>
       p = None \<and> st = Some (Status CodeInternal (''ttrpc: error unsupported response type: '' @ t))) \<and>
    (err = None \<and> isNil resp \<longrightarrow> p = None \<and> st = Some (Status CodeUnknown ''ttrpc: marshal called with nil'')) \<and>
    (\<forall>e c m. err = Some e \<and> List.find is_status_error (err_chain e) = Some (StatusErr c m) \<longrightarrow>
       p = None \<and> (\<exists>t. st = Some (Status c t) \<and> (e = StatusErr c m \<longrightarrow> t = m))) \<and>
    (\<forall>e. err = Some e \<and> (\<forall>x \<in> set (err_chain e). \<not> is_status_error x) \<longrightarrow>
       p = None \<and> st = Some (Status (convertCode (Some e)) (error_text L e))) \<and>
    (\<forall>e c t. err = Some e \<and> (e, c) \<in> set (stdlib_codes t) \<longrightarrow> p = None \<and> st = Some (Status c (error_text L e)))"
proof -
  have st: "(p, st) = unaryCall_reply L P (resp, err)" using assms(2,3) by (simp add: unaryCall_def)
  have failed: "p = None \<and> st = error_status L (Some e)" if "err = Some e" for e
    using st that by (simp add: unaryCall_reply_def)
  have plain: "p = None \<and> st = Some (Status (convertCode (Some e)) (error_text L e))"
    if "err = Some e" "\<forall>x \<in> set (err_chain e). \<not> is_status_error x" for e
    using failed [OF that(1)] error_status_plain [OF assms(1) that(2)] by simp
  have nil: "error_status L (Some (ErrString m)) = Some (Status CodeUnknown m)" for m
    using error_status_plain [OF assms(1), of "ErrString m"] stdlib_codes_ok [of "ErrString m" CodeUnknown m]
    by (simp add: stdlib_codes_def)
  have internal: "error_status L (Some (StatusErr CodeInternal m)) = Some (Status CodeInternal m)" for m
    by (rule error_status_StatusErr [OF assms(1)]) simp
  have pst: "p = fst (unaryCall_reply L P (resp, err))" "st = snd (unaryCall_reply L P (resp, err))"
    using st by (cases "unaryCall_reply L P (resp, err)", simp)+
  note reply = pst unaryCall_reply_def protoMarshal_def show_type_def nil internal error_status_None [OF assms(1)]
  show ?thesis
  proof (intro conjI allI impI)
    show "p = None" if "err = Some e \<and> (e, c) \<in> set (stdlib_codes t)" for e c t using failed that by blast
    show "st = Some (Status c (error_text L e))" if "err = Some e \<and> (e, c) \<in> set (stdlib_codes t)" for e c t
      using plain [of e] stdlib_codes_ok [of e c t] that by simp
    show "\<exists>t. st = Some (Status c t) \<and> (e = StatusErr c m \<longrightarrow> t = m)"
      if "err = Some e \<and> List.find is_status_error (err_chain e) = Some (StatusErr c m)" for e c m
      using failed error_status_wrapped [OF assms(1)] that by simp
  qed (use plain failed in \<open>auto simp: reply isNil_def\<close>)
qed

definition example_proto :: "string proto_lib" where
  "example_proto =
     \<lparr>pMarshal = (\<lambda>t m. Inr (map_option (map (\<lambda>c. of_nat (of_char c))) m)),
      pUnmarshal = (\<lambda>p t m. (None, Some (map (\<lambda>b. char_of (unat b)) (bytes_of p)))),
      mRequest = (\<lambda>r. Inl (ErrString ''not used'')), uRequest = (\<lambda>p. Inl (ErrString ''not used'')),
      mResponse = (\<lambda>r. Inl (ErrString ''not used'')), uResponse = (\<lambda>p. Inl (ErrString ''not used''))\<rparr>"

theorem unary_call_outcome_witness:
  "status_code (snd (unaryCall example_status_lib example_proto (\<lambda>c u i m. m c u) (0 :: nat)
     (\<lambda>c u. (OtherVal ''func()'' True, None)) \<lparr>us_FullMethod = ''/s/m''\<rparr> (Some [65]))) \<noteq> CodeOK \<and>
   snd (unaryCall example_status_lib example_proto (\<lambda>c u i m. m c u) (0 :: nat)
     (\<lambda>c u. (NilAny, Some CtxCanceled)) \<lparr>us_FullMethod = ''/s/m''\<rparr> (Some [65])) =
     Some (Status CodeCanceled ''context canceled'')"
proof -
  let ?info = "\<lparr>us_FullMethod = ''/s/m''\<rparr>" and ?i = "\<lambda>c u i m. m c u"
  obtain p st where 1: "unaryCall example_status_lib example_proto ?i (0 :: nat)
      (\<lambda>c u. (OtherVal ''func()'' True, None)) ?info (Some [65]) = (p, st)" by fastforce
  obtain p' st' where 2: "unaryCall example_status_lib example_proto ?i (0 :: nat)
      (\<lambda>c u. (NilAny, Some CtxCanceled)) ?info (Some [65]) = (p', st')" by fastforce
  from unary_call_outcome [where intercept = ?i and info = ?info, OF example_status_lib_ok 1 refl]
  have "status_code st \<noteq> CodeOK" by (auto simp: isNil_def)
  moreover from unary_call_outcome [where intercept = ?i and info = ?info, OF example_status_lib_ok 2 refl]
  have "st' = Some (Status CodeCanceled ''context canceled'')"
    by (auto simp: convertCode_def is_status_error_def)
  ultimately show ?thesis by (simp add: 1 2)
qed

text \<open>
  The conversion compares the error itself, not what it wraps: a standard error wrapped with
  \<open>%w\<close> reaches the client as Unknown, while the \<open>os\<close> errors are recognised through the one
  wrapper the \<open>os\<close> package puts around them; nil is the only error converted to OK.
\<close>

theorem convert_code_wrapping:
  "convertCode (Some (WrapErr t e)) = CodeUnknown \<and>
   convertCode (Some (OpError op t e)) = CodeUnknown \<and>
   convertCode (Some (PathError t (Errno EEXIST))) = CodeAlreadyExists \<and>
   convertCode (Some (PathError t (Errno ENOENT))) = CodeNotFound \<and>
   convertCode (Some (PathError t (Errno EACCES))) = CodePermissionDenied \<and>
   convertCode (Some (PathError t (PathError t' e))) = CodeUnknown \<and>
   (convertCode err = CodeOK \<longleftrightarrow> err = None)"
  by (simp add: convertCode_def os_is_exist_def os_is_not_exist_def os_is_permission_def underlying_def
      del: convertCode_OK_iff) (cases err; simp)

end
