(* ===== verification/GoChan.thy ===== *)
theory GoChan
  imports Prelude
begin

text \<open>
  Buffered Go channels with \<open>close\<close>. An operation answers with a value of its own when it would
  block and when it would panic, so that the components can show neither a send on a closed
  channel nor a second \<open>close\<close> ever happens. The interface the components rely on is the locale
  \<open>bounded_fifo\<close>.
\<close>

record 'a gochan =
  buf :: "'a list"
  chan_cap :: nat
  chan_closed :: bool

definition make_chan :: "nat \<Rightarrow> 'a gochan" where
  "make_chan n = \<lparr>buf = [], chan_cap = n, chan_closed = False\<rparr>"

datatype 'r outcome = Panic | Blocks | Ok 'r

definition can_send :: "'a gochan \<Rightarrow> bool" where
  "can_send c \<longleftrightarrow> chan_closed c \<or> length (buf c) < chan_cap c"

definition chan_send :: "'a \<Rightarrow> 'a gochan \<Rightarrow> 'a gochan outcome" where
  "chan_send x c =
     (if chan_closed c then Panic
      else if length (buf c) < chan_cap c then Ok (c\<lparr>buf := buf c @ [x]\<rparr>)
      else Blocks)"

text \<open>Receiving from a closed and drained channel succeeds with no value.\<close>

definition chan_recv :: "'a gochan \<Rightarrow> ('a option \<times> 'a gochan) outcome" where
  "chan_recv c =
     (case buf c of
        x # xs \<Rightarrow> Ok (Some x, c\<lparr>buf := xs\<rparr>)
      | [] \<Rightarrow> if chan_closed c then Ok (None, c) else Blocks)"

definition chan_close :: "'a gochan \<Rightarrow> 'a gochan outcome" where
  "chan_close c = (if chan_closed c then Panic else Ok (c\<lparr>chan_closed := True\<rparr>))"

section \<open>The interface\<close>

text \<open>
  A bounded queue with a history: what was put is, in this order, what was got followed by what
  is still inside.
\<close>

locale bounded_fifo =
  fixes put :: "'a \<Rightarrow> 'q \<Rightarrow> 'q outcome" and get :: "'q \<Rightarrow> ('a option \<times> 'q) outcome"
    and contents :: "'q \<Rightarrow> 'a list" and bound :: "'q \<Rightarrow> nat"
  assumes put_Ok: "put x q = Ok q' \<Longrightarrow>
      contents q' = contents q @ [x] \<and> bound q' = bound q \<and> length (contents q) < bound q"
    and get_Some: "get q = Ok (Some x, q') \<Longrightarrow> contents q = x # contents q' \<and> bound q' = bound q"
    and get_None: "get q = Ok (None, q') \<Longrightarrow> contents q = [] \<and> q' = q"
    and get_Blocks: "get q = Blocks \<Longrightarrow> contents q = []"
begin

definition ledger :: "'a list \<Rightarrow> 'a list \<Rightarrow> 'q \<Rightarrow> bool" where
  "ledger ins outs q \<longleftrightarrow> ins = outs @ contents q \<and> length (contents q) \<le> bound q"

lemma ledger_put: "ledger ins outs q \<Longrightarrow> put x q = Ok q' \<Longrightarrow> ledger (ins @ [x]) outs q'"
  using put_Ok [of x q q'] by (simp add: ledger_def)

lemma ledger_get: "ledger ins outs q \<Longrightarrow> get q = Ok (Some x, q') \<Longrightarrow> ledger ins (outs @ [x]) q'"
  using get_Some [of q x q'] by (simp add: ledger_def)

lemma ledger_next: "ledger ins outs q \<Longrightarrow> get q = Ok (Some x, q') \<Longrightarrow> x = ins ! length outs"
  using get_Some [of q x q'] by (simp add: ledger_def)

lemma ledger_drained: "ledger ins outs q \<Longrightarrow> get q = Ok (None, q') \<Longrightarrow> outs = ins"
  using get_None [of q q'] by (simp add: ledger_def)

lemma ledger_empty: "ledger ins outs q \<Longrightarrow> get q = Blocks \<Longrightarrow> outs = ins"
  using get_Blocks [of q] by (simp add: ledger_def)

lemma ledger_cong: "ledger ins outs q \<Longrightarrow> contents q' = contents q \<Longrightarrow> bound q' = bound q \<Longrightarrow> ledger ins outs q'"
  by (simp add: ledger_def)

end

interpretation chan: bounded_fifo chan_send chan_recv buf chan_cap
  by unfold_locales (auto simp: chan_send_def chan_recv_def split: if_splits list.splits)

lemma chan_send_Ok_iff:
  "chan_send x c = Ok c' \<longleftrightarrow> \<not> chan_closed c \<and> length (buf c) < chan_cap c \<and> c' = c\<lparr>buf := buf c @ [x]\<rparr>"
  by (auto simp: chan_send_def)

lemma chan_send_not_Panic: "\<not> chan_closed c \<Longrightarrow> chan_send x c \<noteq> Panic"
  by (simp add: chan_send_def)

lemma make_chan_simps [simp]:
  "buf (make_chan n) = []" "chan_cap (make_chan n) = n" "\<not> chan_closed (make_chan n)"
  by (simp_all add: make_chan_def)

lemma chan_close_ledger:
  "chan.ledger ins outs c \<Longrightarrow> chan_close c = Ok c' \<Longrightarrow> chan.ledger ins outs c'"
  by (auto simp: chan_close_def chan.ledger_def split: if_splits)

end
