(* ===== verification/Channel.thy ===== *)
theory Channel
  imports Errors "HOL-Library.Sublist"
begin

text \<open>
  The framing layer of \<open>src/channel.go\<close>: the 10-byte message header, \<open>recv\<close> over a buffered
  reader and \<open>send\<close> over a buffered writer, and the pool of message buffers. The standard
  library's \<open>io.ReadFull\<close>, \<open>bufio.Reader.Discard\<close> and \<open>bufio.Writer\<close> are modelled by what the
  code uses of them; a connection is the bytes it will deliver, and the bytes it accepts
  before it fails.
\<close>

section \<open>Message headers\<close>

definition messageHeaderLength :: nat where
  "messageHeaderLength = 10"

definition messageTypeRequest :: byte where "messageTypeRequest = 0x1"
definition messageTypeResponse :: byte where "messageTypeResponse = 0x2"
definition messageTypeData :: byte where "messageTypeData = 0x3"

definition messageType_String :: "byte \<Rightarrow> string" where
  "messageType_String mt =
     (if mt = messageTypeRequest then ''request''
      else if mt = messageTypeResponse then ''response''
      else if mt = messageTypeData then ''data''
      else ''unknown'')"

definition flagRemoteClosed :: byte where "flagRemoteClosed = 0x1"
definition flagRemoteOpen :: byte where "flagRemoteOpen = 0x2"
definition flagNoData :: byte where "flagNoData = 0x4"

lemmas messageType_defs = messageTypeRequest_def messageTypeResponse_def messageTypeData_def
lemmas flag_defs = flagRemoteClosed_def flagRemoteOpen_def flagNoData_def

text \<open>The test \<open>flags & f == f\<close>.\<close>

definition has_flag :: "byte \<Rightarrow> byte \<Rightarrow> bool" where
  "has_flag flags f \<longleftrightarrow> flags AND f = f"

record messageHeader =
  Length :: u32
  StreamID :: u32
  Type :: byte
  Flags :: byte

definition zeroHeader :: messageHeader where
  "zeroHeader = \<lparr>Length = 0, StreamID = 0, Type = 0, Flags = 0\<rparr>"

definition encode_header :: "messageHeader \<Rightarrow> byte list" where
  "encode_header mh = put_u32 (Length mh) @ put_u32 (StreamID mh) @ [Type mh, Flags mh]"

fun decode_header :: "byte list \<Rightarrow> messageHeader" where
  "decode_header (l0 # l1 # l2 # l3 # s0 # s1 # s2 # s3 # t # f # _) =
     \<lparr>Length = get_u32 l0 l1 l2 l3, StreamID = get_u32 s0 s1 s2 s3, Type = t, Flags = f\<rparr>"
| "decode_header _ = zeroHeader"

lemma length_encode_header [simp]: "length (encode_header mh) = messageHeaderLength"
  by (simp add: encode_header_def messageHeaderLength_def)

lemma decode_encode_header [simp]: "decode_header (encode_header mh @ rest) = mh"
  by (simp add: encode_header_def put_u32_def)

lemma encode_decode_header:
  assumes "length bs = messageHeaderLength"
  shows "encode_header (decode_header bs) = bs"
proof -
  have "length bs = Suc (Suc (Suc (Suc (Suc (Suc (Suc (Suc (Suc (Suc 0)))))))))"
    using assms by (simp add: messageHeaderLength_def)
  then obtain a b c d e f g h i j where "bs = [a, b, c, d, e, f, g, h, i, j]"
    by (auto simp: length_Suc_conv)
  then show ?thesis by (simp add: encode_header_def)
qed

section \<open>Reading\<close>

text \<open>
  What remains to be read from a connection: its bytes, then the error every later read
  returns (\<open>IoEOF\<close> when the peer has closed it cleanly).
\<close>

record reader =
  rbytes :: "byte list"
  rerr :: go_error

text \<open>\<open>io.ReadFull(br, p)\<close> with \<open>len(p) = n > 0\<close>.\<close>

definition read_full :: "nat \<Rightarrow> reader \<Rightarrow> (go_error + byte list) \<times> reader" where
  "read_full n r =
     (if n \<le> length (rbytes r)
      then (Inr (take n (rbytes r)), r\<lparr>rbytes := drop n (rbytes r)\<rparr>)
      else (Inl (if rerr r = IoEOF \<and> rbytes r \<noteq> [] then IoUnexpectedEOF else rerr r),
            r\<lparr>rbytes := []\<rparr>))"

text \<open>\<open>br.Discard(n)\<close>: \<open>None\<close> when all \<open>n\<close> bytes were skipped.\<close>

definition discard :: "nat \<Rightarrow> reader \<Rightarrow> go_error option \<times> reader" where
  "discard n r =
     (if n \<le> length (rbytes r) then (None, r\<lparr>rbytes := drop n (rbytes r)\<rparr>)
      else (Some (rerr r), r\<lparr>rbytes := []\<rparr>))"

definition readMessageHeader :: "reader \<Rightarrow> (go_error + messageHeader) \<times> reader" where
  "readMessageHeader r =
     (case read_full messageHeaderLength r of
        (Inl e, r') \<Rightarrow> (Inl e, r')
      | (Inr p, r') \<Rightarrow> (Inr (decode_header p), r'))"

text \<open>
  \<open>recv\<close> returns the header, the payload and the error, as the Go method does: an oversized
  message has a valid header and a status error, every other error the zero header (but for a
  failed discard, which keeps the header).
\<close>

definition discard_text :: "status_lib \<Rightarrow> go_error \<Rightarrow> string" where
  "discard_text L e = ''failed to discard after receiving oversized message: '' @ error_text L e"

definition reading_text :: "status_lib \<Rightarrow> go_error \<Rightarrow> string" where
  "reading_text L e = ''failed reading message: '' @ error_text L e"

definition recv :: "status_lib \<Rightarrow> reader \<Rightarrow> (messageHeader \<times> bytes \<times> go_error option) \<times> reader" where
  "recv L r =
     (case readMessageHeader r of
        (Inl e, r1) \<Rightarrow> ((zeroHeader, None, Some e), r1)
      | (Inr mh, r1) \<Rightarrow>
          (if Length mh > of_nat messageLengthMax then
             (case discard (unat (Length mh)) r1 of
                (Some e, r2) \<Rightarrow> ((mh, None, Some (WrapErr (discard_text L e) e)), r2)
              | (None, r2) \<Rightarrow>
                  ((mh, None, Some (StatusErr CodeResourceExhausted (oversized_text (unat (Length mh))))), r2))
           else if Length mh > 0 then
             (case read_full (unat (Length mh)) r1 of
                (Inl e, r2) \<Rightarrow> ((zeroHeader, None, Some (WrapErr (reading_text L e) e)), r2)
              | (Inr p, r2) \<Rightarrow> ((mh, Some p, None), r2))
           else ((mh, None, None), r1)))"

section \<open>Writing\<close>

text \<open>
  A connection being written: the bytes it has accepted, how many more it accepts before it
  fails (\<open>None\<close>: it never fails) and with what error; and the \<open>bufio.Writer\<close> on it: its
  buffered bytes and its sticky error.
\<close>

record writer =
  sent :: "byte list"
  room :: "nat option"
  wfail :: go_error
  wbuf :: "byte list"
  werr :: "go_error option"

definition bufio_size :: nat where
  "bufio_size = 4096"

text \<open>\<open>conn.Write(p)\<close>: the number of bytes written and the error.\<close>

definition conn_write :: "byte list \<Rightarrow> writer \<Rightarrow> (nat \<times> go_error option) \<times> writer" where
  "conn_write p w =
     (case room w of
        None \<Rightarrow> ((length p, None), w\<lparr>sent := sent w @ p\<rparr>)
      | Some k \<Rightarrow>
          if length p \<le> k then ((length p, None), w\<lparr>sent := sent w @ p, room := Some (k - length p)\<rparr>)
          else ((k, Some (wfail w)), w\<lparr>sent := sent w @ take k p, room := Some 0\<rparr>))"

definition bufio_flush :: "writer \<Rightarrow> go_error option \<times> writer" where
  "bufio_flush w =
     (case werr w of
        Some e \<Rightarrow> (Some e, w)
      | None \<Rightarrow>
          if wbuf w = [] then (None, w)
          else (case conn_write (wbuf w) w of
              ((n, Some e), w') \<Rightarrow> (Some e, w'\<lparr>wbuf := drop n (wbuf w), werr := Some e\<rparr>)
            | ((n, None), w') \<Rightarrow> (None, w'\<lparr>wbuf := []\<rparr>)))"

text \<open>One round of the loop of \<open>bufio.Writer.Write\<close>: a full buffer is flushed, a large write
  with an empty buffer goes to the connection directly. Returns the bytes still to write.\<close>

definition bufio_round :: "byte list \<Rightarrow> writer \<Rightarrow> byte list \<times> writer" where
  "bufio_round p w =
     (if wbuf w = [] then
        (case conn_write p w of ((n, e), w') \<Rightarrow> (drop n p, w'\<lparr>werr := e\<rparr>))
      else
        (let n = bufio_size - length (wbuf w)
         in (drop n p, snd (bufio_flush (w\<lparr>wbuf := wbuf w @ take n p\<rparr>)))))"

lemma strict_prefix_take: "n < length xs \<Longrightarrow> strict_prefix (take n xs) xs"
  by (simp add: prefix_order.less_le take_is_prefix take_all_iff)

lemma same_strict_prefix [simp]: "strict_prefix (xs @ ys) (xs @ zs) \<longleftrightarrow> strict_prefix ys zs"
  by (simp add: prefix_order.less_le)

lemma strict_prefix_append: "strict_prefix xs ys \<Longrightarrow> strict_prefix xs (ys @ zs)"
  by (auto simp: prefix_order.less_le prefix_def)

lemma conn_write_cases:
  obtains (ok) w' where "conn_write p w = ((length p, None), w')" "sent w' = sent w @ p"
      "wbuf w' = wbuf w" "werr w' = werr w" "wfail w' = wfail w" "room w = None \<longleftrightarrow> room w' = None"
    | (fail) n w' where "conn_write p w = ((n, Some (wfail w)), w')" "sent w' = sent w @ take n p"
      "wbuf w' = wbuf w" "werr w' = werr w" "room w \<noteq> None" "n < length p"
proof (cases "room w")
  case None
  then show ?thesis
    by (intro that(1) [of "w\<lparr>sent := sent w @ p\<rparr>"]) (simp_all add: conn_write_def)
next
  case (Some k)
  show ?thesis
  proof (cases "length p \<le> k")
    case True
    with Some show ?thesis
      by (intro that(1) [of "w\<lparr>sent := sent w @ p, room := Some (k - length p)\<rparr>"])
         (simp_all add: conn_write_def)
  next
    case False
    with Some show ?thesis
      by (intro that(2) [of k "w\<lparr>sent := sent w @ take k p, room := Some 0\<rparr>"])
         (simp_all add: conn_write_def)
  qed
qed

text \<open>A flush either empties the buffer onto the connection or makes an error stick, with a
  part of the buffer written.\<close>

lemma bufio_flush_cases:
  assumes "werr w = None"
  obtains (ok) w' where "bufio_flush w = (None, w')" "sent w' = sent w @ wbuf w" "wbuf w' = []"
      "werr w' = None" "room w = None \<longleftrightarrow> room w' = None"
    | (fail) n w' where "bufio_flush w = (Some (wfail w), w')" "sent w' = sent w @ take n (wbuf w)"
      "werr w' = Some (wfail w)" "room w \<noteq> None" "n < length (wbuf w)"
proof (cases "wbuf w = []")
  case True
  with assms show ?thesis by (intro ok [of w]) (simp_all add: bufio_flush_def)
next
  case False
  show ?thesis
  proof (cases rule: conn_write_cases [of "wbuf w" w])
    case (ok w')
    with False assms show ?thesis
      by (intro that(1) [of "w'\<lparr>wbuf := []\<rparr>"]) (simp_all add: bufio_flush_def)
  next
    case (fail n w')
    with False assms show ?thesis
      by (intro that(2) [of "w'\<lparr>wbuf := drop n (wbuf w), werr := Some (wfail w)\<rparr>" n])
         (simp_all add: bufio_flush_def)
  qed
qed

text \<open>A round keeps the bytes in order: written, then buffered, then still to write.\<close>

lemma bufio_round_cases:
  assumes "werr w = None"
  obtains (ok) p' w' where "bufio_round p w = (p', w')" "sent w' @ wbuf w' @ p' = sent w @ wbuf w @ p"
      "werr w' = None" "room w = None \<longleftrightarrow> room w' = None" "prefix (sent w) (sent w')"
      "wbuf w' = []" "wbuf w = [] \<longrightarrow> p' = []" "length p' \<le> length p"
    | (fail) e p' w' where "bufio_round p w = (p', w')" "werr w' = Some e" "room w \<noteq> None"
      "prefix (sent w) (sent w')" "strict_prefix (sent w') (sent w @ wbuf w @ p)"
proof (cases "wbuf w = []")
  case True
  show ?thesis
  proof (cases rule: conn_write_cases [of p w])
    case (ok w')
    with True assms show ?thesis
      by (intro that(1) [of "[]" "w'\<lparr>werr := None\<rparr>"]) (simp_all add: bufio_round_def)
  next
    case (fail n w')
    with True assms show ?thesis
      by (intro that(2) [of "drop n p" "w'\<lparr>werr := Some (wfail w)\<rparr>" "wfail w"])
         (simp_all add: bufio_round_def strict_prefix_take)
  qed
next
  case False
  let ?n = "bufio_size - length (wbuf w)"
  let ?w = "w\<lparr>wbuf := wbuf w @ take ?n p\<rparr>"
  have round: "bufio_round p w = (drop ?n p, snd (bufio_flush ?w))"
    using False by (simp add: bufio_round_def Let_def)
  have "werr ?w = None" using assms by simp
  then show ?thesis
  proof (cases rule: bufio_flush_cases)
    case (ok w')
    with False show ?thesis by (intro that(1) [OF round]) simp_all
  next
    case (fail n w')
    have "strict_prefix (take n (wbuf w @ p)) (wbuf w @ p)"
      using fail(5) by (intro strict_prefix_take) simp
    moreover have "take n (wbuf w @ take ?n p) = take n (wbuf w @ p)"
      using fail(5) by simp
    ultimately have "strict_prefix (sent w @ take n (wbuf w @ take ?n p)) (sent w @ wbuf w @ p)"
      by (simp only: same_strict_prefix)
    with fail show ?thesis by (intro that(2) [OF round, of "wfail ?w"]) simp_all
  qed
qed

function bufio_write :: "byte list \<Rightarrow> writer \<Rightarrow> go_error option \<times> writer" where
  "bufio_write p w =
     (if length p > bufio_size - length (wbuf w) \<and> werr w = None
      then bufio_write (fst (bufio_round p w)) (snd (bufio_round p w))
      else (case werr w of
              Some e \<Rightarrow> (Some e, w)
            | None \<Rightarrow> (None, w\<lparr>wbuf := wbuf w @ p\<rparr>)))"
  by pat_completeness auto
termination
proof (relation "measures [\<lambda>(p, w). if werr w = None then 1 else 0, \<lambda>(p, w). length p,
    \<lambda>(p, w). length (wbuf w)]", goal_cases)
  case 1
  show ?case by simp
next
  case (2 p w)
  then have w: "werr w = None" by simp
  then show ?case
  proof (cases rule: bufio_round_cases [of w p])
    case (ok p' w')
    with 2 show ?thesis by (cases "wbuf w = []") auto
  next
    case (fail e p' w')
    with w show ?thesis by simp
  qed
qed

declare bufio_write.simps [simp del]

definition writeMessageHeader :: "messageHeader \<Rightarrow> writer \<Rightarrow> go_error option \<times> writer" where
  "writeMessageHeader mh w = bufio_write (encode_header mh) w"

definition send :: "u32 \<Rightarrow> byte \<Rightarrow> byte \<Rightarrow> bytes \<Rightarrow> writer \<Rightarrow> go_error option \<times> writer" where
  "send streamID t flags p w =
     (if length (bytes_of p) > messageLengthMax
      then (OversizedMessageError (int (length (bytes_of p))), w)
      else (case writeMessageHeader
                   \<lparr>Length = of_nat (length (bytes_of p)), StreamID = streamID, Type = t, Flags = flags\<rparr> w of
          (Some e, w1) \<Rightarrow> (Some e, w1)
        | (None, w1) \<Rightarrow>
            if length (bytes_of p) > 0
            then (case bufio_write (bytes_of p) w1 of
                (Some e, w2) \<Rightarrow> (Some e, w2)
              | (None, w2) \<Rightarrow> bufio_flush w2)
            else bufio_flush w1))"

section \<open>The buffer pool\<close>

text \<open>
  A buffer of the pool is an allocated array and the length of the slice over it. \<open>buffers.Get\<close>
  hands out any pooled buffer or nil; \<open>getmbuf\<close> reslices it, or allocates when it is too small.
\<close>

record mbuf =
  arr :: "byte list"
  blen :: nat

definition getmbuf :: "nat \<Rightarrow> mbuf option \<Rightarrow> mbuf" where
  "getmbuf sz got =
     (case got of
        None \<Rightarrow> \<lparr>arr = replicate sz 0, blen = sz\<rparr>
      | Some b \<Rightarrow> if length (arr b) < sz then \<lparr>arr = replicate sz 0, blen = sz\<rparr>
                 else b\<lparr>blen := sz\<rparr>)"

definition putmbuf :: "mbuf \<Rightarrow> mbuf list \<Rightarrow> mbuf list" where
  "putmbuf p pool = p # pool"

lemma getmbuf_fits: "blen (getmbuf sz got) = sz \<and> sz \<le> length (arr (getmbuf sz got))"
  by (auto simp: getmbuf_def split: option.splits)

section \<open>Laws of the writer\<close>

definition writer_clean :: "writer \<Rightarrow> bool" where
  "writer_clean w \<longleftrightarrow> wbuf w = [] \<and> werr w = None"

lemma bufio_write_sticky: "werr w = Some e \<Longrightarrow> bufio_write p w = (Some e, w)"
  by (simp add: bufio_write.simps)

lemma bufio_flush_sticky: "werr w = Some e \<Longrightarrow> bufio_flush w = (Some e, w)"
  by (simp add: bufio_flush_def)

lemma bufio_write_spec:
  assumes "werr w = None"
  shows "case bufio_write p w of
      (None, w') \<Rightarrow> werr w' = None \<and> prefix (sent w) (sent w') \<and>
        sent w' @ wbuf w' = sent w @ wbuf w @ p \<and> (room w = None \<longrightarrow> room w' = None)
    | (Some e, w') \<Rightarrow> werr w' = Some e \<and> room w \<noteq> None \<and> prefix (sent w) (sent w') \<and>
        strict_prefix (sent w') (sent w @ wbuf w @ p)"
  using assms
proof (induction p w rule: bufio_write.induct)
  case (1 p w)
  show ?case
  proof (cases "length p > bufio_size - length (wbuf w)")
    case False
    with "1.prems" show ?thesis by (simp add: bufio_write.simps [of p w])
  next
    case True
    with "1.prems" have step: "bufio_write p w = bufio_write (fst (bufio_round p w)) (snd (bufio_round p w))"
      by (simp add: bufio_write.simps [of p w])
    from "1.prems" show ?thesis
    proof (cases rule: bufio_round_cases [of w p])
      case (ok p' w')
      with "1.IH" True "1.prems" show ?thesis
        by (auto simp: step split: prod.splits option.splits elim: prefix_order.trans)
    next
      case (fail e p' w')
      then show ?thesis by (simp add: step bufio_write_sticky)
    qed
  qed
qed

lemma bufio_write_ok:
  "werr w = None \<Longrightarrow> bufio_write p w = (None, w') \<Longrightarrow>
   werr w' = None \<and> prefix (sent w) (sent w') \<and> sent w' @ wbuf w' = sent w @ wbuf w @ p \<and>
   (room w = None \<longrightarrow> room w' = None)"
  using bufio_write_spec [of w p] by simp

lemma bufio_write_fail:
  "werr w = None \<Longrightarrow> bufio_write p w = (Some e, w') \<Longrightarrow>
   werr w' = Some e \<and> room w \<noteq> None \<and> prefix (sent w) (sent w') \<and> strict_prefix (sent w') (sent w @ wbuf w @ p)"
  using bufio_write_spec [of w p] by simp

lemma bufio_flush_ok:
  assumes "werr w = None" "bufio_flush w = (None, w')"
  shows "sent w' = sent w @ wbuf w \<and> writer_clean w' \<and> (room w = None \<longrightarrow> room w' = None)"
  using assms(1) by (cases rule: bufio_flush_cases) (use assms(2) in \<open>auto simp: writer_clean_def\<close>)

lemma bufio_flush_fail:
  assumes "werr w = None" "bufio_flush w = (Some e, w')"
  shows "werr w' = Some e \<and> room w \<noteq> None \<and> prefix (sent w) (sent w') \<and> strict_prefix (sent w') (sent w @ wbuf w)"
  using assms(1)
  by (cases rule: bufio_flush_cases) (use assms(2) in \<open>auto simp: strict_prefix_take\<close>)

section \<open>What a send puts on the wire\<close>

definition frame :: "u32 \<Rightarrow> byte \<Rightarrow> byte \<Rightarrow> byte list \<Rightarrow> byte list" where
  "frame streamID t flags p =
     encode_header \<lparr>Length = of_nat (length p), StreamID = streamID, Type = t, Flags = flags\<rparr> @ p"

lemma length_frame [simp]: "length (frame streamID t flags p) = messageHeaderLength + length p"
  by (simp add: frame_def)

text \<open>Write, then flush: the body of \<open>send\<close> after its size check.\<close>

lemma send_body:
  assumes "length (bytes_of p) \<le> messageLengthMax"
  shows "send streamID t flags p w =
    (case bufio_write (encode_header \<lparr>Length = of_nat (length (bytes_of p)), StreamID = streamID,
                                       Type = t, Flags = flags\<rparr>) w of
       (Some e, w1) \<Rightarrow> (Some e, w1)
     | (None, w1) \<Rightarrow> (if length (bytes_of p) > 0
          then (case bufio_write (bytes_of p) w1 of (Some e, w2) \<Rightarrow> (Some e, w2) | (None, w2) \<Rightarrow> bufio_flush w2)
          else bufio_flush w1))"
  using assms by (simp add: send_def writeMessageHeader_def)

lemma send_too_long:
  "length (bytes_of p) > messageLengthMax \<Longrightarrow>
   send streamID t flags p w = (OversizedMessageError (int (length (bytes_of p))), w)"
  by (simp add: send_def)

lemma send_sticky:
  "werr w = Some e \<Longrightarrow> length (bytes_of p) \<le> messageLengthMax \<Longrightarrow> send streamID t flags p w = (Some e, w)"
  by (simp add: send_body bufio_write_sticky)

text \<open>The outcomes of a send on a clean writer: refused untouched, the whole frame delivered and
  the writer clean again, or an error that sticks with a prefix of the frame delivered.\<close>

lemma send_ok:
  assumes "writer_clean w" "send streamID t flags p w = (None, w')"
  shows "length (bytes_of p) \<le> messageLengthMax \<and> sent w' = sent w @ frame streamID t flags (bytes_of p) \<and>
    writer_clean w' \<and> (room w = None \<longrightarrow> room w' = None)"
proof -
  have len: "length (bytes_of p) \<le> messageLengthMax"
    using assms(2) by (cases "length (bytes_of p) \<le> messageLengthMax") (auto simp: send_def OversizedMessageError_def)
  let ?h = "encode_header \<lparr>Length = of_nat (length (bytes_of p)), StreamID = streamID, Type = t, Flags = flags\<rparr>"
  obtain w1 where w1: "bufio_write ?h w = (None, w1)"
    using assms(2) by (auto simp: send_body [OF len] split: prod.splits option.splits)
  have body: "send streamID t flags p w = (if bytes_of p = [] then bufio_flush w1
      else (case bufio_write (bytes_of p) w1 of (Some e, w2) \<Rightarrow> (Some e, w2) | (None, w2) \<Rightarrow> bufio_flush w2))"
    by (simp add: send_body [OF len] w1)
  from w1 assms(1) have h: "werr w1 = None" "sent w1 @ wbuf w1 = sent w @ ?h" "room w = None \<longrightarrow> room w1 = None"
    using bufio_write_ok [of w ?h w1] by (simp_all add: writer_clean_def)
  show ?thesis
  proof (cases "bytes_of p = []")
    case True
    with assms(2) have "bufio_flush w1 = (None, w')" by (simp add: body)
    from bufio_flush_ok [OF h(1) this] h True len show ?thesis by (simp add: frame_def)
  next
    case False
    with assms(2) obtain w2 where w2: "bufio_write (bytes_of p) w1 = (None, w2)" "bufio_flush w2 = (None, w')"
      by (auto simp: body split: prod.splits option.splits)
    from bufio_write_ok [OF h(1) w2(1)] h(2,3)
    have "werr w2 = None" "sent w2 @ wbuf w2 = sent w @ ?h @ bytes_of p" "room w = None \<longrightarrow> room w2 = None"
      by (simp_all flip: append_assoc)
    with bufio_flush_ok [OF this(1) w2(2)] len show ?thesis by (simp add: frame_def)
  qed
qed

lemma send_fail:
  assumes "writer_clean w" "send streamID t flags p w = (Some e, w')" "length (bytes_of p) \<le> messageLengthMax"
  shows "werr w' = Some e \<and> room w \<noteq> None \<and> prefix (sent w) (sent w') \<and>
    strict_prefix (sent w') (sent w @ frame streamID t flags (bytes_of p))"
proof -
  let ?h = "encode_header \<lparr>Length = of_nat (length (bytes_of p)), StreamID = streamID, Type = t, Flags = flags\<rparr>"
  obtain e1 w1 where w1: "bufio_write ?h w = (e1, w1)" by fastforce
  have clean: "werr w = None" "wbuf w = []" using assms(1) by (simp_all add: writer_clean_def)
  show ?thesis
  proof (cases e1)
    case (Some x)
    with bufio_write_fail [OF clean(1), of ?h x w1] w1 assms(2) clean show ?thesis
      using strict_prefix_append [of "sent w1" "sent w @ ?h" "bytes_of p"]
      by (auto simp: send_body [OF assms(3)] frame_def)
  next
    case None
    with bufio_write_ok [OF clean(1), of ?h w1] w1 clean
    have h: "werr w1 = None" "prefix (sent w) (sent w1)" "sent w1 @ wbuf w1 = sent w @ ?h"
      "room w = None \<longrightarrow> room w1 = None" by simp_all
    have fr: "sent w @ frame streamID t flags (bytes_of p) = sent w1 @ wbuf w1 @ bytes_of p"
      using h(3) by (simp add: frame_def flip: append_assoc)
    obtain e2 w2 where w2: "bufio_write (bytes_of p) w1 = (e2, w2)" by fastforce
    consider (flush) "bufio_flush w1 = (Some e, w')" "bytes_of p = []"
      | (body) "bytes_of p \<noteq> []" "e2 = Some e" "w' = w2"
      | (flush2) "bytes_of p \<noteq> []" "e2 = None" "bufio_flush w2 = (Some e, w')"
      using assms(2) w1 w2 None by (cases e2) (auto simp: send_body [OF assms(3)] split: if_splits)
    then show ?thesis
    proof cases
      case flush
      with bufio_flush_fail [OF h(1) flush(1)] h fr show ?thesis
        by (auto intro: prefix_order.trans)
    next
      case body
      with bufio_write_fail [OF h(1), of "bytes_of p" e w2] w2 h fr show ?thesis
        by (auto intro: prefix_order.trans)
    next
      case flush2
      with bufio_write_ok [OF h(1), of "bytes_of p" w2] w2
      have k: "werr w2 = None" "prefix (sent w1) (sent w2)" "sent w2 @ wbuf w2 = sent w1 @ wbuf w1 @ bytes_of p"
        "room w1 = None \<longrightarrow> room w2 = None" by simp_all
      with bufio_flush_fail [OF k(1) flush2(3)] h fr show ?thesis
        by (auto intro: prefix_order.trans)
    qed
  qed
qed

text \<open>
  The connection against the writer: it accepts no more than its room, it fails with its own error,
  and only when its room is used up.
\<close>

definition account :: "writer \<Rightarrow> writer \<Rightarrow> bool" where
  "account w w' \<longleftrightarrow> wfail w' = wfail w \<and>
     (\<forall>n. room w = Some n \<longrightarrow> (\<exists>m. room w' = Some m \<and> length (sent w') + m = length (sent w) + n)) \<and>
     (werr w' = None \<or> (werr w' = Some (wfail w) \<and> room w' = Some 0))"

lemma account_trans: "account u v \<Longrightarrow> account v w \<Longrightarrow> account u w"
  by (fastforce simp: account_def)

lemma account_flush: "werr w = None \<Longrightarrow> account w (snd (bufio_flush w))"
  by (auto simp: account_def bufio_flush_def conn_write_def split: option.split)

lemma account_round:
  assumes "werr w = None"
  shows "account w (snd (bufio_round p w))"
proof (cases "wbuf w = []")
  case True
  with assms show ?thesis by (auto simp: account_def bufio_round_def conn_write_def split: option.split)
next
  case False
  let ?w = "w\<lparr>wbuf := wbuf w @ take (bufio_size - length (wbuf w)) p\<rparr>"
  have "account ?w (snd (bufio_flush ?w))" by (rule account_flush) (simp add: assms)
  with False show ?thesis by (simp add: bufio_round_def account_def Let_def)
qed

lemma account_write: "werr w = None \<Longrightarrow> account w (snd (bufio_write p w))"
proof (induction p w rule: bufio_write.induct)
  case (1 p w)
  show ?case
  proof (cases "length p > bufio_size - length (wbuf w)")
    case False
    with "1.prems" show ?thesis by (auto simp: bufio_write.simps [of p w] account_def)
  next
    case True
    with "1.prems" have step: "bufio_write p w = bufio_write (fst (bufio_round p w)) (snd (bufio_round p w))"
      by (simp add: bufio_write.simps [of p w])
    have r: "account w (snd (bufio_round p w))" by (rule account_round [OF "1.prems"])
    show ?thesis
    proof (cases "werr (snd (bufio_round p w))")
      case None
      with "1.IH" True "1.prems" r show ?thesis by (auto simp: step intro: account_trans)
    next
      case (Some e)
      with r show ?thesis by (simp add: step bufio_write_sticky)
    qed
  qed
qed

lemma account_send:
  assumes "writer_clean w" "length (bytes_of p) \<le> messageLengthMax"
  shows "account w (snd (send streamID t flags p w))"
proof -
  let ?h = "encode_header \<lparr>Length = of_nat (length (bytes_of p)), StreamID = streamID, Type = t, Flags = flags\<rparr>"
  have clean: "werr w = None" using assms(1) by (simp add: writer_clean_def)
  obtain e1 w1 where w1: "bufio_write ?h w = (e1, w1)" by fastforce
  have a1: "account w w1" using account_write [OF clean, of ?h] w1 by simp
  show ?thesis
  proof (cases e1)
    case (Some x)
    with w1 a1 show ?thesis by (simp add: send_body [OF assms(2)])
  next
    case None
    then have h1: "werr w1 = None" using bufio_write_ok [OF clean, of ?h w1] w1 by simp
    obtain e2 w2 where w2: "bufio_write (bytes_of p) w1 = (e2, w2)" by fastforce
    have a2: "account w w2" using account_trans [OF a1] account_write [OF h1, of "bytes_of p"] w2 by simp
    have "account w (snd (bufio_flush w1))" by (rule account_trans [OF a1 account_flush [OF h1]])
    moreover have "account w (snd (bufio_flush w2))" if "e2 = None"
      using bufio_write_ok [OF h1, of "bytes_of p" w2] w2 that by (intro account_trans [OF a2 account_flush]) simp
    ultimately show ?thesis using w1 w2 None a2 by (cases e2) (simp_all add: send_body [OF assms(2)])
  qed
qed

lemma send_healthy:
  assumes "writer_clean w" "room w = None" "length (bytes_of p) \<le> messageLengthMax"
  obtains w' where "send streamID t flags p w = (None, w')"
    "sent w' = sent w @ frame streamID t flags (bytes_of p)" "writer_clean w'" "room w' = None"
proof -
  obtain e w' where s: "send streamID t flags p w = (e, w')" by fastforce
  then have "e = None" using send_fail [OF assms(1)] assms(2,3) by (cases e) auto
  with s send_ok [OF assms(1)] assms(2) that show ?thesis by blast
qed

section \<open>Laws of the reader\<close>

lemma unat_length [simp]: "n \<le> messageLengthMax \<Longrightarrow> unat (of_nat n :: u32) = n"
  by (simp add: messageLengthMax_def unat_of_nat)

lemma unat_messageLengthMax: "unat (of_nat messageLengthMax :: u32) = messageLengthMax"
  by simp

lemma not_oversized_iff: "\<not> mhl > (of_nat messageLengthMax :: u32) \<longleftrightarrow> unat mhl \<le> messageLengthMax"
  by (simp only: word_less_nat_alt unat_messageLengthMax not_less)

lemma readMessageHeader_ok:
  "rbytes r = encode_header mh @ rest \<Longrightarrow> readMessageHeader r = (Inr mh, r\<lparr>rbytes := rest\<rparr>)"
  using decode_encode_header [of mh "[]"] by (simp add: readMessageHeader_def read_full_def)

lemma readMessageHeader_okD:
  assumes "readMessageHeader r = (Inr mh, r')"
  shows "rbytes r = encode_header mh @ rbytes r' \<and> rerr r' = rerr r"
proof -
  from assms have n: "messageHeaderLength \<le> length (rbytes r)"
    and mh: "mh = decode_header (take messageHeaderLength (rbytes r))"
    and r': "r' = r\<lparr>rbytes := drop messageHeaderLength (rbytes r)\<rparr>"
    by (auto simp: readMessageHeader_def read_full_def split: if_splits)
  have "encode_header mh = take messageHeaderLength (rbytes r)"
    unfolding mh by (rule encode_decode_header) (use n in simp)
  with r' show ?thesis by (simp add:)
qed

text \<open>A frame at the front of the input is received as it was sent; an empty payload comes back
  as the nil slice.\<close>

lemma recv_frame:
  assumes "length p \<le> messageLengthMax" "rbytes r = frame streamID t flags p @ rest"
  shows "recv L r =
    ((\<lparr>Length = of_nat (length p), StreamID = streamID, Type = t, Flags = flags\<rparr>,
      if p = [] then None else Some p, None), r\<lparr>rbytes := rest\<rparr>)"
proof -
  let ?mh = "\<lparr>Length = of_nat (length p), StreamID = streamID, Type = t, Flags = flags\<rparr>"
  have hd: "readMessageHeader r = (Inr ?mh, r\<lparr>rbytes := p @ rest\<rparr>)"
    using assms(2) by (intro readMessageHeader_ok) (simp add: frame_def)
  have big: "\<not> Length ?mh > of_nat messageLengthMax"
    using assms(1) by (simp only: not_oversized_iff) simp
  have pos: "Length ?mh > 0 \<longleftrightarrow> p \<noteq> []"
    using assms(1) by (simp add: word_less_nat_alt)
  show ?thesis
    using big pos assms(1) by (simp add: recv_def hd read_full_def)
qed

text \<open>Conversely a message that is received is exactly the frame that was consumed.\<close>

lemma recv_okD:
  assumes "recv L r = ((mh, p, None), r')"
  shows "rbytes r = encode_header mh @ bytes_of p @ rbytes r' \<and> rerr r' = rerr r \<and>
    length (bytes_of p) = unat (Length mh) \<and> unat (Length mh) \<le> messageLengthMax \<and>
    (p = None \<longleftrightarrow> Length mh = 0)"
proof -
  from assms obtain mh' r1 where hd: "readMessageHeader r = (Inr mh', r1)"
    by (auto simp: recv_def split: prod.splits sum.splits)
  from assms have len: "\<not> Length mh' > of_nat messageLengthMax"
    by (auto simp: recv_def hd split: prod.splits option.splits if_splits)
  note h = readMessageHeader_okD [OF hd]
  show ?thesis
  proof (cases "Length mh' > 0")
    case False
    with assms len have "mh = mh'" "p = None" "r' = r1" by (simp_all add: recv_def hd)
    with h False len show ?thesis by (simp add: not_oversized_iff word_neq_0_conv [symmetric])
  next
    case True
    with assms len obtain q where q: "read_full (unat (Length mh')) r1 = (Inr q, r')" "mh = mh'" "p = Some q"
      by (auto simp: recv_def hd split: prod.splits sum.splits)
    then have "q = take (unat (Length mh)) (rbytes r1)" "unat (Length mh) \<le> length (rbytes r1)"
      "r' = r1\<lparr>rbytes := drop (unat (Length mh)) (rbytes r1)\<rparr>"
      by (auto simp: read_full_def split: if_splits)
    with h len True q show ?thesis by (simp add: not_oversized_iff word_neq_0_conv [symmetric])
  qed
qed

text \<open>An oversized message is skipped as a whole: the reader is at the next frame, and the
  error is a status for the stream the header names.\<close>

lemma recv_oversized:
  assumes "rbytes r = encode_header mh @ junk @ rest" "length junk = unat (Length mh)"
    and "unat (Length mh) > messageLengthMax"
  shows "recv L r = ((mh, None, Some (StatusErr CodeResourceExhausted (oversized_text (unat (Length mh))))),
                     r\<lparr>rbytes := rest\<rparr>)"
proof -
  have "Length mh > of_nat messageLengthMax"
    using assms(3) not_oversized_iff [of "Length mh"] by linarith
  with assms(2) show ?thesis
    by (simp add: recv_def readMessageHeader_ok [OF assms(1)] discard_def)
qed

text \<open>Whatever the input, an error of \<open>recv\<close> that is not a status error wraps the error of the
  connection, or the unexpected end of file when the stream is cut inside a header or payload.\<close>

lemma read_full_errorD:
  "read_full n r = (Inl e, r') \<Longrightarrow> e = rerr r \<or> e = IoUnexpectedEOF \<and> rerr r = IoEOF"
  by (auto simp: read_full_def split: if_splits)

lemma recv_errorD:
  assumes "recv L r = ((mh, p, Some e), r')"
  shows "p = None \<and>
    ((\<exists>m. e = StatusErr CodeResourceExhausted m) \<or>
     errors_is e (rerr r) \<or> (errors_is e IoUnexpectedEOF \<and> rerr r = IoEOF))"
proof (cases "readMessageHeader r")
  case (Pair h r1)
  show ?thesis
  proof (cases h)
    case (Inl e1)
    with Pair assms have "e1 = e" "p = None" by (simp_all add: recv_def)
    moreover from Pair Inl have "read_full messageHeaderLength r = (Inl e1, r1)"
      by (auto simp: readMessageHeader_def split: prod.splits sum.splits)
    ultimately show ?thesis using read_full_errorD by fastforce
  next
    case (Inr mh')
    then have r1: "rerr r1 = rerr r" using Pair readMessageHeader_okD by auto
    show ?thesis
      using assms r1 read_full_errorD [of "unat (Length mh')" r1]
      by (auto simp: recv_def Pair Inr discard_def split: prod.splits sum.splits option.splits if_splits)
  qed
qed

text \<open>Each message, and each skipped message, uses up at least a header: a receive loop on a
  finite input ends.\<close>

lemma recv_progress:
  assumes "recv L r = ((mh, p, oe), r')" "oe = None \<or> (\<exists>c m. oe = Some (StatusErr c m))"
    and "\<not> (\<exists>c m. rerr r = StatusErr c m)"
  shows "length (rbytes r') + messageHeaderLength \<le> length (rbytes r)"
  using assms(2)
proof
  assume "oe = None"
  with recv_okD [of L r mh p r'] assms(1) show ?thesis by simp
next
  assume "\<exists>c m. oe = Some (StatusErr c m)"
  then obtain c m where oe: "oe = Some (StatusErr c m)" by blast
  obtain h r1 where hd: "readMessageHeader r = (h, r1)" by fastforce
  show ?thesis
  proof (cases h)
    case (Inl e1)
    with hd assms(1) oe have "read_full messageHeaderLength r = (Inl (StatusErr c m), r1)"
      by (auto simp: recv_def readMessageHeader_def split: prod.splits sum.splits)
    from read_full_errorD [OF this] have "rerr r = StatusErr c m" by auto
    with assms(3) show ?thesis by blast
  next
    case (Inr mh')
    then have "rbytes r = encode_header mh' @ rbytes r1" using hd readMessageHeader_okD by auto
    moreover have "length (rbytes r') \<le> length (rbytes r1)"
      using assms(1) oe hd Inr
      by (auto simp: recv_def discard_def read_full_def split: prod.splits sum.splits option.splits if_splits)
    ultimately show ?thesis by simp
  qed
qed

section \<open>Sequences of messages\<close>

type_synonym message = "u32 \<times> byte \<times> byte \<times> byte list"

fun frame_of :: "message \<Rightarrow> byte list" where
  "frame_of (streamID, t, flags, p) = frame streamID t flags p"

fun valid_message :: "message \<Rightarrow> bool" where
  "valid_message (streamID, t, flags, p) \<longleftrightarrow> length p \<le> messageLengthMax"

fun received :: "message \<Rightarrow> messageHeader \<times> bytes \<times> go_error option" where
  "received (streamID, t, flags, p) =
     (\<lparr>Length = of_nat (length p), StreamID = streamID, Type = t, Flags = flags\<rparr>,
      if p = [] then None else Some p, None)"

fun send_all :: "message list \<Rightarrow> writer \<Rightarrow> go_error option \<times> writer" where
  "send_all [] w = (None, w)"
| "send_all ((streamID, t, flags, p) # ms) w =
     (case send streamID t flags (Some p) w of
        (Some e, w') \<Rightarrow> (Some e, w')
      | (None, w') \<Rightarrow> send_all ms w')"

fun recv_many :: "status_lib \<Rightarrow> nat \<Rightarrow> reader \<Rightarrow> (messageHeader \<times> bytes \<times> go_error option) list \<times> reader" where
  "recv_many L 0 r = ([], r)"
| "recv_many L (Suc n) r =
     (case recv L r of (m, r1) \<Rightarrow> (case recv_many L n r1 of (rs, r2) \<Rightarrow> (m # rs, r2)))"

definition recv_message :: "status_lib \<Rightarrow> byte list \<Rightarrow> (message \<times> byte list) option" where
  "recv_message L bs =
     (case recv L \<lparr>rbytes = bs, rerr = IoEOF\<rparr> of
        ((mh, p, None), r) \<Rightarrow> Some ((StreamID mh, Type mh, Flags mh, bytes_of p), rbytes r)
      | (_, _) \<Rightarrow> None)"

lemma recv_empty: "recv L \<lparr>rbytes = [], rerr = e\<rparr> = ((zeroHeader, None, Some e), \<lparr>rbytes = [], rerr = e\<rparr>)"
  by (simp add: recv_def readMessageHeader_def read_full_def messageHeaderLength_def)

text \<open>The channel's frames are a self-delimiting encoding, read back by \<open>recv\<close>.\<close>

interpretation wire: framing frame_of "recv_message L" valid_message for L
proof
  fix m :: message and rest
  obtain streamID t flags p where m: "m = (streamID, t, flags, p)" by (cases m)
  assume "valid_message m"
  then have p: "length p \<le> messageLengthMax" by (simp add: m)
  show "recv_message L (frame_of m @ rest) = Some (m, rest)"
    by (simp add: m recv_message_def recv_frame [OF p, of _ streamID t flags rest])
qed (simp add: recv_message_def recv_empty)

lemma send_all_healthy:
  assumes "writer_clean w" "room w = None" "\<forall>m \<in> set ms. valid_message m"
  shows "\<exists>w'. send_all ms w = (None, w') \<and> sent w' = sent w @ concat (map frame_of ms) \<and>
    writer_clean w' \<and> room w' = None"
  using assms
proof (induction ms arbitrary: w)
  case Nil
  then show ?case by simp
next
  case (Cons m ms)
  obtain streamID t flags p where m: "m = (streamID, t, flags, p)" by (cases m)
  with Cons.prems have p: "length (bytes_of (Some p)) \<le> messageLengthMax" by simp
  obtain w1 where w1: "send streamID t flags (Some p) w = (None, w1)"
    "sent w1 = sent w @ frame streamID t flags p" "writer_clean w1" "room w1 = None"
    using send_healthy [OF Cons.prems(1,2) p, of streamID t flags] by auto
  from Cons.IH [OF w1(3,4)] Cons.prems(3) w1 m show ?case by auto
qed

lemma recv_many_frames:
  assumes "\<forall>m \<in> set ms. valid_message m"
  shows "recv_many L (length ms) \<lparr>rbytes = concat (map frame_of ms) @ rest, rerr = e\<rparr>
    = (map received ms, \<lparr>rbytes = rest, rerr = e\<rparr>)"
  using assms
proof (induction ms)
  case Nil
  then show ?case by simp
next
  case (Cons m ms)
  obtain streamID t flags p where m: "m = (streamID, t, flags, p)" by (cases m)
  with Cons.prems have p: "length p \<le> messageLengthMax" by simp
  have "recv L \<lparr>rbytes = concat (map frame_of (m # ms)) @ rest, rerr = e\<rparr>
      = (received m, \<lparr>rbytes = concat (map frame_of ms) @ rest, rerr = e\<rparr>)"
    using recv_frame [OF p, of _ streamID t flags "concat (map frame_of ms) @ rest"] by (simp add: m)
  with Cons show ?case by simp
qed

lemma recv_many_Suc:
  "recv_many L (Suc n) r =
     (case recv_many L n r of (rs, r1) \<Rightarrow> (case recv L r1 of (m, r2) \<Rightarrow> (rs @ [m], r2)))"
proof (induction n arbitrary: r)
  case 0
  show ?case by (simp split: prod.split)
next
  case (Suc n)
  have "recv_many L (Suc (Suc n)) r = (case recv L r of (m, r1) \<Rightarrow>
      (case (case recv_many L n r1 of (rs, r2) \<Rightarrow> (case recv L r2 of (m', r3) \<Rightarrow> (rs @ [m'], r3)))
       of (rs, r4) \<Rightarrow> (m # rs, r4)))"
    by (simp only: recv_many.simps(2) [of L "Suc n" r] Suc.IH)
  then show ?case by (simp split: prod.split)
qed

section \<open>Properties\<close>

text \<open>
  C22: A channel delivers what was sent. Sending any list of messages within the size limit on a
  healthy connection succeeds, and the peer's \<open>recv\<close> then returns exactly these messages, in
  order and with the same stream ids, types, flags and payloads, and after them the end of the
  stream; no bytes are left over.
\<close>

theorem channel_roundtrip:
  assumes "writer_clean w" "room w = None" "sent w = []" "\<forall>m \<in> set ms. valid_message m"
  shows "\<exists>w'. send_all ms w = (None, w') \<and>
    recv_many L (Suc (length ms)) \<lparr>rbytes = sent w', rerr = IoEOF\<rparr> =
      (map received ms @ [(zeroHeader, None, Some IoEOF)], \<lparr>rbytes = [], rerr = IoEOF\<rparr>)"
proof -
  obtain w' where w': "send_all ms w = (None, w')" "sent w' = concat (map frame_of ms)"
    using send_all_healthy [OF assms(1,2,4)] assms(3) by auto
  have "recv_many L (length ms) \<lparr>rbytes = sent w', rerr = IoEOF\<rparr> = (map received ms, \<lparr>rbytes = [], rerr = IoEOF\<rparr>)"
    using recv_many_frames [OF assms(4), of L "[]" IoEOF] w'(2) by simp
  with w'(1) show ?thesis by (simp add: recv_many_Suc recv_empty del: recv_many.simps)
qed

definition idle_writer :: writer where
  "idle_writer = \<lparr>sent = [], room = None, wfail = Errno EPIPE, wbuf = [], werr = None\<rparr>"

theorem channel_roundtrip_witness:
  "\<exists>w'. send_all [(1, messageTypeRequest, 0, [7, 8]), (1, messageTypeData, flagNoData, [])] idle_writer = (None, w') \<and>
    recv_many example_status_lib (Suc (length [(1 :: u32, messageTypeRequest, 0 :: byte, [7 :: byte, 8]), (1, messageTypeData, flagNoData, [])]))
        \<lparr>rbytes = sent w', rerr = IoEOF\<rparr> =
      (map received [(1, messageTypeRequest, 0, [7, 8]), (1, messageTypeData, flagNoData, [])]
         @ [(zeroHeader, None, Some IoEOF)], \<lparr>rbytes = [], rerr = IoEOF\<rparr>)"
  by (rule channel_roundtrip) (simp_all add: idle_writer_def writer_clean_def messageLengthMax_def)

text \<open>
  Two sequences of messages whose sends put the same bytes on the wire are the same sequence:
  the framing is unambiguous.
\<close>

theorem wire_format_injective:
  assumes "writer_clean w" "room w = None"
    and "\<forall>m \<in> set ms. valid_message m" "\<forall>m \<in> set ms'. valid_message m"
    and "sent (snd (send_all ms w)) = sent (snd (send_all ms' w))"
  shows "ms = ms'"
proof (rule wire.concat_enc_inject [OF assms(3,4)])
  show "concat (map frame_of ms) = concat (map frame_of ms')"
    using send_all_healthy [OF assms(1,2,3)] send_all_healthy [OF assms(1,2,4)] assms(5) by auto
qed

theorem wire_format_injective_witness:
  "[(3, messageTypeData, flagNoData, [])] = [(3, 0x3, 0x4, []) :: message]"
  by (rule wire_format_injective [of "\<lparr>sent = [], room = None, wfail = Errno EPIPE, wbuf = [], werr = None\<rparr>"])
     (simp_all add: writer_clean_def messageTypeData_def flagNoData_def messageLengthMax_def)

text \<open>
  A message returned by \<open>recv\<close> is never larger than the 4 MiB limit, its payload has exactly
  the length its header announces (nil when that is 0), and the bytes taken off the connection
  are exactly that header and payload.
\<close>

theorem recv_exact:
  assumes "recv L r = ((mh, p, None), r')"
  shows "rbytes r = encode_header mh @ bytes_of p @ rbytes r' \<and>
    length (bytes_of p) = unat (Length mh) \<and> unat (Length mh) \<le> messageLengthMax \<and>
    (p = None \<longleftrightarrow> Length mh = 0)"
  using recv_okD [OF assms] by simp_all

theorem recv_exact_witness:
  "rbytes \<lparr>rbytes = frame 5 3 1 [9] @ [0], rerr = IoEOF\<rparr> =
     encode_header \<lparr>Length = of_nat (length [9 :: byte]), StreamID = 5, Type = 3, Flags = 1\<rparr> @ bytes_of (Some [9]) @ [0]"
  using recv_exact [OF recv_frame [of "[9]" "\<lparr>rbytes = frame 5 3 1 [9] @ [0], rerr = IoEOF\<rparr>" 5 3 1 "[0]" example_status_lib]]
  by (simp add: messageLengthMax_def)

text \<open>
  C24: \<open>send\<close> refuses a payload above the limit before it writes anything, with an error that reports
  the rejected length and unwraps to ResourceExhausted, and leaves the connection as it was. Any
  other failure is the connection's own error: exactly the bytes of the frame that the connection
  still took are on the wire, fewer than the frame has, and the failure is final: every later send
  of a permitted size returns the same error and writes nothing, so no frame ever follows a torn one.
\<close>

theorem send_failure:
  assumes "writer_clean w" "send streamID t flags p w = (Some e, w')"
  shows "(length (bytes_of p) > messageLengthMax \<and> w' = w \<and>
          RejectedLength e = Some (int (length (bytes_of p))) \<and>
          (\<exists>m. Unwrap e = Some (StatusErr CodeResourceExhausted m))) \<or>
         (length (bytes_of p) \<le> messageLengthMax \<and> e = wfail w \<and>
          (\<exists>n < messageHeaderLength + length (bytes_of p). room w = Some n \<and>
             sent w' = sent w @ take n (frame streamID t flags (bytes_of p))) \<and>
          (\<forall>streamID' t' flags' p'. length (bytes_of p') \<le> messageLengthMax \<longrightarrow>
             send streamID' t' flags' p' w' = (Some e, w')))"
proof (cases "length (bytes_of p) \<le> messageLengthMax")
  case True
  from send_fail [OF assms True]
  have f: "werr w' = Some e" "room w \<noteq> None" "prefix (sent w) (sent w')"
    "strict_prefix (sent w') (sent w @ frame streamID t flags (bytes_of p))" by simp_all
  have "account w w'" using account_send [OF assms(1) True, of streamID t flags] assms(2) by simp
  then obtain n where n: "room w = Some n" "length (sent w') = length (sent w) + n" "e = wfail w"
    using f(1,2) by (auto simp: account_def)
  obtain xs where xs: "sent w' = sent w @ xs" using f(3) by (auto elim: prefixE)
  with f(4) have pre: "strict_prefix xs (frame streamID t flags (bytes_of p))" by simp
  have len: "length xs = n" using xs n(2) by simp
  have "xs = take n (frame streamID t flags (bytes_of p))"
    using pre len by (auto simp: prefix_order.less_le prefix_def)
  moreover have "n < messageHeaderLength + length (bytes_of p)"
    using prefix_length_less [OF pre] len by simp
  ultimately show ?thesis using True n xs send_sticky f(1) by blast
next
  case False
  with assms(2) have "OversizedMessageError (int (length (bytes_of p))) = Some e" "w' = w"
    by (simp_all add: send_too_long)
  with False OversizedMessageError_SomeD show ?thesis by fastforce
qed

definition broken_writer :: writer where
  "broken_writer = \<lparr>sent = [], room = Some 4, wfail = Errno EPIPE, wbuf = [], werr = None\<rparr>"

lemma broken_send:
  "send 1 1 0 None broken_writer =
     (Some (Errno EPIPE), broken_writer\<lparr>sent := [0, 0, 0, 0], room := Some 0,
        wbuf := [0, 0, 0, 1, 1, 0], werr := Some (Errno EPIPE)\<rparr>)"
  by (simp add: send_def writeMessageHeader_def bufio_write.simps bufio_flush_def conn_write_def
      broken_writer_def bufio_size_def encode_header_def put_u32_def messageLengthMax_def)

theorem send_failure_witness:
  "Errno EPIPE = wfail broken_writer \<and> [0, 0, 0, 0] = take 4 (frame 1 1 0 [])"
  using send_failure [OF _ broken_send]
  by (simp add: broken_writer_def writer_clean_def messageLengthMax_def)

text \<open>
  C23: \<open>recv\<close> skips an oversized message as a whole and answers with its header and a
  ResourceExhausted status, so that the connection stays in step: the next \<open>recv\<close> starts at the
  next frame.
\<close>

theorem recv_resynchronises:
  assumes "unat (Length mh) > messageLengthMax" "length junk = unat (Length mh)"
    and "length p \<le> messageLengthMax"
  shows "recv_many L 2 \<lparr>rbytes = encode_header mh @ junk @ frame streamID t flags p @ rest, rerr = e\<rparr> =
    ([(mh, None, Some (StatusErr CodeResourceExhausted (oversized_text (unat (Length mh))))),
      received (streamID, t, flags, p)], \<lparr>rbytes = rest, rerr = e\<rparr>)"
proof -
  let ?r = "\<lparr>rbytes = encode_header mh @ junk @ frame streamID t flags p @ rest, rerr = e\<rparr>"
  have "recv L ?r = ((mh, None, Some (StatusErr CodeResourceExhausted (oversized_text (unat (Length mh))))),
      ?r\<lparr>rbytes := frame streamID t flags p @ rest\<rparr>)"
    using assms by (intro recv_oversized) simp_all
  moreover have "recv L (?r\<lparr>rbytes := frame streamID t flags p @ rest\<rparr>) =
      (received (streamID, t, flags, p), \<lparr>rbytes = rest, rerr = e\<rparr>)"
    using recv_frame [OF assms(3), of "?r\<lparr>rbytes := frame streamID t flags p @ rest\<rparr>" streamID t flags rest]
    by simp
  ultimately show ?thesis by (simp add: numeral_2_eq_2)
qed

theorem recv_resynchronises_witness:
  "recv_many example_status_lib 2
     \<lparr>rbytes = encode_header \<lparr>Length = 4194305, StreamID = 7, Type = 1, Flags = 0\<rparr> @ replicate 4194305 0 @
        frame 9 1 0 [2] @ [], rerr = IoEOF\<rparr> =
    ([(\<lparr>Length = 4194305, StreamID = 7, Type = 1, Flags = 0\<rparr>, None,
       Some (StatusErr CodeResourceExhausted (oversized_text (unat (Length \<lparr>Length = 4194305, StreamID = 7, Type = 1, Flags = 0\<rparr>))))),
      received (9, 1, 0, [2])], \<lparr>rbytes = [], rerr = IoEOF\<rparr>)"
  by (rule recv_resynchronises) (simp_all add: messageLengthMax_def)

end
