(* ===== verification/Streams.thy ===== *)
theory Streams
  imports GoChan Channel
begin

text \<open>
  The client's end of a stream (\<open>src/stream.go\<close>): a bounded queue of messages filled by the
  receive loop of the connection and drained by one reader, and a close that records the first
  error. The blocking \<open>select\<close>s are steps: each names the branch that was ready.
\<close>

record streamMessage =
  header :: messageHeader
  payload :: bytes

record stream =
  sid :: u32
  s_recv :: "streamMessage gochan"
  closeOnce :: bool
  recvErr :: "go_error option"
  recvClose :: bool

text \<open>\<open>recvClose\<close> says whether that channel is closed, \<open>closeOnce\<close> whether the \<open>Once\<close> has run.\<close>

definition newStream :: "u32 \<Rightarrow> nat \<Rightarrow> stream" where
  "newStream i recvBuf =
     \<lparr>sid = i, s_recv = make_chan recvBuf, closeOnce = False, recvErr = None, recvClose = False\<rparr>"

definition closeWithError :: "go_error option \<Rightarrow> stream \<Rightarrow> stream" where
  "closeWithError err s =
     (if closeOnce s then s
      else s\<lparr>closeOnce := True,
             recvErr := Some (case err of Some e \<Rightarrow> e | None \<Rightarrow> ErrClosed),
             recvClose := True\<rparr>)"

interpretation stream_once: once "closeWithError err" closeOnce for err
  by unfold_locales (simp_all add: closeWithError_def)

lemma closeWithError_simps [simp]:
  "closeOnce (closeWithError err s)" "s_recv (closeWithError err s) = s_recv s"
  "sid (closeWithError err s) = sid s"
  by (simp_all add: closeWithError_def)

section \<open>Receiving\<close>

text \<open>
  The receive loop inside \<open>receive\<close>: before the first \<open>select\<close>, before the second, waiting in
  the third, returned. The branches of the \<open>select\<close>s are named by \<open>pick\<close>.
\<close>

datatype recv_phase = RCheck | RTry | RWait | RDone "go_error option"
datatype pick = PickClosed | PickSend | PickDone | PickDefault | PickTimeout

text \<open>\<open>None\<close>: the branch is not ready. \<open>ctx\<close> is \<open>ctx.Err()\<close> at this moment.\<close>

definition receive_branch ::
    "go_error option \<Rightarrow> pick \<Rightarrow> streamMessage \<Rightarrow> stream \<Rightarrow> (recv_phase \<times> stream) option" where
  "receive_branch ctx p msg s =
     (case p of
        PickClosed \<Rightarrow> if recvClose s then Some (RDone (recvErr s), s) else None
      | PickSend \<Rightarrow>
          (case chan_send msg (s_recv s) of
             Ok c \<Rightarrow> Some (RDone None, s\<lparr>s_recv := c\<rparr>)
           | _ \<Rightarrow> None)
      | PickDone \<Rightarrow> (case ctx of Some e \<Rightarrow> Some (RDone (Some e), s) | None \<Rightarrow> None)
      | _ \<Rightarrow> None)"

definition receive_step ::
    "go_error option \<Rightarrow> pick \<Rightarrow> streamMessage \<Rightarrow> recv_phase \<Rightarrow> stream \<Rightarrow> (recv_phase \<times> stream) option" where
  "receive_step ctx p msg ph s =
     (case ph of
        RCheck \<Rightarrow>
          (if recvClose s then (if p = PickClosed then Some (RDone (recvErr s), s) else None)
           else (if p = PickDefault then Some (RTry, s) else None))
      | RTry \<Rightarrow>
          (if p = PickDefault
           then (if recvClose s \<or> can_send (s_recv s) \<or> ctx \<noteq> None then None else Some (RWait, s))
           else receive_branch ctx p msg s)
      | RWait \<Rightarrow>
          (if p = PickTimeout
           then Some (RDone (Some ErrStreamFull), closeWithError (Some ErrStreamFull) s)
           else receive_branch ctx p msg s)
      | RDone e \<Rightarrow> None)"

section \<open>Reading\<close>

text \<open>
  The \<open>select\<close> of \<open>RecvMsg\<close> and of \<open>dispatch\<close>. When the stream is closed a pending message still
  goes first; as nothing but this reader takes messages off, the inner \<open>select\<close> is part of the
  same step.
\<close>

datatype read_pick = ReadDone | ReadClosed | ReadMessage
datatype read_result = GotMsg streamMessage | GotErr "go_error option"

definition read_message :: "stream \<Rightarrow> (read_result \<times> stream) option" where
  "read_message s =
     (case chan_recv (s_recv s) of
        Ok (Some msg, c) \<Rightarrow> Some (GotMsg msg, s\<lparr>s_recv := c\<rparr>)
      | _ \<Rightarrow> None)"

definition read_select :: "go_error option \<Rightarrow> read_pick \<Rightarrow> stream \<Rightarrow> (read_result \<times> stream) option" where
  "read_select ctx p s =
     (case p of
        ReadDone \<Rightarrow> (case ctx of Some e \<Rightarrow> Some (GotErr (Some e), s) | None \<Rightarrow> None)
      | ReadClosed \<Rightarrow>
          (if recvClose s
           then (case read_message s of Some r \<Rightarrow> Some r | None \<Rightarrow> Some (GotErr (recvErr s), s))
           else None)
      | ReadMessage \<Rightarrow> read_message s)"

section \<open>One stream with its goroutines\<close>

text \<open>
  The receive loop delivers messages one at a time, a reader takes them, any goroutine may close
  the stream (\<open>deleteStream\<close>, \<open>cleanupStreams\<close>, an error of the connection) and the two contexts
  may end. \<open>accepted\<close>, \<open>delivered\<close>, \<open>returned\<close> and \<open>reads\<close> record what happened: the messages
  queued, those read, the results of \<open>receive\<close> and of the reads.
\<close>

record stream_sys =
  strm :: stream
  receiving :: "(recv_phase \<times> streamMessage) option"
  conn_ctx :: "go_error option"
  call_ctx :: "go_error option"
  accepted :: "streamMessage list"
  delivered :: "streamMessage list"
  returned :: "(streamMessage \<times> go_error option) list"
  reads :: "read_result list"

definition stream_sys0 :: "u32 \<Rightarrow> nat \<Rightarrow> stream_sys" where
  "stream_sys0 i recvBuf =
     \<lparr>strm = newStream i recvBuf, receiving = None, conn_ctx = None, call_ctx = None,
      accepted = [], delivered = [], returned = [], reads = []\<rparr>"

datatype stream_event =
    Deliver streamMessage
  | Receive pick
  | Close "go_error option"
  | ConnDone go_error
  | CallDone go_error
  | Read read_pick

fun stream_step :: "stream_sys \<Rightarrow> stream_event \<Rightarrow> stream_sys option" where
  "stream_step y (Deliver msg) =
     (case receiving y of
        None \<Rightarrow> Some (y\<lparr>receiving := Some (RCheck, msg)\<rparr>)
      | Some _ \<Rightarrow> None)"
| "stream_step y (Receive p) =
     (case receiving y of
        None \<Rightarrow> None
      | Some (ph, msg) \<Rightarrow>
          (case receive_step (conn_ctx y) p msg ph (strm y) of
             None \<Rightarrow> None
           | Some (RDone e, s) \<Rightarrow>
               Some (y\<lparr>strm := s, receiving := None, returned := returned y @ [(msg, e)],
                       accepted := (if p = PickSend then accepted y @ [msg] else accepted y)\<rparr>)
           | Some (ph', s) \<Rightarrow> Some (y\<lparr>strm := s, receiving := Some (ph', msg)\<rparr>)))"
| "stream_step y (Close err) = Some (y\<lparr>strm := closeWithError err (strm y)\<rparr>)"
| "stream_step y (ConnDone e) = (if conn_ctx y = None then Some (y\<lparr>conn_ctx := Some e\<rparr>) else None)"
| "stream_step y (CallDone e) = (if call_ctx y = None then Some (y\<lparr>call_ctx := Some e\<rparr>) else None)"
| "stream_step y (Read p) =
     (case read_select (call_ctx y) p (strm y) of
        None \<Rightarrow> None
      | Some (GotMsg msg, s) \<Rightarrow>
          Some (y\<lparr>strm := s, delivered := delivered y @ [msg], reads := reads y @ [GotMsg msg]\<rparr>)
      | Some (r, s) \<Rightarrow> Some (y\<lparr>strm := s, reads := reads y @ [r]\<rparr>))"

section \<open>Invariants\<close>

fun got :: "read_result list \<Rightarrow> streamMessage list" where
  "got [] = []"
| "got (GotMsg m # rs) = m # got rs"
| "got (GotErr e # rs) = got rs"

lemma got_append [simp]: "got (rs @ qs) = got rs @ got qs"
  by (induction rs rule: got.induct) simp_all

definition stream_inv :: "stream_sys \<Rightarrow> bool" where [inv_defs]:
  "stream_inv y \<longleftrightarrow>
     chan.ledger (accepted y) (delivered y) (s_recv (strm y)) \<and>
     \<not> chan_closed (s_recv (strm y)) \<and>
     (closeOnce (strm y) \<longleftrightarrow> recvClose (strm y)) \<and>
     (recvClose (strm y) \<longleftrightarrow> recvErr (strm y) \<noteq> None) \<and>
     accepted y = map fst (filter (\<lambda>r. snd r = None) (returned y)) \<and>
     delivered y = got (reads y) \<and>
     (\<forall>r \<in> set (returned y). snd r \<noteq> None \<longrightarrow> recvClose (strm y) \<or> conn_ctx y \<noteq> None)"

lemma stream_inv_init: "stream_inv (stream_sys0 i recvBuf)"
  by (simp add: stream_inv_def stream_sys0_def newStream_def chan.ledger_def)

lemma receive_step_cases:
  assumes "receive_step ctx p msg ph s = Some (ph', s')" "closeOnce s \<longleftrightarrow> recvClose s"
    "recvClose s \<longleftrightarrow> recvErr s \<noteq> None"
  shows "(p = PickSend \<and> ph' = RDone None \<and> (\<exists>c. chan_send msg (s_recv s) = Ok c \<and> s' = s\<lparr>s_recv := c\<rparr>)) \<or>
    (p \<noteq> PickSend \<and> s_recv s' = s_recv s \<and>
      ((s' = s \<and> (ph' = RTry \<or> ph' = RWait)) \<or>
       (\<exists>e. ph' = RDone (Some e) \<and> (s' = s \<and> (recvClose s \<or> ctx \<noteq> None) \<or>
            s' = closeWithError (Some ErrStreamFull) s))))"
  using assms
  by (auto simp: receive_step_def receive_branch_def split: recv_phase.splits pick.splits if_splits
      outcome.splits option.splits)

lemma closeWithError_inv:
  assumes "closeOnce s \<longleftrightarrow> recvClose s" "recvClose s \<longleftrightarrow> recvErr s \<noteq> None"
  shows "recvClose (closeWithError err s)" "recvErr (closeWithError err s) \<noteq> None"
    "recvClose s \<Longrightarrow> recvErr (closeWithError err s) = recvErr s"
  using assms by (auto simp: closeWithError_def)

lemma read_message_Some:
  "read_message s = Some r \<longleftrightarrow>
   (\<exists>msg c. chan_recv (s_recv s) = Ok (Some msg, c) \<and> r = (GotMsg msg, s\<lparr>s_recv := c\<rparr>))"
  by (auto simp: read_message_def split: outcome.splits option.splits prod.splits)

lemma read_select_cases:
  assumes "read_select ctx p s = Some (r, s')"
  shows "(\<exists>msg c. chan_recv (s_recv s) = Ok (Some msg, c) \<and> r = GotMsg msg \<and> s' = s\<lparr>s_recv := c\<rparr>) \<or>
    (s' = s \<and> (\<exists>e. r = GotErr e \<and> (p = ReadDone \<and> e = ctx \<and> ctx \<noteq> None \<or>
       p = ReadClosed \<and> recvClose s \<and> read_message s = None \<and> e = recvErr s)))"
  using assms
  by (auto simp: read_select_def read_message_Some split: read_pick.splits if_splits option.splits)

lemma chan_recv_Some_iff:
  "chan_recv c = Ok (Some x, c') \<longleftrightarrow> (\<exists>xs. buf c = x # xs \<and> c' = c\<lparr>buf := xs\<rparr>)"
  by (auto simp: chan_recv_def split: list.splits if_splits)

lemma read_message_None_iff: "read_message s = None \<longleftrightarrow> buf (s_recv s) = []"
  by (auto simp: read_message_def chan_recv_def split: list.splits)

lemma stream_inv_ledger:
  "stream_inv y \<Longrightarrow> chan.ledger (accepted y) (delivered y) (s_recv (strm y))"
  unfolding stream_inv_def by (elim conjE)

lemma stream_inv_step:
  assumes "stream_inv y" "stream_step y e = Some y'"
  shows "stream_inv y'"
proof (cases e)
  case (Deliver msg)
  with assms show ?thesis by (auto simp: stream_inv_def split: option.splits)
next
  case (Receive p)
  have cl: "closeOnce (strm y) \<longleftrightarrow> recvClose (strm y)" "recvClose (strm y) \<longleftrightarrow> recvErr (strm y) \<noteq> None"
    using assms(1) by (simp_all add: stream_inv_def)
  obtain ph msg where r: "receiving y = Some (ph, msg)"
    using assms(2) Receive by (auto split: option.splits)
  obtain ph' s where st: "receive_step (conn_ctx y) p msg ph (strm y) = Some (ph', s)"
    using assms(2) Receive r by (auto split: option.splits)
  from receive_step_cases [OF st cl] show ?thesis
  proof (elim disjE conjE exE)
    fix c assume p: "p = PickSend" "ph' = RDone None" "s = strm y\<lparr>s_recv := c\<rparr>"
      and c: "chan_send msg (s_recv (strm y)) = Ok c"
    have "\<not> chan_closed c" using c by (auto simp: chan_send_Ok_iff)
    moreover have "chan.ledger (accepted y @ [msg]) (delivered y) c"
      by (rule chan.ledger_put [OF stream_inv_ledger [OF assms(1)] c])
    ultimately show ?thesis
      using assms Receive r st p by (auto simp: stream_inv_def)
  next
    assume "p \<noteq> PickSend" "s_recv s = s_recv (strm y)" "s = strm y" "ph' = RTry"
    then show ?thesis using assms Receive r st by (auto simp: stream_inv_def)
  next
    assume "p \<noteq> PickSend" "s_recv s = s_recv (strm y)" "s = strm y" "ph' = RWait"
    then show ?thesis using assms Receive r st by (auto simp: stream_inv_def)
  next
    fix e assume "p \<noteq> PickSend" "ph' = RDone (Some e)" "s = strm y" "recvClose (strm y)"
    then show ?thesis using assms Receive r st by (auto simp: stream_inv_def)
  next
    fix e assume "p \<noteq> PickSend" "ph' = RDone (Some e)" "s = strm y" "conn_ctx y \<noteq> None"
    then show ?thesis using assms Receive r st by (auto simp: stream_inv_def)
  next
    fix e assume "p \<noteq> PickSend" "ph' = RDone (Some e)" "s = closeWithError (Some ErrStreamFull) (strm y)"
    then show ?thesis
      using assms Receive r st closeWithError_inv [OF cl] by (auto simp: stream_inv_def)
  qed
next
  case (Close err)
  with assms closeWithError_inv [of "strm y" err] show ?thesis by (auto simp: stream_inv_def)
next
  case (ConnDone err)
  with assms show ?thesis by (auto simp: stream_inv_def split: if_splits)
next
  case (CallDone err)
  with assms show ?thesis by (auto simp: stream_inv_def split: if_splits)
next
  case (Read p)
  obtain r s where rs: "read_select (call_ctx y) p (strm y) = Some (r, s)"
    using assms(2) Read by (auto split: option.splits)
  from read_select_cases [OF rs] show ?thesis
  proof (elim disjE conjE exE)
    fix msg c assume c: "chan_recv (s_recv (strm y)) = Ok (Some msg, c)"
      and r: "r = GotMsg msg" "s = strm y\<lparr>s_recv := c\<rparr>"
    have "chan.ledger (accepted y) (delivered y @ [msg]) c"
      by (rule chan.ledger_get [OF stream_inv_ledger [OF assms(1)] c])
    moreover have "chan_closed c = chan_closed (s_recv (strm y))"
      using c by (auto simp: chan_recv_Some_iff)
    ultimately show ?thesis
      using assms Read rs r by (auto simp: stream_inv_def)
  qed (use assms Read rs in \<open>auto simp: stream_inv_def\<close>)
qed

interpretation strm: step_invariant stream_step stream_inv
  by unfold_locales (rule stream_inv_step)

text \<open>Closing is final: the error a stream was closed with first never changes.\<close>

definition closed_le :: "stream_sys \<Rightarrow> stream_sys \<Rightarrow> bool" where
  "closed_le y y' \<longleftrightarrow>
     (closeOnce (strm y) \<longrightarrow> closeOnce (strm y') \<and> recvErr (strm y') = recvErr (strm y)) \<and>
     (\<exists>rs. returned y' = returned y @ rs) \<and> (\<exists>rs. reads y' = reads y @ rs)"

lemma closeWithError_first:
  "closeOnce s \<Longrightarrow> closeWithError err s = s"
  by (rule stream_once.shut_again)

lemma receive_step_closed:
  "receive_step ctx p msg ph s = Some (ph', s') \<Longrightarrow> closeOnce s \<Longrightarrow>
   closeOnce s' \<and> recvErr s' = recvErr s"
  by (auto simp: receive_step_def receive_branch_def closeWithError_first split: recv_phase.splits pick.splits
      if_splits outcome.splits option.splits)

lemma read_select_closed:
  "read_select ctx p s = Some (r, s') \<Longrightarrow> closeOnce s' = closeOnce s \<and> recvErr s' = recvErr s"
  by (drule read_select_cases) auto

lemma closed_le_step: "stream_step y e = Some y' \<Longrightarrow> closed_le y y'"
  by (cases e)
     (auto simp: closed_le_def closeWithError_first dest: receive_step_closed read_select_closed
       split: option.splits if_splits prod.splits recv_phase.splits read_result.splits)

interpretation strm: step_monotone stream_step closed_le
  by unfold_locales (auto simp: closed_le_def closed_le_step [unfolded closed_le_def])

text \<open>The capacity never changes.\<close>

lemma receive_step_cap:
  "receive_step ctx p msg ph s = Some (ph', s') \<Longrightarrow> chan_cap (s_recv s') = chan_cap (s_recv s)"
  by (auto simp: receive_step_def receive_branch_def chan_send_Ok_iff
      split: option.splits if_splits recv_phase.splits pick.splits outcome.splits)

lemma read_select_cap: "read_select ctx p s = Some (r, s') \<Longrightarrow> chan_cap (s_recv s') = chan_cap (s_recv s)"
  by (drule read_select_cases) (auto simp: chan_recv_Some_iff)

lemma cap_step:
  assumes "chan_cap (s_recv (strm y)) = n" "stream_step y e = Some y'"
  shows "chan_cap (s_recv (strm y')) = n"
  using assms
  by (cases e)
     (auto dest: receive_step_cap read_select_cap
       split: option.splits if_splits prod.splits recv_phase.splits read_result.splits)

interpretation strm_cap: step_invariant stream_step "\<lambda>y. chan_cap (s_recv (strm y)) = n" for n
  by unfold_locales (rule cap_step)

text \<open>A closed stream hands out what is queued and then its error, over and over.\<close>

lemma read_closed_step:
  assumes "recvClose (strm y)" "buf (s_recv (strm y)) = m # ms"
  shows "stream_step y (Read ReadClosed) =
    Some (y\<lparr>strm := (strm y)\<lparr>s_recv := (s_recv (strm y))\<lparr>buf := ms\<rparr>\<rparr>,
            delivered := delivered y @ [m], reads := reads y @ [GotMsg m]\<rparr>)"
  using assms by (simp add: read_select_def read_message_def chan_recv_def)

lemma read_closed_empty:
  assumes "recvClose (strm y)" "buf (s_recv (strm y)) = []"
  shows "stream_step y (Read ReadClosed) = Some (y\<lparr>reads := reads y @ [GotErr (recvErr (strm y))]\<rparr>)"
  using assms by (simp add: read_select_def read_message_def chan_recv_def)

lemma drain_closed:
  assumes "recvClose (strm y)"
  shows "\<exists>y'. run stream_step y (replicate (length (buf (s_recv (strm y)))) (Read ReadClosed)) = Some y' \<and>
    reads y' = reads y @ map GotMsg (buf (s_recv (strm y))) \<and> buf (s_recv (strm y')) = [] \<and>
    recvClose (strm y') \<and> recvErr (strm y') = recvErr (strm y)"
  using assms
proof (induction "buf (s_recv (strm y))" arbitrary: y)
  case Nil
  then show ?case by simp
next
  case (Cons m ms)
  let ?y = "y\<lparr>strm := (strm y)\<lparr>s_recv := (s_recv (strm y))\<lparr>buf := ms\<rparr>\<rparr>,
            delivered := delivered y @ [m], reads := reads y @ [GotMsg m]\<rparr>"
  have "stream_step y (Read ReadClosed) = Some ?y"
    by (rule read_closed_step) (use Cons in simp_all)
  with Cons.hyps(1) [of ?y] Cons.hyps(2) [symmetric] Cons.prems show ?case by simp
qed

section \<open>Properties\<close>

text \<open>
  C35: Whatever the interleaving of the receive loop, the reader and the goroutines that close the
  stream: the messages read are, in order, the first of those accepted, and those still queued are
  the rest, never more than the buffer size of the stream; a message was accepted exactly when
  \<open>receive\<close> returned nil for it, and \<open>receive\<close> refuses a message only when the stream has been
  closed or the context of the connection has ended, so none is lost silently.
\<close>

theorem stream_delivery:
  assumes "run stream_step (stream_sys0 i recvBuf) es = Some y"
  shows "accepted y = got (reads y) @ buf (s_recv (strm y)) \<and> length (buf (s_recv (strm y))) \<le> recvBuf \<and>
    accepted y = map fst (filter (\<lambda>r. snd r = None) (returned y)) \<and>
    (\<forall>r \<in> set (returned y). snd r \<noteq> None \<longrightarrow> recvErr (strm y) \<noteq> None \<or> conn_ctx y \<noteq> None)"
proof -
  have inv: "stream_inv y"
    using strm.inv_run [OF stream_inv_init assms] .
  have chan_cap: "chan_cap (s_recv (strm y)) = recvBuf"
    using strm_cap.inv_run [OF _ assms] by (simp add: stream_sys0_def newStream_def)
  have "accepted y = delivered y @ buf (s_recv (strm y))" "length (buf (s_recv (strm y))) \<le> recvBuf"
    using stream_inv_ledger [OF inv] chan_cap unfolding chan.ledger_def by simp_all
  moreover have "delivered y = got (reads y)" "accepted y = map fst (filter (\<lambda>r. snd r = None) (returned y))"
    "\<forall>r \<in> set (returned y). snd r \<noteq> None \<longrightarrow> recvErr (strm y) \<noteq> None \<or> conn_ctx y \<noteq> None"
    using inv unfolding stream_inv_def by (elim conjE, assumption | blast)+
  ultimately show ?thesis by (intro conjI) (assumption | simp only:)+
qed

definition msg1 :: streamMessage where
  "msg1 = \<lparr>header = \<lparr>Length = 1, StreamID = 1, Type = 3, Flags = 0\<rparr>, payload = Some [1]\<rparr>"

definition msg2 :: streamMessage where
  "msg2 = \<lparr>header = \<lparr>Length = 1, StreamID = 1, Type = 3, Flags = 0\<rparr>, payload = Some [2]\<rparr>"

definition full_run :: "stream_event list" where
  "full_run = [Deliver msg1, Receive PickDefault, Receive PickSend,
    Deliver msg2, Receive PickDefault, Receive PickDefault, Receive PickTimeout, Read ReadMessage]"

lemma full_run_result:
  "\<exists>y. run stream_step (stream_sys0 1 1) full_run = Some y \<and> returned y = [(msg1, None), (msg2, Some ErrStreamFull)] \<and>
     reads y = [GotMsg msg1] \<and> recvErr (strm y) = Some ErrStreamFull"
  by (simp add: full_run_def stream_sys0_def newStream_def make_chan_def receive_step_def receive_branch_def
      chan_send_def can_send_def closeWithError_def read_select_def read_message_def chan_recv_def)

theorem stream_delivery_witness:
  "\<exists>y. run stream_step (stream_sys0 1 1) full_run = Some y \<and> got (reads y) = [msg1] \<and>
     accepted y = [msg1] \<and> buf (s_recv (strm y)) = []"
proof -
  obtain y where y: "run stream_step (stream_sys0 1 1) full_run = Some y"
    "returned y = [(msg1, None), (msg2, Some ErrStreamFull)]" "reads y = [GotMsg msg1]"
    using full_run_result by blast
  note d = stream_delivery [OF y(1)]
  have "accepted y = got (reads y) @ buf (s_recv (strm y))" by (rule conjunct1 [OF d])
  moreover have "accepted y = map fst (filter (\<lambda>r. snd r = None) (returned y))" using d by (elim conjE)
  ultimately have "got (reads y) = [msg1]" "accepted y = [msg1]" "buf (s_recv (strm y)) = []"
    unfolding y(2,3) by simp_all
  with y(1) show ?thesis by blast
qed

text \<open>
  The first error wins: a stream that is closed keeps the error it was closed with (nil stands
  for \<open>ErrClosed\<close>), however often and with whatever error it is closed again.
\<close>

theorem stream_first_error:
  assumes "run stream_step (stream_sys0 i recvBuf) (es @ Close err # es') = Some y"
    and "run stream_step (stream_sys0 i recvBuf) es = Some u" "recvErr (strm u) = None"
  shows "recvErr (strm y) = Some (case err of Some e \<Rightarrow> e | None \<Rightarrow> ErrClosed) \<and> recvClose (strm y)"
proof -
  have "stream_inv u" using strm.inv_run [OF stream_inv_init assms(2)] .
  with assms(3) have open_u: "\<not> closeOnce (strm u)" by (simp add: stream_inv_def)
  let ?v = "u\<lparr>strm := closeWithError err (strm u)\<rparr>"
  have "run stream_step ?v es' = Some y"
    using assms(1,2) by (simp add: run_append)
  from strm.le_run [OF this] have "recvErr (strm y) = recvErr (strm ?v)"
    by (simp add: closed_le_def)
  moreover have "stream_inv y" using strm.inv_run [OF stream_inv_init assms(1)] .
  ultimately show ?thesis using open_u by (auto simp: closeWithError_def stream_inv_def)
qed

theorem stream_first_error_witness:
  "\<exists>y. run stream_step (stream_sys0 1 1) ([] @ Close (Some IoEOF) # [Close None, Close (Some ErrProtocol)]) = Some y \<and>
     recvErr (strm y) = Some IoEOF"
proof -
  obtain y where y: "run stream_step (stream_sys0 1 1) ([] @ Close (Some IoEOF) # [Close None, Close (Some ErrProtocol)]) = Some y"
    by simp
  from stream_first_error [OF this, of "stream_sys0 1 1"] y show ?thesis
    by (simp add: stream_sys0_def newStream_def)
qed

text \<open>
  A reader that lags loses nothing that was queued. When \<open>receive\<close> gives up after its second of
  waiting, it had found the queue full, the stream is closed with \<open>ErrStreamFull\<close>, and the reader
  still gets every queued message, and after them that error.
\<close>

theorem stream_full_drains:
  assumes "run stream_step (stream_sys0 i recvBuf) es = Some y" "receiving y = Some (RWait, msg)"
    and "recvErr (strm y) = None" "stream_step y (Receive PickTimeout) = Some y'"
  shows "recvErr (strm y') = Some ErrStreamFull \<and> returned y' = returned y @ [(msg, Some ErrStreamFull)] \<and>
    (\<exists>z. run stream_step y' (replicate (Suc (length (buf (s_recv (strm y))))) (Read ReadClosed)) = Some z \<and>
       reads z = reads y @ map GotMsg (buf (s_recv (strm y))) @ [GotErr (Some ErrStreamFull)])"
proof -
  have "stream_inv y" using strm.inv_run [OF stream_inv_init assms(1)] .
  with assms(3) have "\<not> closeOnce (strm y)" by (simp add: stream_inv_def)
  with assms(2,4) have y': "recvErr (strm y') = Some ErrStreamFull" "recvClose (strm y')"
    "s_recv (strm y') = s_recv (strm y)" "returned y' = returned y @ [(msg, Some ErrStreamFull)]" "reads y' = reads y"
    by (auto simp: receive_step_def closeWithError_def)
  obtain z where z: "run stream_step y' (replicate (length (buf (s_recv (strm y)))) (Read ReadClosed)) = Some z"
    "reads z = reads y @ map GotMsg (buf (s_recv (strm y)))" "buf (s_recv (strm z)) = []" "recvClose (strm z)"
    "recvErr (strm z) = Some ErrStreamFull"
    using drain_closed [OF y'(2)] y' by auto
  have "run stream_step y' (replicate (length (buf (s_recv (strm y)))) (Read ReadClosed) @ [Read ReadClosed]) =
      Some (z\<lparr>reads := reads z @ [GotErr (recvErr (strm z))]\<rparr>)"
    using z(1) read_closed_empty [OF z(4,3)] by (simp add: run_append del: stream_step.simps)
  then show ?thesis unfolding replicate_Suc replicate_append_same using y' z
    by (simp del: run.simps stream_step.simps)
qed

lemma waiting_run:
  "\<exists>y. run stream_step (stream_sys0 1 1) [Deliver msg1, Receive PickDefault, Receive PickSend,
      Deliver msg2, Receive PickDefault, Receive PickDefault] = Some y \<and>
    receiving y = Some (RWait, msg2) \<and> recvErr (strm y) = None \<and> buf (s_recv (strm y)) = [msg1] \<and> reads y = []"
  by (simp add: stream_sys0_def newStream_def make_chan_def receive_step_def receive_branch_def
      chan_send_def can_send_def)

theorem stream_full_drains_witness:
  "\<exists>y y' z. receiving y = Some (RWait, msg2) \<and> stream_step y (Receive PickTimeout) = Some y' \<and>
     run stream_step y' [Read ReadClosed, Read ReadClosed] = Some z \<and>
     reads z = [GotMsg msg1, GotErr (Some ErrStreamFull)]"
proof -
  obtain y where y: "run stream_step (stream_sys0 1 1) [Deliver msg1, Receive PickDefault, Receive PickSend,
      Deliver msg2, Receive PickDefault, Receive PickDefault] = Some y"
    "receiving y = Some (RWait, msg2)" "recvErr (strm y) = None" "buf (s_recv (strm y)) = [msg1]" "reads y = []"
    using waiting_run by blast
  obtain y' where y': "stream_step y (Receive PickTimeout) = Some y'"
    using y(2) by (simp add: receive_step_def)
  from stream_full_drains [OF y(1,2,3) y'] y(4,5) obtain z where
    "run stream_step y' (replicate (Suc (length [msg1])) (Read ReadClosed)) = Some z"
    "reads z = [] @ map GotMsg [msg1] @ [GotErr (Some ErrStreamFull)]" by auto
  with y(2) y' show ?thesis
    by (intro exI [of _ y] exI [of _ y'] exI [of _ z]) (simp add: numeral_2_eq_2)
qed

end
