(* ===== verification/ClientOps.thy ===== *)
theory ClientOps
  imports Services Streams
begin

text \<open>
  The operations of the client that do not depend on the scheduling of its goroutines
  (\<open>src/client.go\<close>): what errors of the connection become, the request a call sends, the
  result of a unary call, and the user's end of a stream with its local and remote side closed
  one after the other. \<open>status.ErrorProto\<close> makes the error of a received status.
\<close>

section \<open>Errors of the connection\<close>

definition filterCloseErr :: "status_lib \<Rightarrow> go_error option \<Rightarrow> go_error option" where
  "filterCloseErr L err =
     (case err of
        None \<Rightarrow> None
      | Some e \<Rightarrow>
          if e = IoEOF then Some ErrClosed
          else if errors_is e IoClosedPipe then Some ErrClosed
          else if errors_is e IoEOF then Some ErrClosed
          else if contains (error_text L e) ''use of closed network connection'' then Some ErrClosed
          else (case errors_as_op e of
              Some op \<Rightarrow>
                if (op = ''write'' \<and> errors_is e (Errno EPIPE)) \<or> (op = ''read'' \<and> errors_is e (Errno ECONNRESET))
                then Some ErrClosed else Some e
            | None \<Rightarrow> Some e))"

section \<open>Payloads of messages\<close>

text \<open>\<open>msg.payload[:msg.header.Length]\<close>.\<close>

definition msg_payload :: "streamMessage \<Rightarrow> bytes" where
  "msg_payload msg = map_option (take (unat (Length (header msg)))) (payload msg)"

definition unexpected_message :: "byte \<Rightarrow> go_error" where
  "unexpected_message t = WrapErr (''unexpected '' @ [CHR 0x22] @ messageType_String t @ [CHR 0x22] @
     '' message received: protocol error'') ErrProtocol"

text \<open>\<open>status.ErrorProto\<close> on a status that is not OK.\<close>

definition ErrorProto :: "status \<Rightarrow> go_error" where
  "ErrorProto st = StatusErr (Code st) (Message st)"

definition response_failed :: "Response \<Rightarrow> go_error option" where
  "response_failed r =
     (case rs_status r of
        Some st \<Rightarrow> if Code st \<noteq> CodeOK then Some (ErrorProto st) else None
      | None \<Rightarrow> None)"

section \<open>Unary calls\<close>

text \<open>The end of \<open>dispatch\<close>: what the message received makes of the response.\<close>

definition dispatch_message :: "'m proto_lib \<Rightarrow> streamMessage \<Rightarrow> Response \<Rightarrow> go_error option \<times> Response" where
  "dispatch_message P msg resp =
     (if Type (header msg) = messageTypeResponse
      then (case uResponse P (msg_payload msg) of
          Inl e \<Rightarrow> (Some e, resp)
        | Inr r \<Rightarrow> (None, r))
      else (Some (unexpected_message (Type (header msg))), resp))"

text \<open>
  The request of a call: the metadata of the context, visited in the order \<open>ks\<close>, and the time
  left until its deadline.
\<close>

definition Call_request ::
    "string list \<Rightarrow> heap \<Rightarrow> 'c go_context \<Rightarrow> int option \<Rightarrow> string \<Rightarrow> string \<Rightarrow> bytes \<Rightarrow> Request" where
  "Call_request ks h ctx deadline service meth p =
     \<lparr>Service = service, req_Method = meth, Payload = p,
      TimeoutNano = (case deadline of Some d \<Rightarrow> d | None \<Rightarrow> 0),
      req_Metadata = (case GetMetadata ctx of
          (Some m, True) \<Rightarrow> md_setRequest ks h m []
        | _ \<Rightarrow> [])\<rparr>"

definition empty_response :: Response where
  "empty_response = \<lparr>rs_status = None, rs_payload = None\<rparr>"

type_synonym ('c, 'r) CallInterceptor =
  "('c go_context, Request, Response, 'r) UnaryClientInterceptor"

text \<open>What follows the interceptor: the payload decoded, and the error of the status.\<close>

definition Call_result ::
    "'m proto_lib \<Rightarrow> 'm any \<Rightarrow> go_error option \<times> Response \<Rightarrow> go_error option \<times> 'm any" where
  "Call_result P resp r =
     (case r of
        (Some e, cresp) \<Rightarrow> (Some e, resp)
      | (None, cresp) \<Rightarrow>
          (case codec_Unmarshal P (rs_payload cresp) resp of
             (Some e, resp') \<Rightarrow> (Some e, resp')
           | (None, resp') \<Rightarrow> (response_failed cresp, resp')))"

definition Call ::
    "'m proto_lib \<Rightarrow> ('c, go_error option \<times> Response) CallInterceptor \<Rightarrow>
     ('c go_context, Request, Response, go_error option \<times> Response) Invoker \<Rightarrow>
     string list \<Rightarrow> heap \<Rightarrow> 'c go_context \<Rightarrow> int option \<Rightarrow> string \<Rightarrow> string \<Rightarrow> 'm any \<Rightarrow> 'm any \<Rightarrow>
     go_error option \<times> 'm any" where
  "Call P intercept dispatch ks h ctx deadline service meth req resp =
     (case codec_Marshal P req of
        Inl e \<Rightarrow> (Some e, resp)
      | Inr p \<Rightarrow>
          Call_result P resp
            (intercept ctx (Call_request ks h ctx deadline service meth p) empty_response
               \<lparr>uc_FullMethod = fullPath service meth\<rparr> dispatch))"

section \<open>Streams\<close>

record StreamDesc =
  d_StreamingClient :: bool
  d_StreamingServer :: bool

text \<open>The request and the flags of a new stream.\<close>

definition NewStream_request ::
    "'m proto_lib \<Rightarrow> StreamDesc \<Rightarrow> string \<Rightarrow> string \<Rightarrow> 'm any \<Rightarrow> go_error + (byte \<times> bytes)" where
  "NewStream_request P desc service meth req =
     (case (if req \<noteq> NilAny then codec_Marshal P req else Inr None) of
        Inl e \<Rightarrow> Inl e
      | Inr p \<Rightarrow>
          (case mRequest P \<lparr>Service = service, req_Method = meth, Payload = p, TimeoutNano = 0, req_Metadata = []\<rparr> of
             Inl e \<Rightarrow> Inl e
           | Inr b \<Rightarrow> Inr (if d_StreamingClient desc then flagRemoteOpen else flagRemoteClosed, b)))"

text \<open>The user's end of a stream: whether each side has been closed.\<close>

record client_end =
  cs_desc :: StreamDesc
  cs_localClosed :: bool
  cs_remoteClosed :: bool

text \<open>\<open>sendf\<close> is the \<open>s.send\<close> of the stream: its result for a message type, flags and payload.\<close>

definition CloseSend ::
    "status_lib \<Rightarrow> (byte \<Rightarrow> byte \<Rightarrow> bytes \<Rightarrow> go_error option) \<Rightarrow> client_end \<Rightarrow> go_error option \<times> client_end" where
  "CloseSend L sendf cs =
     (if \<not> d_StreamingClient (cs_desc cs)
      then (Some (WrapErr ''protocol error: cannot close non-streaming client'' ErrProtocol), cs)
      else if cs_localClosed cs then (Some ErrStreamClosed, cs)
      else (case sendf messageTypeData (flagRemoteClosed OR flagNoData) None of
          Some e \<Rightarrow> (filterCloseErr L (Some e), cs)
        | None \<Rightarrow> (None, cs\<lparr>cs_localClosed := True\<rparr>)))"


text \<open>
  The part of \<open>RecvMsg\<close> after its \<open>select\<close>: the error, the message decoded into, the new state of
  the stream's end, and whether the stream is deleted from the client.
\<close>

definition client_RecvMsg ::
    "'m proto_lib \<Rightarrow> streamMessage \<Rightarrow> 'm any \<Rightarrow> client_end \<Rightarrow> go_error option \<times> 'm any \<times> client_end \<times> bool" where
  "client_RecvMsg P msg m cs =
     (if Type (header msg) = messageTypeResponse
      then (case uResponse P (msg_payload msg) of
          Inl e \<Rightarrow> (Some e, m, cs, False)
        | Inr resp \<Rightarrow>
            (case codec_Unmarshal P (rs_payload resp) m of
               (Some e, m') \<Rightarrow> (Some e, m', cs, False)
             | (None, m') \<Rightarrow>
                 (case response_failed resp of
                    Some e \<Rightarrow> (Some e, m', cs, False)
                  | None \<Rightarrow> (None, m', cs\<lparr>cs_remoteClosed := True\<rparr>, True))))
      else if Type (header msg) = messageTypeData
      then (if \<not> d_StreamingServer (cs_desc cs)
            then (Some (WrapErr ''received data from non-streaming server: protocol error'' ErrProtocol), m,
                  cs\<lparr>cs_remoteClosed := True\<rparr>, True)
            else let closing = has_flag (Flags (header msg)) flagRemoteClosed;
                     cs' = (if closing then cs\<lparr>cs_remoteClosed := True\<rparr> else cs)
                 in if closing \<and> has_flag (Flags (header msg)) flagNoData
                    then (Some IoEOF, m, cs', True)
                    else (case codec_Unmarshal P (msg_payload msg) m of
                        (e, m') \<Rightarrow> (e, m', cs', closing)))
      else (Some (unexpected_message (Type (header msg))), m, cs, False))"

text \<open>The whole \<open>RecvMsg\<close>, given the result of the \<open>select\<close>.\<close>

definition client_recv ::
    "'m proto_lib \<Rightarrow> read_result \<Rightarrow> 'm any \<Rightarrow> client_end \<Rightarrow> go_error option \<times> 'm any \<times> client_end \<times> bool" where
  "client_recv P r m cs =
     (if cs_remoteClosed cs then (Some IoEOF, m, cs, False)
      else (case r of
          GotErr e \<Rightarrow> (e, m, cs, False)
        | GotMsg msg \<Rightarrow> client_RecvMsg P msg m cs))"

section \<open>Laws\<close>

lemma filterCloseErr_cases: "filterCloseErr L (Some e) = Some ErrClosed \<or> filterCloseErr L (Some e) = Some e"
  by (simp add: filterCloseErr_def split: option.split)

lemma filterCloseErr_None_iff [simp]: "filterCloseErr L err = None \<longleftrightarrow> err = None"
proof (cases err)
  case (Some e)
  with filterCloseErr_cases [of L e] show ?thesis by auto
qed (simp add: filterCloseErr_def)

lemma filterCloseErr_ErrClosed [simp]: "filterCloseErr L (Some ErrClosed) = Some ErrClosed"
  using filterCloseErr_cases [of L ErrClosed] by blast


lemma client_RecvMsg_delete:
  "client_RecvMsg P msg m cs = (e, m', cs', del) \<Longrightarrow> \<not> cs_remoteClosed cs \<Longrightarrow>
   cs_desc cs' = cs_desc cs \<and> cs_localClosed cs' = cs_localClosed cs \<and> (cs_remoteClosed cs' \<longleftrightarrow> del)"
  by (auto simp: client_RecvMsg_def Let_def split: if_splits sum.splits option.splits prod.splits)

text \<open>The user's calls on a stream, in any order, with the results of the connection.\<close>

datatype 'm end_op =
    OpCloseSend "byte \<Rightarrow> byte \<Rightarrow> bytes \<Rightarrow> go_error option"
  | OpSendMsg "byte \<Rightarrow> byte \<Rightarrow> bytes \<Rightarrow> go_error option" "'m any"
  | OpRecvMsg read_result "'m any"

text \<open>State: the end, and how often the stream was deleted from the client.\<close>

fun end_step :: "status_lib \<Rightarrow> 'm proto_lib \<Rightarrow> client_end \<times> nat \<Rightarrow> 'm end_op \<Rightarrow> (client_end \<times> nat) option" where
  "end_step L P (cs, n) (OpCloseSend f) = Some (snd (CloseSend L f cs), n)"
| "end_step L P (cs, n) (OpSendMsg f m) = Some (cs, n)"
| "end_step L P (cs, n) (OpRecvMsg r m) =
     (case client_recv P r m cs of (e, m', cs', del) \<Rightarrow> Some (cs', if del then Suc n else n))"

definition end_inv :: "StreamDesc \<Rightarrow> client_end \<times> nat \<Rightarrow> bool" where [inv_defs]:
  "end_inv desc s \<longleftrightarrow> (case s of (cs, n) \<Rightarrow>
     cs_desc cs = desc \<and> n = (if cs_remoteClosed cs then 1 else 0) \<and>
     (cs_localClosed cs \<longrightarrow> d_StreamingClient desc))"

lemma end_inv_step:
  assumes "end_inv desc s" "end_step L P s op = Some t"
  shows "end_inv desc t"
proof -
  obtain cs n where s: "s = (cs, n)" by (cases s)
  show ?thesis
  proof (cases op)
    case (OpCloseSend f)
    with assms show ?thesis
      by (auto simp: s end_inv_def CloseSend_def split: option.splits if_splits)
  next
    case (OpSendMsg f m)
    with assms show ?thesis by (simp add: s)
  next
    case (OpRecvMsg r m)
    obtain e m' cs' del where c: "client_recv P r m cs = (e, m', cs', del)"
      by (metis prod.exhaust)
    show ?thesis
    proof (cases "cs_remoteClosed cs \<or> (\<exists>e. r = GotErr e)")
      case True
      with c assms OpRecvMsg show ?thesis by (auto simp: s client_recv_def split: if_splits)
    next
      case False
      then obtain msg where "r = GotMsg msg" by (cases r) auto
      with False c have "client_RecvMsg P msg m cs = (e, m', cs', del)" by (simp add: client_recv_def)
      from client_RecvMsg_delete [OF this] False c assms OpRecvMsg show ?thesis
        by (auto simp: s end_inv_def)
    qed
  qed
qed

interpretation client_end: step_invariant "end_step L P" "end_inv desc" for L P desc
  by unfold_locales (rule end_inv_step)

definition end0 :: "StreamDesc \<Rightarrow> client_end" where
  "end0 desc = \<lparr>cs_desc = desc, cs_localClosed = False, cs_remoteClosed = False\<rparr>"






section \<open>Properties\<close>




text \<open>
  What the errors of a connection become for the caller: nil stays nil, and every other error
  is either \<open>ErrClosed\<close> or itself, so rewriting twice changes nothing. The end of the stream and a
  closed pipe are rewritten however deep they are wrapped, a broken pipe or a reset connection
  only when the operation that failed was a write or a read.
\<close>

theorem filter_close_errors:
  "(filterCloseErr L err = None \<longleftrightarrow> err = None) \<and>
   filterCloseErr L (filterCloseErr L err) = filterCloseErr L err \<and>
   filterCloseErr L (Some (WrapErr t IoEOF)) = Some ErrClosed \<and>
   filterCloseErr L (Some (OpError op t IoClosedPipe)) = Some ErrClosed \<and>
   filterCloseErr L (Some (OpError op ''io'' (Errno EPIPE))) =
     Some (if op = ''write'' then ErrClosed else OpError op ''io'' (Errno EPIPE)) \<and>
   filterCloseErr L (Some (OpError op ''io'' (Errno ECONNRESET))) =
     Some (if op = ''read'' then ErrClosed else OpError op ''io'' (Errno ECONNRESET))"
proof -
  have "filterCloseErr L (filterCloseErr L err) = filterCloseErr L err"
  proof (cases err)
    case (Some e)
    with filterCloseErr_cases [of L e] show ?thesis by auto
  qed (simp add: filterCloseErr_def)
  moreover have "filterCloseErr L (Some (WrapErr t IoEOF)) = Some ErrClosed"
    "filterCloseErr L (Some (OpError op t IoClosedPipe)) = Some ErrClosed"
    by (simp_all add: filterCloseErr_def)
  moreover have "filterCloseErr L (Some (OpError op ''io'' (Errno EPIPE))) =
      Some (if op = ''write'' then ErrClosed else OpError op ''io'' (Errno EPIPE))"
    "filterCloseErr L (Some (OpError op ''io'' (Errno ECONNRESET))) =
      Some (if op = ''read'' then ErrClosed else OpError op ''io'' (Errno ECONNRESET))"
    by (simp_all add: filterCloseErr_def errors_is_def errors_as_op_def is_op_error_def)
  ultimately show ?thesis by simp
qed

text \<open>
  A failed response does not end the stream for the client: \<open>RecvMsg\<close> returns its error, but the
  stream is neither marked closed nor deleted, so the next \<open>RecvMsg\<close> waits for a message that
  does not come.
\<close>

theorem failed_response_keeps_stream:
  assumes "Type (header msg) = messageTypeResponse" "uResponse P (msg_payload msg) = Inr resp"
    and "codec_Unmarshal P (rs_payload resp) m = (None, m')" "response_failed resp = Some e"
  shows "client_recv P (GotMsg msg) m (end0 desc) = (Some e, m', end0 desc, False)"
  using assms by (simp add: client_recv_def client_RecvMsg_def end0_def)

end
