(* ===== verification/Client.thy ===== *)
theory Client
  imports ClientOps
begin

text \<open>
  One client connection (\<open>src/client.go\<close>) with its goroutines: the receive loop and the clean-up
  of \<open>run\<close>, any number of callers in \<open>dispatch\<close> or with a stream of \<open>NewStream\<close>, and \<open>Close\<close>. A
  stream is an object the table of streams and its caller share, so streams are numbered in the
  order they are made. \<open>sendLock\<close> is held by one caller or free; what \<open>streamLock\<close> protects is one
  step.
\<close>

section \<open>State\<close>

text \<open>
  A caller: before \<open>createStream\<close>, before its first and second test of the context (with
  \<open>sendLock\<close>), before the send, waiting for an answer (\<open>dispatch\<close>), holding an open stream
  (\<open>NewStream\<close>), before the two halves of \<open>deleteStream\<close>, returned.
\<close>

datatype caller_pc =
    KStart
  | KCheck
  | KRegister
  | KSend nat
  | KWait nat
  | KOpen nat
  | KDelete nat read_result
  | KClose nat read_result
  | KDone read_result

record caller =
  k_unary :: bool
  k_flags :: byte
  k_data :: bytes
  k_pc :: caller_pc

text \<open>
  The goroutine of \<open>run\<close>: at the head of the receive loop, in \<open>recv\<close>, with a message for a stream
  inside \<open>receive\<close>, out of the loop with its error, after \<open>Close\<close>, after \<open>cleanupStreams\<close>, after
  the user's callback, ended.
\<close>

datatype run_pc =
    LTop
  | LRecv
  | LReceive recv_phase streamMessage nat
  | LError "go_error option"
  | LClosed "go_error option"
  | LCleaned
  | LCalled
  | LEnd

record client =
  cl_closed :: bool
  cl_streams :: "u32 \<rightharpoonup> nat"
  cl_objs :: "stream list"
  cl_nextStreamID :: u32
  cl_sendLock :: "nat option"
  cl_callers :: "caller list"
  cl_run :: run_pc
  cl_sent :: "(u32 \<times> byte \<times> byte \<times> bytes) list"
  cl_requests :: "nat list"
  cl_user_calls :: nat

text \<open>
  \<open>cl_closed\<close> says that \<open>closeOnce\<close> has run: the context of the client is done and the connection
  closed. \<open>cl_sent\<close> are the frames written, \<open>cl_requests\<close> the streams whose request was written.
\<close>

definition client0 :: client where
  "client0 =
     \<lparr>cl_closed = False, cl_streams = Map.empty, cl_objs = [], cl_nextStreamID = 1, cl_sendLock = None,
      cl_callers = [], cl_run = LTop, cl_sent = [], cl_requests = [], cl_user_calls = 0\<rparr>"

definition cl_ctx :: "client \<Rightarrow> go_error option" where
  "cl_ctx s = (if cl_closed s then Some CtxCanceled else None)"

text \<open>\<open>(*Client).Close\<close>.\<close>

definition client_Close :: "client \<Rightarrow> client" where
  "client_Close s = (if cl_closed s then s else s\<lparr>cl_closed := True\<rparr>)"

interpretation client_once: once client_Close cl_closed
  by unfold_locales (simp_all add: client_Close_def)

section \<open>Streams of the client\<close>

definition getStream :: "u32 \<Rightarrow> client \<Rightarrow> nat option" where
  "getStream i s = cl_streams s i"

definition close_obj :: "go_error option \<Rightarrow> nat \<Rightarrow> client \<Rightarrow> client" where
  "close_obj err o' s = s\<lparr>cl_objs := (cl_objs s)[o' := closeWithError err (cl_objs s ! o')]\<rparr>"

text \<open>The first half of \<open>deleteStream\<close>; the second is \<open>close_obj None\<close>.\<close>

definition delete_entry :: "nat \<Rightarrow> client \<Rightarrow> client" where
  "delete_entry o' s = s\<lparr>cl_streams := (cl_streams s)(sid (cl_objs s ! o') := None)\<rparr>"

definition cleanupStreams :: "go_error option \<Rightarrow> client \<Rightarrow> client" where
  "cleanupStreams err s =
     s\<lparr>cl_objs := map (\<lambda>o'. if cl_streams s (sid (cl_objs s ! o')) = Some o'
                          then closeWithError err (cl_objs s ! o') else cl_objs s ! o') [0..<length (cl_objs s)],
       cl_streams := Map.empty\<rparr>"

text \<open>The part of \<open>createStream\<close> under \<open>streamLock\<close>, after its test.\<close>

definition add_stream :: "nat \<Rightarrow> client \<Rightarrow> client" where
  "add_stream recvBuf s =
     s\<lparr>cl_objs := cl_objs s @ [newStream (cl_nextStreamID s) recvBuf],
       cl_streams := (cl_streams s)(cl_nextStreamID s \<mapsto> length (cl_objs s)),
       cl_nextStreamID := cl_nextStreamID s + 2\<rparr>"

definition recv_buffer :: "caller \<Rightarrow> nat" where
  "recv_buffer k = (if k_unary k then 1 else 64)"

section \<open>Steps\<close>

definition set_caller :: "nat \<Rightarrow> caller_pc \<Rightarrow> client \<Rightarrow> client" where
  "set_caller k pc s = s\<lparr>cl_callers := (cl_callers s)[k := (cl_callers s ! k)\<lparr>k_pc := pc\<rparr>]\<rparr>"

definition k_failed :: "nat \<Rightarrow> go_error option \<Rightarrow> client \<Rightarrow> client" where
  "k_failed k e s = (set_caller k (KDone (GotErr e)) s)\<lparr>cl_sendLock := None\<rparr>"

datatype wait_pick = WaitCall go_error | WaitConn | WaitRead read_pick

datatype client_event =
    NewCall bool byte bytes
  | CloseClient
  | Lock nat
  | Check nat
  | Register nat
  | Sent nat "go_error option"
  | Wait nat wait_pick
  | UserSend nat byte bytes "go_error option"
  | UserRead nat "go_error option" read_pick bool
  | Delete nat
  | CloseStream nat
  | LoopGuard
  | LoopRecv messageHeader bytes "go_error option"
  | LoopReceive pick
  | RunClose
  | RunCleanup
  | RunCallback
  | RunEnd

text \<open>
  What happens after \<open>c.channel.recv\<close>: a status error belongs to its stream, any other ends the
  loop; a message for a stream that is not in the table is dropped.
\<close>

definition loop_message :: "status_lib \<Rightarrow> messageHeader \<Rightarrow> bytes \<Rightarrow> go_error option \<Rightarrow> client \<Rightarrow> client" where
  "loop_message L mh p err s =
     (if err \<noteq> None \<and> \<not> snd (FromError L err) then s\<lparr>cl_run := LError (filterCloseErr L err)\<rparr>
      else (case getStream (StreamID mh) s of
          None \<Rightarrow> s\<lparr>cl_run := LTop\<rparr>
        | Some o' \<Rightarrow>
            if err \<noteq> None then (close_obj err o' s)\<lparr>cl_run := LTop\<rparr>
            else s\<lparr>cl_run := LReceive RCheck \<lparr>header = mh, payload = p\<rparr> o'\<rparr>))"

definition caller_at :: "client \<Rightarrow> nat \<Rightarrow> caller_pc option" where
  "caller_at s k = (if k < length (cl_callers s) then Some (k_pc (cl_callers s ! k)) else None)"

text \<open>The result of the \<open>select\<close> of \<open>dispatch\<close>.\<close>

definition wait_select :: "wait_pick \<Rightarrow> client \<Rightarrow> stream \<Rightarrow> (read_result \<times> stream) option" where
  "wait_select p s st =
     (case p of
        WaitCall e \<Rightarrow> Some (GotErr (Some e), st)
      | WaitConn \<Rightarrow> if cl_closed s then Some (GotErr (Some ErrClosed), st) else None
      | WaitRead r \<Rightarrow> if r = ReadDone then None else read_select None r st)"

fun client_step :: "status_lib \<Rightarrow> client \<Rightarrow> client_event \<Rightarrow> client option" where
  "client_step L s (NewCall unary flags dat) =
     Some (s\<lparr>cl_callers := cl_callers s @ [\<lparr>k_unary = unary, k_flags = flags, k_data = dat, k_pc = KStart\<rparr>]\<rparr>)"
| "client_step L s CloseClient = Some (client_Close s)"
| "client_step L s (Lock k) =
     (if caller_at s k = Some KStart \<and> cl_sendLock s = None
      then Some ((set_caller k KCheck s)\<lparr>cl_sendLock := Some k\<rparr>) else None)"
| "client_step L s (Check k) =
     (if caller_at s k = Some KCheck
      then Some (if cl_closed s then k_failed k (Some ErrClosed) s else set_caller k KRegister s) else None)"
| "client_step L s (Register k) =
     (if caller_at s k = Some KRegister
      then Some (if cl_closed s then k_failed k (Some ErrClosed) s
                 else set_caller k (KSend (length (cl_objs s))) (add_stream (recv_buffer (cl_callers s ! k)) s))
      else None)"
| "client_step L s (Sent k e) =
     (case caller_at s k of
        Some (KSend o') \<Rightarrow>
          (let c = cl_callers s ! k
           in case (case OversizedMessageError (int (length (bytes_of (k_data c)))) of Some x \<Rightarrow> Some x | None \<Rightarrow> e) of
                Some x \<Rightarrow> Some (k_failed k (filterCloseErr L (Some x)) s)
              | None \<Rightarrow>
                  Some ((set_caller k (if k_unary c then KWait o' else KOpen o') s)
                    \<lparr>cl_sendLock := None,
                     cl_sent := cl_sent s @ [(sid (cl_objs s ! o'), messageTypeRequest, k_flags c, k_data c)],
                     cl_requests := cl_requests s @ [o']\<rparr>))
      | _ \<Rightarrow> None)"
| "client_step L s (Wait k p) =
     (case caller_at s k of
        Some (KWait o') \<Rightarrow>
          (case wait_select p s (cl_objs s ! o') of
             None \<Rightarrow> None
           | Some (r, st) \<Rightarrow> Some (set_caller k (KDelete o' r) (s\<lparr>cl_objs := (cl_objs s)[o' := st]\<rparr>)))
      | _ \<Rightarrow> None)"
| "client_step L s (UserSend k flags p e) =
     (case caller_at s k of
        Some (KOpen o') \<Rightarrow>
          (if cl_sendLock s \<noteq> None then None
           else (case (case OversizedMessageError (int (length (bytes_of p))) of Some x \<Rightarrow> Some x | None \<Rightarrow> e) of
               Some x \<Rightarrow> Some s
             | None \<Rightarrow> Some (s\<lparr>cl_sent := cl_sent s @ [(sid (cl_objs s ! o'), messageTypeData, flags, p)]\<rparr>)))
      | _ \<Rightarrow> None)"
| "client_step L s (UserRead k ctx p del) =
     (case caller_at s k of
        Some (KOpen o') \<Rightarrow>
          (case read_select ctx p (cl_objs s ! o') of
             None \<Rightarrow> None
           | Some (r, st) \<Rightarrow>
               (let s' = s\<lparr>cl_objs := (cl_objs s)[o' := st]\<rparr>
                in Some (if del then set_caller k (KDelete o' r) s' else s')))
      | _ \<Rightarrow> None)"
| "client_step L s (Delete k) =
     (case caller_at s k of
        Some (KDelete o' r) \<Rightarrow> Some (set_caller k (KClose o' r) (delete_entry o' s))
      | _ \<Rightarrow> None)"
| "client_step L s (CloseStream k) =
     (case caller_at s k of
        Some (KClose o' r) \<Rightarrow>
          Some (set_caller k (if k_unary (cl_callers s ! k) then KDone r else KOpen o') (close_obj None o' s))
      | _ \<Rightarrow> None)"
| "client_step L s LoopGuard =
     (if cl_run s \<noteq> LTop then None
      else if cl_closed s then Some (s\<lparr>cl_run := LError (Some ErrClosed)\<rparr>)
      else Some (s\<lparr>cl_run := LRecv\<rparr>))"
| "client_step L s (LoopRecv mh p err) = (if cl_run s = LRecv then Some (loop_message L mh p err s) else None)"
| "client_step L s (LoopReceive p) =
     (case cl_run s of
        LReceive ph msg o' \<Rightarrow>
          (case receive_step (cl_ctx s) p msg ph (cl_objs s ! o') of
             None \<Rightarrow> None
           | Some (ph', st) \<Rightarrow>
               Some (s\<lparr>cl_objs := (cl_objs s)[o' := st],
                       cl_run := (case ph' of RDone e \<Rightarrow> LTop | _ \<Rightarrow> LReceive ph' msg o')\<rparr>))
      | _ \<Rightarrow> None)"
| "client_step L s RunClose =
     (case cl_run s of LError e \<Rightarrow> Some ((client_Close s)\<lparr>cl_run := LClosed e\<rparr>) | _ \<Rightarrow> None)"
| "client_step L s RunCleanup =
     (case cl_run s of LClosed e \<Rightarrow> Some ((cleanupStreams e s)\<lparr>cl_run := LCleaned\<rparr>) | _ \<Rightarrow> None)"
| "client_step L s RunCallback =
     (if cl_run s = LCleaned then Some (s\<lparr>cl_run := LCalled, cl_user_calls := Suc (cl_user_calls s)\<rparr>) else None)"
| "client_step L s RunEnd = (if cl_run s = LCalled then Some (s\<lparr>cl_run := LEnd\<rparr>) else None)"

text \<open>
  \<open>(*Client).UserOnCloseWait\<close>: the branch of its \<open>select\<close> that is taken, when it is ready. \<open>RunEnd\<close>
  closes \<open>userCloseWaitCh\<close>.
\<close>

definition UserOnCloseWait :: "go_error option \<Rightarrow> bool \<Rightarrow> client \<Rightarrow> go_error option option" where
  "UserOnCloseWait ctx wait s =
     (if wait then (if cl_run s = LEnd then Some None else None)
      else (case ctx of Some e \<Rightarrow> Some (Some e) | None \<Rightarrow> None))"

section \<open>What the steps change\<close>

lemma caller_at_set [simp]:
  "caller_at (set_caller k pc s) j = (if j = k \<and> k < length (cl_callers s) then Some pc else caller_at s j)"
  by (auto simp: caller_at_def set_caller_def nth_list_update)

lemma caller_at_Some_less: "caller_at s k = Some pc \<Longrightarrow> k < length (cl_callers s)"
  by (simp add: caller_at_def split: if_splits)

lemma set_caller_fields [simp]:
  "cl_objs (set_caller k pc s) = cl_objs s" "cl_streams (set_caller k pc s) = cl_streams s"
  "cl_nextStreamID (set_caller k pc s) = cl_nextStreamID s" "cl_sendLock (set_caller k pc s) = cl_sendLock s"
  "cl_run (set_caller k pc s) = cl_run s" "cl_sent (set_caller k pc s) = cl_sent s"
  "cl_requests (set_caller k pc s) = cl_requests s" "cl_closed (set_caller k pc s) = cl_closed s"
  "cl_user_calls (set_caller k pc s) = cl_user_calls s"
  by (simp_all add: set_caller_def)

lemma caller_at_cong [simp]:
  "caller_at (s\<lparr>cl_objs := a\<rparr>) k = caller_at s k" "caller_at (s\<lparr>cl_sendLock := b\<rparr>) k = caller_at s k"
  "caller_at (s\<lparr>cl_streams := c\<rparr>) k = caller_at s k" "caller_at (s\<lparr>cl_sent := d\<rparr>) k = caller_at s k"
  "caller_at (s\<lparr>cl_requests := e\<rparr>) k = caller_at s k" "caller_at (s\<lparr>cl_run := f\<rparr>) k = caller_at s k"
  "caller_at (s\<lparr>cl_closed := g\<rparr>) k = caller_at s k" "caller_at (s\<lparr>cl_nextStreamID := h\<rparr>) k = caller_at s k"
  "caller_at (s\<lparr>cl_user_calls := i\<rparr>) k = caller_at s k"
  by (simp_all add: caller_at_def)

lemma caller_at_fun [simp]:
  "caller_at (client_Close s) k = caller_at s k" "caller_at (close_obj e o' s) k = caller_at s k"
  "caller_at (delete_entry o' s) k = caller_at s k" "caller_at (cleanupStreams e s) k = caller_at s k"
  "caller_at (add_stream n s) k = caller_at s k"
  by (simp_all add: client_Close_def close_obj_def delete_entry_def cleanupStreams_def add_stream_def)

lemma callers_fun [simp]:
  "cl_callers (client_Close s) = cl_callers s" "cl_callers (close_obj e o' s) = cl_callers s"
  "cl_callers (delete_entry o' s) = cl_callers s" "cl_callers (cleanupStreams e s) = cl_callers s"
  "cl_callers (add_stream n s) = cl_callers s"
  by (simp_all add: client_Close_def close_obj_def delete_entry_def cleanupStreams_def add_stream_def)

text \<open>A stream object may be filled, drained and closed; it keeps its id and never reopens.\<close>

definition obj_ok :: "stream \<Rightarrow> bool" where
  "obj_ok st \<longleftrightarrow> (closeOnce st \<longleftrightarrow> recvClose st) \<and> (recvClose st \<longleftrightarrow> recvErr st \<noteq> None) \<and> \<not> chan_closed (s_recv st)"

definition obj_le :: "stream \<Rightarrow> stream \<Rightarrow> bool" where
  "obj_le st st' \<longleftrightarrow> sid st' = sid st \<and> (obj_ok st \<longrightarrow> obj_ok st' \<and> (recvClose st \<longrightarrow> recvClose st'))"

lemma obj_le_refl [simp]: "obj_le st st"
  by (simp add: obj_le_def)

lemma obj_le_close [simp]: "obj_le st (closeWithError e st)"
  by (simp add: obj_le_def obj_ok_def closeWithError_def)

lemma obj_le_receive: "receive_step ctx p msg ph st = Some (ph', st') \<Longrightarrow> obj_le st st'"
  by (auto simp: receive_step_def receive_branch_def obj_le_def obj_ok_def closeWithError_def chan_send_Ok_iff
      split: recv_phase.splits pick.splits if_splits outcome.splits option.splits)

lemma obj_le_read: "read_select ctx p st = Some (r, st') \<Longrightarrow> obj_le st st'"
  by (drule read_select_cases) (auto simp: obj_le_def obj_ok_def chan_recv_Some_iff)

lemma obj_le_wait: "wait_select p s st = Some (r, st') \<Longrightarrow> obj_le st st'"
  by (auto simp: wait_select_def dest: obj_le_read split: wait_pick.splits if_splits)

lemma closed_after_close [simp]: "obj_ok st \<Longrightarrow> recvClose (closeWithError e st)"
  by (simp add: obj_ok_def closeWithError_def)

definition objs_le :: "stream list \<Rightarrow> stream list \<Rightarrow> bool" where
  "objs_le xs ys \<longleftrightarrow> length xs \<le> length ys \<and> (\<forall>i < length xs. obj_le (xs ! i) (ys ! i))"

lemma objs_le_refl [simp]: "objs_le xs xs"
  by (simp add: objs_le_def)

lemma objs_le_update: "obj_le (xs ! i) x \<Longrightarrow> objs_le xs (xs[i := x])"
  by (cases "i < length xs") (auto simp: objs_le_def nth_list_update list_update_beyond)

lemma objs_le_append [simp]: "objs_le xs (xs @ ys)"
  by (simp add: objs_le_def nth_append)

lemma cleanup_objs [simp]: "objs_le (cl_objs s) (cl_objs (cleanupStreams e s))"
  by (auto simp: objs_le_def cleanupStreams_def)

text \<open>Every step respects the order on the stream objects.\<close>

lemma client_step_objs: "client_step L s e = Some t \<Longrightarrow> objs_le (cl_objs s) (cl_objs t)"
  by (cases e)
     (auto simp: client_Close_def k_failed_def add_stream_def close_obj_def delete_entry_def loop_message_def Let_def
       intro!: objs_le_update intro: obj_le_wait obj_le_read obj_le_receive
       split: if_splits option.splits caller_pc.splits run_pc.splits prod.splits)

definition client_le :: "client \<Rightarrow> client \<Rightarrow> bool" where
  "client_le s t \<longleftrightarrow> (cl_closed s \<longrightarrow> cl_closed t) \<and> length (cl_objs s) \<le> length (cl_objs t) \<and>
     (\<exists>fs. cl_sent t = cl_sent s @ fs)"

lemma client_le_step: "client_step L s e = Some t \<Longrightarrow> client_le s t"
  by (cases e)
     (auto simp: client_le_def client_Close_def k_failed_def add_stream_def close_obj_def delete_entry_def
       loop_message_def cleanupStreams_def Let_def
       split: if_splits option.splits caller_pc.splits run_pc.splits prod.splits)

interpretation client_mono: step_monotone "client_step L" client_le for L
  by unfold_locales (auto simp: client_le_step, auto simp: client_le_def)

end
