(* ===== verification/ClientRuns.thy ===== *)
theory ClientRuns
  imports Client
begin

text \<open>
  The runs of the client connection of theory \<open>Client\<close>: the invariants of \<open>sendLock\<close> and of the ids,
  of the table of streams and of the messages in flight, the measure of the calls, and the
  properties that rest on them.
\<close>

section \<open>Order of the requests\<close>

text \<open>
  \<open>sendLock\<close> is held exactly by the caller inside \<open>createStream\<close>; stream \<open>i\<close> has the id
  \<open>2 * i + 1\<close> (as 32 bits); requests are written in the order of their streams.
\<close>

definition in_create :: "caller_pc option \<Rightarrow> bool" where
  "in_create pc = (case pc of Some KCheck \<Rightarrow> True | Some KRegister \<Rightarrow> True | Some (KSend _) \<Rightarrow> True | _ \<Rightarrow> False)"

lemma in_create_simps [simp]:
  "\<not> in_create None" "\<not> in_create (Some KStart)" "in_create (Some KCheck)" "in_create (Some KRegister)"
  "in_create (Some (KSend o'))" "\<not> in_create (Some (KWait o'))" "\<not> in_create (Some (KOpen o'))"
  "\<not> in_create (Some (KDelete o' r))" "\<not> in_create (Some (KClose o' r))" "\<not> in_create (Some (KDone r))"
  by (simp_all add: in_create_def)

definition lock_inv :: "client \<Rightarrow> bool" where [inv_defs]:
  "lock_inv s \<longleftrightarrow> (\<forall>k. in_create (caller_at s k) \<longleftrightarrow> cl_sendLock s = Some k)"

lemma lock_inv_init: "lock_inv client0"
  by (simp add: lock_inv_def client0_def caller_at_def)

lemma lock_inv_step:
  assumes inv: "lock_inv s" and st: "client_step L s e = Some t"
  shows "lock_inv t"
proof (cases e)
  case (NewCall u f d)
  with st have "caller_at t k = (if k = length (cl_callers s) then Some KStart else caller_at s k)"
    "cl_sendLock t = cl_sendLock s" for k
    by (auto simp: caller_at_def nth_append)
  moreover have "caller_at s (length (cl_callers s)) = None" by (simp add: caller_at_def)
  ultimately show ?thesis using inv unfolding lock_inv_def by (metis in_create_simps(1,2))
next
  case (LoopRecv mh p err)
  with inv st show ?thesis
    by (auto simp: lock_inv_def loop_message_def close_obj_def split: if_splits option.splits)
qed (use inv st caller_at_Some_less in \<open>force simp: lock_inv_def k_failed_def add_stream_def client_Close_def close_obj_def
    delete_entry_def cleanupStreams_def Let_def split: if_splits option.splits caller_pc.splits run_pc.splits prod.splits\<close>)+


definition stream_id :: "nat \<Rightarrow> u32" where
  "stream_id i = of_nat (2 * i + 1)"

definition ids_ok :: "client \<Rightarrow> bool" where [inv_defs]:
  "ids_ok s \<longleftrightarrow> cl_nextStreamID s = stream_id (length (cl_objs s)) \<and>
     (\<forall>i < length (cl_objs s). sid (cl_objs s ! i) = stream_id i)"

lemma ids_ok_init: "ids_ok client0"
  by (simp add: ids_ok_def client0_def stream_id_def)

text \<open>Only \<open>Register\<close> makes streams.\<close>

lemma client_step_length:
  assumes "client_step L s e = Some t"
  shows "(length (cl_objs t) = length (cl_objs s) \<and> cl_nextStreamID t = cl_nextStreamID s) \<or>
    (\<exists>k n. e = Register k \<and> caller_at s k = Some KRegister \<and> \<not> cl_closed s \<and>
       t = set_caller k (KSend (length (cl_objs s))) (add_stream n s))"
  using assms
  by (cases e)
     (auto simp: client_Close_def k_failed_def close_obj_def delete_entry_def loop_message_def cleanupStreams_def Let_def
       split: if_splits option.splits caller_pc.splits run_pc.splits prod.splits)

lemma ids_ok_step:
  assumes inv: "ids_ok s" and st: "client_step L s e = Some t"
  shows "ids_ok t"
  using client_step_length [OF st]
proof (elim disjE exE conjE)
  assume len: "length (cl_objs t) = length (cl_objs s)" "cl_nextStreamID t = cl_nextStreamID s"
  have "sid (cl_objs t ! i) = stream_id i" if "i < length (cl_objs s)" for i
    using client_step_objs [OF st] that inv by (simp add: objs_le_def obj_le_def ids_ok_def)
  with inv len show ?thesis by (simp add: ids_ok_def)
next
  fix k n assume "t = set_caller k (KSend (length (cl_objs s))) (add_stream n s)"
  with inv show ?thesis
    by (auto simp: ids_ok_def add_stream_def stream_id_def nth_append newStream_def less_Suc_eq)
qed

definition req_inv :: "client \<Rightarrow> bool" where [inv_defs]:
  "req_inv s \<longleftrightarrow> lock_inv s \<and> ids_ok s \<and>
     sorted_wrt (<) (cl_requests s) \<and> (\<forall>r \<in> set (cl_requests s). r < length (cl_objs s)) \<and>
     (\<forall>k o'. caller_at s k = Some (KSend o') \<longrightarrow> o' < length (cl_objs s) \<and> (\<forall>r \<in> set (cl_requests s). r < o')) \<and>
     map fst (filter (\<lambda>f. fst (snd f) = messageTypeRequest) (cl_sent s)) = map stream_id (cl_requests s)"

lemma req_inv_init: "req_inv client0"
  using lock_inv_init ids_ok_init by (simp add: req_inv_def) (simp add: client0_def caller_at_def)

lemma req_invD:
  assumes "req_inv s"
  shows "lock_inv s" "ids_ok s" "sorted_wrt (<) (cl_requests s)" "\<forall>r \<in> set (cl_requests s). r < length (cl_objs s)"
    "caller_at s k = Some (KSend o') \<Longrightarrow> o' < length (cl_objs s) \<and> (\<forall>r \<in> set (cl_requests s). r < o')"
    "map fst (filter (\<lambda>f. fst (snd f) = messageTypeRequest) (cl_sent s)) = map stream_id (cl_requests s)"
  using assms unfolding req_inv_def by blast+

text \<open>Steps that write no request.\<close>

definition sends_nothing :: "client \<Rightarrow> client \<Rightarrow> bool" where
  "sends_nothing s t \<longleftrightarrow> cl_requests t = cl_requests s \<and>
     filter (\<lambda>f. fst (snd f) = messageTypeRequest) (cl_sent t) = filter (\<lambda>f. fst (snd f) = messageTypeRequest) (cl_sent s) \<and>
     (\<forall>k o'. caller_at t k = Some (KSend o') \<longrightarrow> caller_at s k = Some (KSend o'))"

lemma client_step_sends:
  assumes "client_step L s e = Some t"
  shows "sends_nothing s t \<or> (\<exists>k. e = Register k) \<or> (\<exists>k x. e = Sent k x)"
proof (cases e)
  case (NewCall u f d)
  with assms show ?thesis by (auto simp: sends_nothing_def caller_at_def nth_append split: if_splits)
next
  case (LoopRecv mh p err)
  with assms show ?thesis
    by (auto simp: sends_nothing_def loop_message_def close_obj_def split: if_splits option.splits)
next
  case (UserSend k f p x)
  with assms show ?thesis
    by (auto simp: sends_nothing_def messageTypeRequest_def messageTypeData_def split: if_splits option.splits caller_pc.splits)
qed (use assms in \<open>force simp: sends_nothing_def k_failed_def client_Close_def close_obj_def
    delete_entry_def cleanupStreams_def Let_def split: if_splits option.splits caller_pc.splits run_pc.splits prod.splits\<close>)+

lemma req_inv_step:
  assumes inv: "req_inv s" and st: "client_step L s e = Some t"
  shows "req_inv t"
proof -
  note D = req_invD [OF inv]
  have lock: "lock_inv t" by (rule lock_inv_step [OF D(1) st])
  have ids: "ids_ok t" by (rule ids_ok_step [OF D(2) st])
  consider (none) "sends_nothing s t" | (reg) k where "e = Register k" | (sent) k x where "e = Sent k x"
    using client_step_sends [OF st] by blast
  then show ?thesis
  proof cases
    case none
    have "length (cl_objs s) \<le> length (cl_objs t)" using client_step_objs [OF st] by (simp add: objs_le_def)
    with none D lock ids show ?thesis
      unfolding req_inv_def sends_nothing_def by (metis order.strict_trans2)
  next
    case (reg k)
    show ?thesis
    proof (cases "cl_closed s")
      case True
      with reg st have "t = k_failed k (Some ErrClosed) s" by (auto split: if_splits)
      with D lock ids show ?thesis by (auto simp: req_inv_def k_failed_def split: if_splits)
    next
      case False
      with reg st have t: "t = set_caller k (KSend (length (cl_objs s))) (add_stream (recv_buffer (cl_callers s ! k)) s)"
        by (auto split: if_splits)
      have "caller_at s j \<noteq> Some (KSend o')" if "j \<noteq> k" for j o'
      proof -
        have "caller_at s k = Some KRegister" using reg st by (auto split: if_splits)
        with D(1) have "cl_sendLock s = Some k" by (simp add: lock_inv_def) (metis in_create_simps(4))
        with D(1) that show ?thesis unfolding lock_inv_def by (metis in_create_simps(5) option.inject)
      qed
      with D lock ids show ?thesis
        by (auto simp: req_inv_def t add_stream_def less_Suc_eq split: if_splits)
    qed
  next
    case (sent k x)
    then obtain o' where pc: "caller_at s k = Some (KSend o')" using st by (auto split: option.splits caller_pc.splits)
    have others: "caller_at s j \<noteq> Some (KSend o'')" if "j \<noteq> k" for j o''
      using D(1) pc that unfolding lock_inv_def by (metis in_create_simps(5) option.inject)
    note o' = D(5) [OF pc]
    let ?out = "case OversizedMessageError (int (length (bytes_of (k_data (cl_callers s ! k))))) of Some x \<Rightarrow> Some x | None \<Rightarrow> x"
    show ?thesis
    proof (cases ?out)
      case (Some y)
      with sent st pc have "t = k_failed k (filterCloseErr L (Some y)) s" by (simp add: Let_def)
      with D lock ids others show ?thesis by (auto simp: req_inv_def k_failed_def split: if_splits)
    next
      case None
      let ?c = "cl_callers s ! k"
      have t: "t = (set_caller k (if k_unary ?c then KWait o' else KOpen o') s)
            \<lparr>cl_sendLock := None,
             cl_sent := cl_sent s @ [(sid (cl_objs s ! o'), messageTypeRequest, k_flags ?c, k_data ?c)],
             cl_requests := cl_requests s @ [o']\<rparr>"
        using sent st pc None by (simp add: Let_def)
      have "sid (cl_objs s ! o') = stream_id o'" using D(2) o' by (simp add: ids_ok_def)
      with D(3,4,6) lock ids others o' caller_at_Some_less [OF pc] show ?thesis
        unfolding req_inv_def by (auto simp: t sorted_wrt_append split: if_splits)
    qed
  qed
qed

interpretation client_req: step_invariant "client_step L" req_inv for L
  by unfold_locales (rule req_inv_step)


section \<open>The end of the connection\<close>

text \<open>The goroutine of \<open>run\<close> has called \<open>Close\<close>, and \<open>cleanupStreams\<close>.\<close>

definition run_closed :: "run_pc \<Rightarrow> bool" where
  "run_closed pc = (case pc of LClosed _ \<Rightarrow> True | LCleaned \<Rightarrow> True | LCalled \<Rightarrow> True | LEnd \<Rightarrow> True | _ \<Rightarrow> False)"

definition run_cleaned :: "run_pc \<Rightarrow> bool" where
  "run_cleaned pc = (case pc of LCleaned \<Rightarrow> True | LCalled \<Rightarrow> True | LEnd \<Rightarrow> True | _ \<Rightarrow> False)"

lemma run_closed_simps [simp]:
  "\<not> run_closed LTop" "\<not> run_closed LRecv" "\<not> run_closed (LReceive ph m o')" "\<not> run_closed (LError e)"
  "run_closed (LClosed e)" "run_closed LCleaned" "run_closed LCalled" "run_closed LEnd"
  "\<not> run_cleaned LTop" "\<not> run_cleaned LRecv" "\<not> run_cleaned (LReceive ph m o')" "\<not> run_cleaned (LError e)"
  "\<not> run_cleaned (LClosed e)" "run_cleaned LCleaned" "run_cleaned LCalled" "run_cleaned LEnd"
  by (simp_all add: run_closed_def run_cleaned_def)

definition end_ok :: "client \<Rightarrow> bool" where [inv_defs]:
  "end_ok s \<longleftrightarrow>
     (run_closed (cl_run s) \<longrightarrow> cl_closed s) \<and> (run_cleaned (cl_run s) \<longrightarrow> cl_streams s = Map.empty) \<and>
     cl_user_calls s = (if cl_run s = LCalled \<or> cl_run s = LEnd then 1 else 0)"

lemma end_ok_init: "end_ok client0"
  by (simp add: end_ok_def client0_def)

text \<open>A step of a caller leaves the goroutine of \<open>run\<close> alone, and adds streams only while open.\<close>

lemma end_ok_cong:
  assumes "end_ok s" "cl_run t = cl_run s" "cl_closed s \<longrightarrow> cl_closed t" "cl_user_calls t = cl_user_calls s"
    and "cl_closed s \<longrightarrow> cl_streams s = Map.empty \<longrightarrow> cl_streams t = Map.empty"
  shows "end_ok t"
  using assms by (cases "cl_run s") (auto simp: end_ok_def)

lemma end_ok_step:
  assumes inv: "end_ok s" and st: "client_step L s e = Some t"
  shows "end_ok t"
proof (cases e)
  case LoopGuard
  with inv st show ?thesis by (auto simp: end_ok_def split: if_splits)
next
  case (LoopRecv mh p err)
  with inv st show ?thesis by (auto simp: end_ok_def loop_message_def close_obj_def split: if_splits option.splits)
next
  case (LoopReceive p)
  then obtain ph m o' ph' x where "cl_run s = LReceive ph m o'"
    "t = s\<lparr>cl_objs := (cl_objs s)[o' := x], cl_run := (case ph' of RDone e \<Rightarrow> LTop | _ \<Rightarrow> LReceive ph' m o')\<rparr>"
    using st by (auto split: run_pc.splits option.splits prod.splits)
  with inv show ?thesis by (cases ph') (auto simp: end_ok_def)
next
  case RunClose
  with inv st show ?thesis by (auto simp: end_ok_def client_Close_def split: run_pc.splits)
next
  case RunCleanup
  with inv st show ?thesis by (auto simp: end_ok_def cleanupStreams_def split: run_pc.splits)
next
  case RunCallback
  with inv st show ?thesis by (auto simp: end_ok_def split: if_splits)
next
  case RunEnd
  with inv st show ?thesis by (auto simp: end_ok_def split: if_splits)
qed (rule end_ok_cong [OF inv]; use st in \<open>auto simp: client_Close_def k_failed_def close_obj_def delete_entry_def
    add_stream_def Let_def split: if_splits option.splits caller_pc.splits prod.splits\<close>)+

text \<open>
  While fewer than \<open>2 ^ 31\<close> streams have been made, ids are not reused. Then every stream is in the
  table under its id, or it is closed, or its caller is about to close it.
\<close>

definition few_streams :: "client \<Rightarrow> bool" where
  "few_streams s \<longleftrightarrow> length (cl_objs s) \<le> 2 ^ 31"

lemma unat_stream_id: "i < 2 ^ 31 \<Longrightarrow> unat (stream_id i) = 2 * i + 1"
  unfolding stream_id_def unat_of_nat by simp

lemma stream_id_inject:
  assumes "i < 2 ^ 31" "j < 2 ^ 31" "stream_id i = stream_id j"
  shows "i = j"
proof -
  have "2 * i + 1 = 2 * j + 1"
    unfolding unat_stream_id [OF assms(1), symmetric] unat_stream_id [OF assms(2), symmetric] assms(3) ..
  then show ?thesis by simp
qed

definition about_to_close :: "client \<Rightarrow> nat \<Rightarrow> bool" where
  "about_to_close s o' \<longleftrightarrow> (\<exists>k r. caller_at s k = Some (KClose o' r))"

definition refs_of :: "caller_pc \<Rightarrow> nat option" where
  "refs_of pc = (case pc of KSend o' \<Rightarrow> Some o' | KWait o' \<Rightarrow> Some o' | KOpen o' \<Rightarrow> Some o' |
     KDelete o' _ \<Rightarrow> Some o' | KClose o' _ \<Rightarrow> Some o' | _ \<Rightarrow> None)"

definition caller_ref :: "client \<Rightarrow> nat \<Rightarrow> nat option" where
  "caller_ref s k = Option.bind (caller_at s k) refs_of"

lemma refs_of_simps [simp]:
  "refs_of KStart = None" "refs_of KCheck = None" "refs_of KRegister = None" "refs_of (KDone r) = None"
  "refs_of (KSend o') = Some o'" "refs_of (KWait o') = Some o'" "refs_of (KOpen o') = Some o'"
  "refs_of (KDelete o' r) = Some o'" "refs_of (KClose o' r) = Some o'"
  by (simp_all add: refs_of_def)

definition refs_ok :: "client \<Rightarrow> bool" where [inv_defs]:
  "refs_ok s \<longleftrightarrow>
     (\<forall>k o'. caller_ref s k = Some o' \<longrightarrow> o' < length (cl_objs s)) \<and>
     (\<forall>i o'. cl_streams s i = Some o' \<longrightarrow> o' < length (cl_objs s)) \<and>
     (\<forall>ph m o'. cl_run s = LReceive ph m o' \<longrightarrow> o' < length (cl_objs s)) \<and>
     (\<forall>st \<in> set (cl_objs s). obj_ok st)"

lemma refs_ok_init: "refs_ok client0"
  by (simp add: refs_ok_def client0_def caller_at_def caller_ref_def)

lemma objs_le_ok: "objs_le xs ys \<Longrightarrow> (\<forall>st \<in> set xs. obj_ok st) \<Longrightarrow> length ys = length xs \<Longrightarrow> \<forall>st \<in> set ys. obj_ok st"
  by (simp add: objs_le_def obj_le_def all_set_conv_all_nth)

lemma client_step_caller_ref:
  assumes "client_step L s e = Some t" "length (cl_objs t) = length (cl_objs s)" "caller_ref t k = Some o'"
  shows "caller_ref s k = Some o'"
proof (cases e)
  case (NewCall u f d)
  with assms show ?thesis by (auto simp: caller_ref_def caller_at_def nth_append split: if_splits)
next
  case (LoopRecv mh p err)
  with assms show ?thesis
    by (auto simp: caller_ref_def loop_message_def close_obj_def split: if_splits option.splits)
next
  case (Register j)
  with assms show ?thesis
    by (auto simp: caller_ref_def k_failed_def add_stream_def split: if_splits)
qed (use assms in \<open>auto simp: caller_ref_def k_failed_def client_Close_def close_obj_def
    delete_entry_def cleanupStreams_def Let_def split: if_splits option.splits caller_pc.splits run_pc.splits prod.splits\<close>)

lemma client_step_streams:
  assumes "client_step L s e = Some t" "length (cl_objs t) = length (cl_objs s)" "cl_streams t i = Some o'"
  shows "cl_streams s i = Some o'"
  using assms
  by (cases e)
     (auto simp: k_failed_def client_Close_def close_obj_def loop_message_def add_stream_def
      delete_entry_def cleanupStreams_def Let_def split: if_splits option.splits caller_pc.splits run_pc.splits prod.splits)

lemma client_step_receiving:
  assumes "client_step L s e = Some t" "cl_run t = LReceive ph m o'"
  shows "(\<exists>ph' m'. cl_run s = LReceive ph' m' o') \<or> (\<exists>i. cl_streams s i = Some o')"
  using assms
  by (cases e)
     (auto simp: k_failed_def client_Close_def close_obj_def loop_message_def add_stream_def getStream_def
      delete_entry_def cleanupStreams_def Let_def
      split: if_splits option.splits caller_pc.splits run_pc.splits prod.splits recv_phase.splits)

lemma refs_ok_step:
  assumes inv: "refs_ok s" and st: "client_step L s e = Some t"
  shows "refs_ok t"
  using client_step_length [OF st]
proof (elim disjE exE conjE)
  assume len: "length (cl_objs t) = length (cl_objs s)"
  have "\<forall>x \<in> set (cl_objs t). obj_ok x"
    using objs_le_ok [OF client_step_objs [OF st] _ len] inv by (simp add: refs_ok_def)
  moreover have "o' < length (cl_objs t)" if "caller_ref t k = Some o'" for k o'
    using client_step_caller_ref [OF st len that] inv by (simp add: refs_ok_def len)
  moreover have "o' < length (cl_objs t)" if "cl_streams t i = Some o'" for i o'
    using client_step_streams [OF st len that] inv by (simp add: refs_ok_def len)
  moreover have "o' < length (cl_objs t)" if "cl_run t = LReceive ph m o'" for ph m o'
    using client_step_receiving [OF st that] inv by (auto simp: refs_ok_def len)
  ultimately show ?thesis by (simp add: refs_ok_def)
next
  fix k n assume t: "t = set_caller k (KSend (length (cl_objs s))) (add_stream n s)"
  have "obj_ok (newStream i n)" for i by (simp add: obj_ok_def newStream_def)
  with inv show ?thesis
    by (auto simp: refs_ok_def t add_stream_def caller_ref_def less_Suc_eq split: if_splits)
qed

lemma refs_ok_callerD:
  assumes "refs_ok s" "caller_at s k = Some pc" "refs_of pc = Some o'"
  shows "o' < length (cl_objs s)"
proof -
  have "caller_ref s k = Some o'" by (simp add: caller_ref_def assms)
  with assms(1) show ?thesis by (simp add: refs_ok_def)
qed

text \<open>A stream is closed, in the table, or its caller is about to close it.\<close>

definition tracked_obj :: "client \<Rightarrow> nat \<Rightarrow> bool" where
  "tracked_obj s o' \<longleftrightarrow> recvClose (cl_objs s ! o') \<or> cl_streams s (stream_id o') = Some o' \<or> about_to_close s o'"

definition tracked :: "client \<Rightarrow> bool" where [inv_defs]:
  "tracked s \<longleftrightarrow> refs_ok s \<and> ids_ok s \<and>
     (few_streams s \<longrightarrow> (\<forall>o' < length (cl_objs s). tracked_obj s o'))"

lemma tracked_init: "tracked client0"
  using refs_ok_init ids_ok_init by (simp add: tracked_def) (simp add: client0_def)

lemma client_step_closing:
  assumes "client_step L s e = Some t" "caller_at s j = Some (KClose o' r)" "e \<noteq> CloseStream j"
  shows "caller_at t j = Some (KClose o' r)"
proof (cases e)
  case (NewCall u f d)
  with assms show ?thesis by (auto simp: caller_at_def nth_append split: if_splits)
next
  case (LoopRecv mh p err)
  with assms show ?thesis by (auto simp: loop_message_def close_obj_def split: if_splits option.splits)
qed (use assms in \<open>auto simp: k_failed_def Let_def split: if_splits option.splits caller_pc.splits run_pc.splits prod.splits\<close>)

lemma client_step_table:
  assumes "client_step L s e = Some t"
    and "\<And>k. e \<noteq> Delete k" "\<And>k. e \<noteq> Register k" "e \<noteq> RunCleanup"
  shows "cl_streams t = cl_streams s"
proof (cases e)
  case (LoopRecv mh p err)
  with assms show ?thesis by (auto simp: loop_message_def close_obj_def split: if_splits option.splits)
qed (use assms in \<open>auto simp: k_failed_def client_Close_def close_obj_def Let_def
     split: if_splits option.splits caller_pc.splits run_pc.splits prod.splits\<close>)

lemma objs_le_closed:
  "objs_le xs ys \<Longrightarrow> \<forall>st \<in> set xs. obj_ok st \<Longrightarrow> i < length xs \<Longrightarrow> recvClose (xs ! i) \<Longrightarrow> recvClose (ys ! i)"
  by (simp add: objs_le_def obj_le_def)

lemma tracked_closing:
  assumes j: "caller_at s j = Some (KClose o' r)" and ok: "refs_ok s" and st: "client_step L s e = Some t"
  shows "tracked_obj t o'"
proof (cases "e = CloseStream j")
  case True
  have "o' < length (cl_objs s)" by (rule refs_ok_callerD [OF ok j]) simp
  with True st j ok have "recvClose (cl_objs t ! o')"
    by (auto simp: close_obj_def refs_ok_def split: if_splits)
  then show ?thesis by (simp add: tracked_obj_def)
next
  case False
  from client_step_closing [OF st j False] show ?thesis by (auto simp: tracked_obj_def about_to_close_def)
qed

lemma tracked_deleted:
  assumes inv: "refs_ok s" "ids_ok s" and few: "few_streams s" and o': "o' < length (cl_objs s)"
    and st: "client_step L s (Delete k) = Some t" and tab: "cl_streams s (stream_id o') = Some o'"
  shows "tracked_obj t o'"
proof -
  from st obtain d r where d: "caller_at s k = Some (KDelete d r)" "t = set_caller k (KClose d r) (delete_entry d s)"
    by (auto split: option.splits caller_pc.splits)
  have less: "d < length (cl_objs s)" by (rule refs_ok_callerD [OF inv(1) d(1)]) simp
  then have "sid (cl_objs s ! d) = stream_id d" using inv(2) by (simp add: ids_ok_def)
  moreover have "about_to_close t d" using d caller_at_Some_less [OF d(1)] by (auto simp: about_to_close_def)
  moreover have "stream_id o' = stream_id d \<Longrightarrow> o' = d"
    using stream_id_inject o' less few unfolding few_streams_def by (meson order.strict_trans2)
  ultimately show ?thesis using tab d(2) by (auto simp: tracked_obj_def delete_entry_def)
qed

lemma tracked_registered:
  assumes ids: "ids_ok s" and few: "few_streams t" and o': "o' < length (cl_objs s)"
    and st: "client_step L s (Register k) = Some t" and tab: "cl_streams s (stream_id o') = Some o'"
  shows "tracked_obj t o'"
proof (cases "cl_closed s")
  case True
  with st tab show ?thesis by (auto simp: tracked_obj_def k_failed_def split: if_splits)
next
  case False
  with st obtain n where t: "t = set_caller k (KSend (length (cl_objs s))) (add_stream n s)"
    by (auto split: if_splits)
  have "length (cl_objs s) < 2 ^ 31" using few by (simp add: t few_streams_def add_stream_def)
  then have "stream_id o' \<noteq> stream_id (length (cl_objs s))"
    using stream_id_inject o' by (metis less_irrefl order.strict_trans)
  with tab ids show ?thesis by (simp add: tracked_obj_def t add_stream_def ids_ok_def)
qed

lemma tracked_table:
  assumes inv: "refs_ok s" "ids_ok s" and few: "few_streams s" "few_streams t" and o': "o' < length (cl_objs s)"
    and st: "client_step L s e = Some t" and tab: "cl_streams s (stream_id o') = Some o'"
  shows "tracked_obj t o'"
proof -
  consider (del) k where "e = Delete k" | (reg) k where "e = Register k" | (clean) "e = RunCleanup"
    | (other) "cl_streams t = cl_streams s"
    using client_step_table [OF st] by blast
  then show ?thesis
  proof cases
    case (del k)
    with tracked_deleted [OF inv few(1) o' _ tab] st show ?thesis by blast
  next
    case (reg k)
    with tracked_registered [OF inv(2) few(2) o' _ tab] st show ?thesis by blast
  next
    case clean
    have "sid (cl_objs s ! o') = stream_id o'" using inv(2) o' by (simp add: ids_ok_def)
    with clean st tab o' inv(1) show ?thesis
      by (auto simp: tracked_obj_def cleanupStreams_def refs_ok_def split: run_pc.splits)
  next
    case other
    with tab show ?thesis by (simp add: tracked_obj_def)
  qed
qed

lemma tracked_step:
  assumes inv: "tracked s" and st: "client_step L s e = Some t"
  shows "tracked t"
proof -
  have refs: "refs_ok t" "refs_ok s" and ids: "ids_ok t" "ids_ok s"
    using refs_ok_step [OF _ st] ids_ok_step [OF _ st] inv by (simp_all add: tracked_def)
  note le = client_step_objs [OF st]
  have "tracked_obj t o'" if few: "few_streams t" and o': "o' < length (cl_objs t)" for o'
  proof (cases "o' < length (cl_objs s)")
    case False
    with client_step_length [OF st] o' obtain k n where
      t: "t = set_caller k (KSend (length (cl_objs s))) (add_stream n s)" by auto
    with False o' have "o' = length (cl_objs s)" by (simp add: add_stream_def)
    with ids(2) show ?thesis by (simp add: tracked_obj_def t add_stream_def ids_ok_def)
  next
    case True
    have few_s: "few_streams s" using few le by (simp add: few_streams_def objs_le_def)
    with inv True consider "recvClose (cl_objs s ! o')" | "cl_streams s (stream_id o') = Some o'" | "about_to_close s o'"
      by (auto simp: tracked_def tracked_obj_def)
    then show ?thesis
    proof cases
      case 1
      then show ?thesis using objs_le_closed [OF le _ True] refs(2) by (simp add: tracked_obj_def refs_ok_def)
    next
      case 2
      then show ?thesis by (rule tracked_table [OF refs(2) ids(2) few_s few True st])
    next
      case 3
      then show ?thesis using tracked_closing [OF _ refs(2) st] by (auto simp: about_to_close_def)
    qed
  qed
  with refs ids show ?thesis by (simp add: tracked_def)
qed

interpretation client_tracked: step_invariant "client_step L" tracked for L
  by unfold_locales (rule tracked_step)

interpretation client_end_ok: step_invariant "client_step L" end_ok for L
  by unfold_locales (rule end_ok_step)


section \<open>Messages reach their stream\<close>

text \<open>\<open>Q\<close> is any further law of the messages that arrive.\<close>

definition own_messages :: "(streamMessage \<Rightarrow> bool) \<Rightarrow> stream \<Rightarrow> bool" where
  "own_messages Q st \<longleftrightarrow> (\<forall>m \<in> set (buf (s_recv st)). StreamID (header m) = sid st \<and> Q m)"

definition own_result :: "(streamMessage \<Rightarrow> bool) \<Rightarrow> client \<Rightarrow> caller_pc \<Rightarrow> bool" where
  "own_result Q s pc \<longleftrightarrow> (case pc of
     KDelete o' (GotMsg m) \<Rightarrow> StreamID (header m) = sid (cl_objs s ! o') \<and> Q m
   | KClose o' (GotMsg m) \<Rightarrow> StreamID (header m) = sid (cl_objs s ! o') \<and> Q m
   | _ \<Rightarrow> True)"

definition routed :: "(streamMessage \<Rightarrow> bool) \<Rightarrow> client \<Rightarrow> bool" where [inv_defs]:
  "routed Q s \<longleftrightarrow> refs_ok s \<and>
     (\<forall>st \<in> set (cl_objs s). own_messages Q st) \<and>
     (\<forall>i o'. cl_streams s i = Some o' \<longrightarrow> sid (cl_objs s ! o') = i) \<and>
     (\<forall>ph m o'. cl_run s = LReceive ph m o' \<longrightarrow> StreamID (header m) = sid (cl_objs s ! o') \<and> Q m) \<and>
     (\<forall>k pc. caller_at s k = Some pc \<longrightarrow> own_result Q s pc)"

lemma own_messages_close [simp]: "own_messages Q (closeWithError e st) = own_messages Q st"
  by (simp add: own_messages_def)

lemma own_messages_receive:
  "receive_step ctx p msg ph st = Some (ph', st') \<Longrightarrow> own_messages Q st \<Longrightarrow> StreamID (header msg) = sid st \<Longrightarrow> Q msg \<Longrightarrow> own_messages Q st'"
  by (auto simp: receive_step_def receive_branch_def own_messages_def chan_send_Ok_iff
      split: recv_phase.splits pick.splits if_splits outcome.splits option.splits)

lemma own_messages_read:
  "read_select ctx p st = Some (r, st') \<Longrightarrow> own_messages Q st \<Longrightarrow>
   own_messages Q st' \<and> (\<forall>m. r = GotMsg m \<longrightarrow> StreamID (header m) = sid st \<and> Q m)"
  by (drule read_select_cases) (auto simp: own_messages_def chan_recv_Some_iff)

lemma own_messages_wait:
  "wait_select p s st = Some (r, st') \<Longrightarrow> own_messages Q st \<Longrightarrow>
   own_messages Q st' \<and> (\<forall>m. r = GotMsg m \<longrightarrow> StreamID (header m) = sid st \<and> Q m)"
  by (auto simp: wait_select_def dest: own_messages_read split: wait_pick.splits if_splits)

lemma all_set_update: "\<forall>x \<in> set xs. Q x \<Longrightarrow> Q y \<Longrightarrow> \<forall>x \<in> set (xs[i := y]). Q x"
  using set_update_subset_insert by fastforce

lemma routed_objs:
  assumes inv: "routed Q s" and st: "client_step L s e = Some t"
  shows "\<forall>x \<in> set (cl_objs t). own_messages Q x"
proof -
  have own: "\<forall>x \<in> set (cl_objs s). own_messages Q x" and refs: "refs_ok s" using inv by (simp_all add: routed_def)
  have at: "own_messages Q (cl_objs s ! o')" if "o' < length (cl_objs s)" for o' using own that by simp
  show ?thesis
  proof (cases e)
    case (Register k)
    with own st show ?thesis
      by (auto simp: k_failed_def add_stream_def newStream_def own_messages_def split: if_splits)
  next
    case (Wait k p)
    then obtain o' r x where k: "caller_at s k = Some (KWait o')" "wait_select p s (cl_objs s ! o') = Some (r, x)"
      "cl_objs t = (cl_objs s)[o' := x]"
      using st by (auto split: option.splits caller_pc.splits prod.splits)
    then have "o' < length (cl_objs s)" using refs_ok_callerD [OF refs k(1)] by simp
    with own_messages_wait [OF k(2)] at have "own_messages Q x" by simp
    then show ?thesis unfolding k(3) by (rule all_set_update [OF own])
  next
    case (UserRead k c p d)
    then obtain o' r x where k: "caller_at s k = Some (KOpen o')" "read_select c p (cl_objs s ! o') = Some (r, x)"
      "cl_objs t = (cl_objs s)[o' := x]"
      using st by (auto simp: Let_def split: option.splits caller_pc.splits prod.splits if_splits)
    then have "o' < length (cl_objs s)" using refs_ok_callerD [OF refs k(1)] by simp
    with own_messages_read [OF k(2)] at have "own_messages Q x" by simp
    then show ?thesis unfolding k(3) by (rule all_set_update [OF own])
  next
    case (CloseStream k)
    then obtain o' where k: "cl_objs t = (cl_objs s)[o' := closeWithError None (cl_objs s ! o')]" "o' < length (cl_objs s)"
      using st refs_ok_callerD [OF refs] by (auto simp: close_obj_def split: option.splits caller_pc.splits)
    then have "own_messages Q (closeWithError None (cl_objs s ! o'))" using at by simp
    then show ?thesis unfolding k(1) by (rule all_set_update [OF own])
  next
    case (LoopRecv mh p err)
    show ?thesis
    proof (cases "cl_objs t = cl_objs s")
      case False
      with LoopRecv st obtain o' where o': "cl_streams s (StreamID mh) = Some o'"
        and t: "cl_objs t = (cl_objs s)[o' := closeWithError err (cl_objs s ! o')]"
        by (auto simp: loop_message_def close_obj_def getStream_def split: if_splits option.splits)
      have "o' < length (cl_objs s)" using refs o' by (simp add: refs_ok_def)
      then have "own_messages Q (closeWithError err (cl_objs s ! o'))" using at by simp
      then show ?thesis unfolding t by (rule all_set_update [OF own])
    qed (simp add: own)
  next
    case (LoopReceive p)
    then obtain ph m o' ph' x where r: "cl_run s = LReceive ph m o'"
      "receive_step (cl_ctx s) p m ph (cl_objs s ! o') = Some (ph', x)" "cl_objs t = (cl_objs s)[o' := x]"
      using st by (auto split: run_pc.splits option.splits prod.splits)
    then have "o' < length (cl_objs s)" "StreamID (header m) = sid (cl_objs s ! o')" "Q m"
      using refs inv by (auto simp: refs_ok_def routed_def)
    with own_messages_receive [OF r(2)] at have "own_messages Q x" by simp
    then show ?thesis unfolding r(3) by (rule all_set_update [OF own])
  next
    case RunCleanup
    with st own show ?thesis by (auto simp: cleanupStreams_def split: run_pc.splits)
  qed (use st own in \<open>auto simp: k_failed_def client_Close_def delete_entry_def Let_def
      split: if_splits option.splits caller_pc.splits run_pc.splits\<close>)
qed

lemma step_sid:
  "client_step L s e = Some t \<Longrightarrow> o' < length (cl_objs s) \<Longrightarrow> sid (cl_objs t ! o') = sid (cl_objs s ! o')"
  by (drule client_step_objs) (simp add: objs_le_def obj_le_def)

lemma routed_table:
  assumes inv: "routed Q s" and st: "client_step L s e = Some t" and tab: "cl_streams t i = Some o'"
  shows "sid (cl_objs t ! o') = i"
  using client_step_length [OF st]
proof (elim disjE exE conjE)
  assume len: "length (cl_objs t) = length (cl_objs s)"
  have "cl_streams s i = Some o'" by (rule client_step_streams [OF st len tab])
  with inv step_sid [OF st, of o'] show ?thesis by (auto simp: routed_def refs_ok_def)
next
  fix k n assume "t = set_caller k (KSend (length (cl_objs s))) (add_stream n s)"
  with inv tab show ?thesis
    by (auto simp: routed_def refs_ok_def add_stream_def newStream_def nth_append split: if_splits)
qed

lemma routed_receiving:
  assumes inv: "routed Q s" and st: "client_step L s e = Some t" and run: "cl_run t = LReceive ph m o'"
    and new: "\<And>mh p. e = LoopRecv mh p None \<Longrightarrow> Q \<lparr>header = mh, payload = p\<rparr>"
  shows "StreamID (header m) = sid (cl_objs t ! o') \<and> Q m"
proof -
  have refs: "refs_ok s" using inv by (simp add: routed_def)
  have "(\<exists>ph'. cl_run s = LReceive ph' m o') \<or> (Q m \<and> cl_streams s (StreamID (header m)) = Some o')"
    using st run new
    by (cases e) (auto simp: k_failed_def client_Close_def close_obj_def loop_message_def add_stream_def getStream_def
      delete_entry_def cleanupStreams_def Let_def
      split: if_splits option.splits caller_pc.splits run_pc.splits prod.splits recv_phase.splits)
  then have "o' < length (cl_objs s) \<and> StreamID (header m) = sid (cl_objs s ! o') \<and> Q m"
    using inv refs by (auto simp: routed_def refs_ok_def)
  with step_sid [OF st] show ?thesis by simp
qed

lemma client_step_result:
  assumes st: "client_step L s e = Some t" and pc: "caller_at t k = Some pc" "pc = KDelete o' r \<or> pc = KClose o' r"
  shows "caller_at s k = Some pc \<or> (\<exists>p. e = Wait k p) \<or> (\<exists>c p d. e = UserRead k c p d) \<or> e = Delete k"
proof (cases e)
  case (NewCall u f d)
  with assms show ?thesis by (auto simp: caller_at_def nth_append split: if_splits)
next
  case (LoopRecv mh p err)
  with assms show ?thesis by (auto simp: loop_message_def close_obj_def split: if_splits option.splits)
qed (use assms in \<open>auto simp: k_failed_def Let_def split: if_splits option.splits caller_pc.splits run_pc.splits prod.splits\<close>)

lemma routed_callers:
  assumes inv: "routed Q s" and st: "client_step L s e = Some t" and pc: "caller_at t k = Some pc"
  shows "own_result Q t pc"
proof -
  have own: "own_result Q s x" if "caller_at s k = Some x" for x using inv that by (simp add: routed_def)
  have ref: "o' < length (cl_objs s)" if "caller_at s k = Some (KDelete o' r) \<or> caller_at s k = Some (KClose o' r) \<or>
      caller_at s k = Some (KWait o') \<or> caller_at s k = Some (KOpen o')" for o' r
    using inv that refs_ok_callerD [of s k] by (auto simp: routed_def)
  have keep: "own_result Q t pc" if "caller_at s k = Some pc"
    using own [OF that] ref that step_sid [OF st]
    by (cases pc) (auto simp: own_result_def split: read_result.splits)
  have trivial: "own_result Q t pc" if "\<And>o' r. pc \<noteq> KDelete o' r \<and> pc \<noteq> KClose o' r"
    using that by (auto simp: own_result_def split: caller_pc.splits)
  have buf: "own_messages Q (cl_objs s ! o')" if "o' < length (cl_objs s)" for o'
    using inv that by (simp add: routed_def)
  show ?thesis
  proof (cases "caller_at s k = Some pc \<or> (\<forall>o' r. pc \<noteq> KDelete o' r \<and> pc \<noteq> KClose o' r)")
    case True
    with keep trivial show ?thesis by blast
  next
    case False
    then consider (wait) p where "e = Wait k p" | (read) c p d where "e = UserRead k c p d" | (del) "e = Delete k"
      using client_step_result [OF st pc] by blast
    then show ?thesis
    proof cases
      case wait
      then obtain o' r x where k: "caller_at s k = Some (KWait o')" "wait_select p s (cl_objs s ! o') = Some (r, x)"
        "pc = KDelete o' r"
        using st pc by (auto split: option.splits caller_pc.splits prod.splits if_splits dest: caller_at_Some_less)
      with own_messages_wait [OF k(2) buf] ref step_sid [OF st, of o'] show ?thesis
        by (auto simp: own_result_def split: read_result.splits)
    next
      case read
      then obtain o' r x where k: "caller_at s k = Some (KOpen o')" "read_select c p (cl_objs s ! o') = Some (r, x)"
        "pc = KDelete o' r"
        using st pc False by (auto simp: Let_def split: option.splits caller_pc.splits prod.splits if_splits dest: caller_at_Some_less)
      with own_messages_read [OF k(2) buf] ref step_sid [OF st, of o'] show ?thesis
        by (auto simp: own_result_def split: read_result.splits)
    next
      case del
      then obtain o' r where k: "caller_at s k = Some (KDelete o' r)" "pc = KClose o' r"
        using st pc by (auto split: option.splits caller_pc.splits if_splits dest: caller_at_Some_less)
      with own [OF k(1)] ref step_sid [OF st, of o'] show ?thesis
        by (auto simp: own_result_def split: read_result.splits)
    qed
  qed
qed

lemma routed_step:
  assumes "routed Q s" "client_step L s e = Some t"
    and new: "\<And>mh p. e = LoopRecv mh p None \<Longrightarrow> Q \<lparr>header = mh, payload = p\<rparr>"
  shows "routed Q t"
  unfolding routed_def
proof (intro conjI allI impI)
  show "refs_ok t" using refs_ok_step [OF _ assms(2)] assms(1) by (simp add: routed_def)
  show "\<forall>x \<in> set (cl_objs t). own_messages Q x" by (rule routed_objs [OF assms(1,2)])
qed (rule routed_table [OF assms(1,2)] routed_receiving [OF assms(1,2) _ new, THEN conjunct1]
    routed_receiving [OF assms(1,2) _ new, THEN conjunct2] routed_callers [OF assms(1,2)]; assumption)+

lemma routed_init: "routed Q client0"
  using refs_ok_init by (simp add: routed_def) (simp add: client0_def caller_at_def)

interpretation client_routed: step_invariant "client_step L" "routed (\<lambda>_. True)" for L
  by unfold_locales (rule routed_step; simp)

section \<open>Calls end\<close>

text \<open>How many steps a caller has before it returns, or before its stream is open.\<close>

definition caller_rank :: "caller_pc \<Rightarrow> nat" where
  "caller_rank pc = (case pc of KStart \<Rightarrow> 7 | KCheck \<Rightarrow> 6 | KRegister \<Rightarrow> 5 | KSend _ \<Rightarrow> 4 | KWait _ \<Rightarrow> 3 |
     KOpen _ \<Rightarrow> 0 | KDelete _ _ \<Rightarrow> 2 | KClose _ _ \<Rightarrow> 1 | KDone _ \<Rightarrow> 0)"

lemma caller_rank_simps [simp]:
  "caller_rank KStart = 7" "caller_rank KCheck = 6" "caller_rank KRegister = 5" "caller_rank (KSend o') = 4"
  "caller_rank (KWait o') = 3" "caller_rank (KOpen o') = 0" "caller_rank (KDelete o' r) = 2"
  "caller_rank (KClose o' r) = 1" "caller_rank (KDone r) = 0"
  by (simp_all add: caller_rank_def)

lemma callers_set_caller [simp]:
  "cl_callers (set_caller k pc (u\<lparr>cl_objs := a\<rparr>)) = cl_callers (set_caller k pc u)"
  "cl_callers (set_caller k pc (close_obj e o' u)) = cl_callers (set_caller k pc u)"
  "cl_callers (set_caller k pc (delete_entry o' u)) = cl_callers (set_caller k pc u)"
  "cl_callers (set_caller k pc (add_stream n u)) = cl_callers (set_caller k pc u)"
  by (simp_all add: set_caller_def)

text \<open>The steps of \<open>dispatch\<close>, \<open>createStream\<close> and \<open>deleteStream\<close>, by their caller.\<close>

definition caller_of :: "client_event \<Rightarrow> nat option" where
  "caller_of e = (case e of Lock k \<Rightarrow> Some k | Check k \<Rightarrow> Some k | Register k \<Rightarrow> Some k | Sent k _ \<Rightarrow> Some k |
     Wait k _ \<Rightarrow> Some k | Delete k \<Rightarrow> Some k | CloseStream k \<Rightarrow> Some k | _ \<Rightarrow> None)"

text \<open>A step that needs neither the context of the caller nor a message of the peer.\<close>

definition unaided :: "client_event \<Rightarrow> bool" where
  "unaided e \<longleftrightarrow> caller_of e \<noteq> None \<and> (case e of Wait k p \<Rightarrow> p = WaitConn | _ \<Rightarrow> True)"

lemma unaided_simps [simp]:
  "unaided (Lock k)" "unaided (Check k)" "unaided (Register k)" "unaided (Sent k e)" "unaided (Wait k WaitConn)"
  "unaided (Delete k)" "unaided (CloseStream k)"
  by (simp_all add: unaided_def caller_of_def)

definition unary_at :: "client \<Rightarrow> nat \<Rightarrow> bool" where
  "unary_at s k \<longleftrightarrow> k < length (cl_callers s) \<and> k_unary (cl_callers s ! k)"

text \<open>The caller of a unary call never holds an open stream.\<close>

definition unary_inv :: "client \<Rightarrow> bool" where [inv_defs]:
  "unary_inv s \<longleftrightarrow> (\<forall>k o'. unary_at s k \<longrightarrow> caller_at s k \<noteq> Some (KOpen o'))"

lemma unary_inv_init: "unary_inv client0"
  by (simp add: unary_inv_def unary_at_def client0_def)

lemma unary_at_set [simp]:
  "unary_at (set_caller j pc s) k = unary_at s k"
  by (cases "j = k") (auto simp: unary_at_def set_caller_def nth_list_update)

lemma unary_at_cong: "cl_callers t = cl_callers s \<Longrightarrow> unary_at t k = unary_at s k"
  by (simp add: unary_at_def)

lemma caller_at_callers: "cl_callers t = cl_callers s \<Longrightarrow> caller_at t k = caller_at s k"
  by (simp add: caller_at_def)

text \<open>A step either leaves the callers alone, adds one, or moves one of them.\<close>

lemma client_step_callers:
  assumes "client_step L s e = Some t"
  obtains (same) "cl_callers t = cl_callers s" "caller_of e = None"
  | (new) c where "cl_callers t = cl_callers s @ [c]" "k_pc c = KStart" "caller_of e = None"
  | (move) k pc0 pc where "caller_of e = Some k" "caller_at s k = Some pc0" "cl_callers t = cl_callers (set_caller k pc s)"
      "caller_rank pc < caller_rank pc0" "\<And>o'. pc = KOpen o' \<Longrightarrow> \<not> k_unary (cl_callers s ! k)"
      "pc0 \<in> {KStart, KCheck, KRegister} \<Longrightarrow> cl_closed s \<Longrightarrow>
         pc \<in> {KCheck, KRegister, KDone (GotErr (Some ErrClosed))}"
  | (stream) k o' r where "caller_of e = None" "caller_at s k = Some (KOpen o')"
      "cl_callers t = cl_callers (set_caller k (KDelete o' r) s)"
proof (cases e)
  case (Lock k)
  with assms show ?thesis by (intro move [of k KStart KCheck]) (auto simp: caller_of_def split: if_splits)
next
  case (Check k)
  with assms show ?thesis
    by (intro move [of k KCheck "if cl_closed s then KDone (GotErr (Some ErrClosed)) else KRegister"])
      (auto simp: k_failed_def caller_of_def split: if_splits)
next
  case (Register k)
  with assms show ?thesis
    by (intro move [of k KRegister "if cl_closed s then KDone (GotErr (Some ErrClosed)) else KSend (length (cl_objs s))"])
      (auto simp: k_failed_def caller_of_def split: if_splits)
next
  case (Sent k x)
  then obtain o' where pc: "caller_at s k = Some (KSend o')" using assms by (auto split: option.splits caller_pc.splits)
  have "\<exists>pc. cl_callers t = cl_callers (set_caller k pc s) \<and> caller_rank pc < 4 \<and> (\<forall>o'. pc = KOpen o' \<longrightarrow> \<not> k_unary (cl_callers s ! k))"
    using assms Sent pc
    by (cases "k_unary (cl_callers s ! k)")
      (force simp: k_failed_def Let_def split: option.splits)+
  with pc Sent show ?thesis by (auto simp: caller_of_def intro!: move [of k "KSend o'"])
next
  case (Wait k p)
  then obtain o' r x where pc: "caller_at s k = Some (KWait o')"
      "t = set_caller k (KDelete o' r) (s\<lparr>cl_objs := (cl_objs s)[o' := x]\<rparr>)"
    using assms by (auto split: option.splits caller_pc.splits prod.splits)
  with Wait show ?thesis by (intro move [of k "KWait o'" "KDelete o' r"]) (simp_all add: caller_of_def)
next
  case (Delete k)
  then obtain o' r where pc: "caller_at s k = Some (KDelete o' r)" "t = set_caller k (KClose o' r) (delete_entry o' s)"
    using assms by (auto split: option.splits caller_pc.splits)
  with Delete show ?thesis by (intro move [of k "KDelete o' r" "KClose o' r"]) (simp_all add: caller_of_def)
next
  case (CloseStream k)
  then obtain o' r where pc: "caller_at s k = Some (KClose o' r)"
      "t = set_caller k (if k_unary (cl_callers s ! k) then KDone r else KOpen o') (close_obj None o' s)"
    using assms by (auto split: option.splits caller_pc.splits)
  with CloseStream show ?thesis
    by (intro move [of k "KClose o' r" "if k_unary (cl_callers s ! k) then KDone r else KOpen o'"])
      (auto simp: caller_of_def)
next
  case (NewCall u f d)
  with assms show ?thesis by (intro new) (auto simp: caller_of_def)
next
  case (UserRead k ctx p del)
  then obtain o' r x where pc: "caller_at s k = Some (KOpen o')"
      "t = (if del then set_caller k (KDelete o' r) (s\<lparr>cl_objs := x\<rparr>) else s\<lparr>cl_objs := x\<rparr>)"
    using assms by (auto simp: Let_def split: option.splits caller_pc.splits prod.splits)
  show ?thesis
  proof (cases del)
    case True
    with pc UserRead show ?thesis by (intro stream [of k o' r]) (simp_all add: caller_of_def)
  next
    case False
    with pc UserRead show ?thesis by (intro same) (simp_all add: caller_of_def)
  qed
next
  case (LoopRecv mh p err)
  with assms show ?thesis
    by (intro same) (auto simp: caller_of_def loop_message_def split: if_splits option.splits)
qed (rule same; use assms in \<open>auto simp: caller_of_def Let_def
    split: if_splits option.splits caller_pc.splits run_pc.splits prod.splits\<close>)+

lemma client_step_unary_at: "client_step L s e = Some t \<Longrightarrow> unary_at s k \<Longrightarrow> unary_at t k"
  by (erule client_step_callers)
    (use unary_at_set [of _ _ s k] in \<open>auto simp: unary_at_def nth_append\<close>)

lemma unary_inv_step:
  assumes inv: "unary_inv s" and st: "client_step L s e = Some t"
  shows "unary_inv t"
  unfolding unary_inv_def
proof (intro allI impI)
  fix k o' assume k: "unary_at t k"
  show "caller_at t k \<noteq> Some (KOpen o')"
    using st
  proof (cases rule: client_step_callers)
    case same
    with inv k show ?thesis by (simp add: unary_inv_def unary_at_def caller_at_def)
  next
    case (new c)
    with inv k show ?thesis by (cases "k = length (cl_callers s)") (auto simp: unary_inv_def unary_at_def caller_at_def nth_append)
  next
    case (move j pc0 pc)
    have at: "caller_at t k = caller_at (set_caller j pc s) k" by (rule caller_at_callers [OF move(3)])
    have "unary_at (set_caller j pc s) k" using k unary_at_cong [OF move(3)] by blast
    then have "unary_at s k" by simp
    with inv move(5) at show ?thesis by (auto simp: unary_inv_def unary_at_def)
  next
    case (stream j o'' r)
    have at: "caller_at t k = caller_at (set_caller j (KDelete o'' r) s) k" by (rule caller_at_callers [OF stream(3)])
    have "unary_at (set_caller j (KDelete o'' r) s) k" using k unary_at_cong [OF stream(3)] by blast
    then have "unary_at s k" by simp
    with inv at show ?thesis by (auto simp: unary_inv_def)
  qed
qed

interpretation client_unary: step_invariant "client_step L" unary_inv for L
  by unfold_locales (rule unary_inv_step)

text \<open>How many steps a caller has left, and how a step changes that for a unary call.\<close>

definition rank_at :: "client \<Rightarrow> nat \<Rightarrow> nat" where
  "rank_at s k = (case caller_at s k of Some pc \<Rightarrow> caller_rank pc | None \<Rightarrow> 0)"

lemma rank_at_le: "rank_at s k \<le> 7"
  by (auto simp: rank_at_def caller_rank_def split: option.split caller_pc.split)

lemma client_step_rank_at:
  assumes st: "client_step L s e = Some t" and inv: "unary_inv s" and k: "unary_at s k"
  shows "rank_at t k + (if caller_of e = Some k then 1 else 0) \<le> rank_at s k"
  using st
proof (cases rule: client_step_callers)
  case same
  then show ?thesis by (simp add: rank_at_def caller_at_callers [OF same(1)])
next
  case (new c)
  with k show ?thesis by (simp add: rank_at_def caller_at_def unary_at_def nth_append)
next
  case (move j pc0 pc)
  with k show ?thesis by (auto simp: rank_at_def caller_at_callers [OF move(3)] unary_at_def dest: caller_at_Some_less)
next
  case (stream j o' r)
  with inv k have "j \<noteq> k" by (auto simp: unary_inv_def)
  with stream show ?thesis by (simp add: rank_at_def caller_at_callers [OF stream(3)])
qed

lemma client_run_rank_at:
  "run (client_step L) s es = Some t \<Longrightarrow> unary_inv s \<Longrightarrow> unary_at s k \<Longrightarrow>
   length (filter (\<lambda>e. caller_of e = Some k) es) + rank_at t k \<le> rank_at s k"
proof (induction es arbitrary: s)
  case (Cons e es)
  then obtain u where u: "client_step L s e = Some u" "run (client_step L) u es = Some t"
    unfolding run_Cons_Some by blast
  have "length (filter (\<lambda>e. caller_of e = Some k) es) + rank_at t k \<le> rank_at u k"
    using Cons.IH [OF u(2)] unary_inv_step [OF Cons.prems(2) u(1)] client_step_unary_at [OF u(1) Cons.prems(3)] by simp
  with client_step_rank_at [OF u(1) Cons.prems(2,3)] show ?case by (auto split: if_splits)
qed simp

text \<open>A call of a closed client that was not made yet or has not made its stream returns \<open>ErrClosed\<close>.\<close>

definition refused :: "client \<Rightarrow> nat \<Rightarrow> bool" where
  "refused s k \<longleftrightarrow> caller_at s k \<in> {None, Some KStart, Some KCheck, Some KRegister, Some (KDone (GotErr (Some ErrClosed)))}"

lemma refused_step:
  assumes st: "client_step L s e = Some t" and "cl_closed s" "refused s k"
  shows "refused t k"
  using st
proof (cases rule: client_step_callers)
  case same
  with assms(3) show ?thesis by (simp add: refused_def caller_at_callers [OF same(1)])
next
  case (new c)
  with assms(3) show ?thesis by (auto simp: refused_def caller_at_def nth_append split: if_splits)
next
  case (move j pc0 pc)
  show ?thesis
  proof (cases "j = k")
    case True
    with move(2,4) assms(3) have "pc0 \<in> {KStart, KCheck, KRegister}" by (auto simp: refused_def)
    with move(6) assms(2) have "pc \<in> {KCheck, KRegister, KDone (GotErr (Some ErrClosed))}" by blast
    with True move(2) show ?thesis by (auto simp: refused_def caller_at_callers [OF move(3)] dest: caller_at_Some_less)
  next
    case False
    with assms(3) show ?thesis by (simp add: refused_def caller_at_callers [OF move(3)])
  qed
next
  case (stream j o' r)
  with assms(3) have "j \<noteq> k" by (auto simp: refused_def)
  with assms(3) show ?thesis by (simp add: refused_def caller_at_callers [OF stream(3)])
qed

lemma refused_run:
  "run (client_step L) s es = Some t \<Longrightarrow> cl_closed s \<Longrightarrow> refused s k \<Longrightarrow> refused t k"
proof (induction es arbitrary: s)
  case (Cons e es)
  then obtain u where u: "client_step L s e = Some u" "run (client_step L) u es = Some t"
    unfolding run_Cons_Some by blast
  have "cl_closed u" using client_le_step [OF u(1)] Cons.prems(2) by (simp add: client_le_def)
  with Cons.IH [OF u(2)] refused_step [OF u(1) Cons.prems(2,3)] show ?case by simp
qed simp

text \<open>On a closed client a caller that has not returned can go on unaided, or the holder of \<open>sendLock\<close> can.\<close>

lemma client_step_unaided:
  assumes lock: "lock_inv s" and closed: "cl_closed s" and k: "caller_at s k = Some pc" and pc: "caller_rank pc > 0"
  shows "\<exists>e j t. unaided e \<and> caller_of e = Some j \<and> (j = k \<or> cl_sendLock s = Some j) \<and> client_step L s e = Some t"
proof -
  have holder: "\<exists>e t. unaided e \<and> caller_of e = Some j \<and> client_step L s e = Some t" if inside: "in_create (caller_at s j)" for j
  proof -
    obtain pc where j: "caller_at s j = Some pc" using inside by (cases "caller_at s j") auto
    show ?thesis
    proof (cases pc)
      case KCheck
      with j closed show ?thesis by (intro exI [of _ "Check j"]) (simp add: caller_of_def)
    next
      case KRegister
      with j closed show ?thesis by (intro exI [of _ "Register j"]) (simp add: caller_of_def)
    next
      case (KSend o')
      with j show ?thesis by (intro exI [of _ "Sent j None"]) (simp add: caller_of_def Let_def split: option.split)
    qed (use j inside in simp_all)
  qed
  show ?thesis
  proof (cases pc)
    case KStart
    show ?thesis
    proof (cases "cl_sendLock s")
      case None
      with k KStart show ?thesis by (intro exI [of _ "Lock k"]) (simp add: caller_of_def)
    next
      case (Some j)
      with lock have "in_create (caller_at s j)" by (simp add: lock_inv_def)
      with holder Some show ?thesis by blast
    qed
  next
    case (KWait o')
    with k closed show ?thesis by (intro exI [of _ "Wait k WaitConn"]) (simp add: caller_of_def wait_select_def)
  next
    case (KDelete o' r)
    with k show ?thesis by (intro exI [of _ "Delete k"]) (simp add: caller_of_def)
  next
    case (KClose o' r)
    with k show ?thesis by (intro exI [of _ "CloseStream k"]) (simp add: caller_of_def)
  qed (use k pc holder [of k] in \<open>auto simp: caller_rank_def\<close>)
qed

section \<open>Properties\<close>

lemma client0_simps [simp]:
  "cl_closed client0 = False" "cl_streams client0 = Map.empty" "cl_objs client0 = []" "cl_nextStreamID client0 = 1"
  "cl_sendLock client0 = None" "cl_callers client0 = []" "cl_run client0 = LTop" "cl_sent client0 = []"
  "cl_requests client0 = []" "cl_user_calls client0 = 0"
  by (simp_all add: client0_def)

lemma stream_id_sorted:
  assumes "sorted_wrt (<) rs" "\<forall>r \<in> set rs. r < 2 ^ 31"
  shows "sorted_wrt (<) (map (unat \<circ> stream_id) rs) \<and> (\<forall>i \<in> set (map stream_id rs). odd (unat i))"
proof -
  have m: "map (unat \<circ> stream_id) rs = map (\<lambda>r. 2 * r + 1) rs"
    by (rule map_cong [OF refl]) (simp only: comp_apply unat_stream_id assms(2) [rule_format])
  have "sorted_wrt (<) (map (unat \<circ> stream_id) rs)"
    unfolding m using assms(1) by (simp add: sorted_wrt_map)
  moreover have "odd (unat (stream_id r))" if "r \<in> set rs" for r
    unfolding unat_stream_id [OF assms(2) [rule_format, OF that]] by simp
  ultimately show ?thesis by auto
qed

lemma request_ids_sorted:
  assumes "req_inv s" "length (cl_objs s) \<le> 2 ^ 31"
  shows "sorted_wrt (<) (map (\<lambda>f. unat (fst f)) (filter (\<lambda>f. fst (snd f) = messageTypeRequest) (cl_sent s))) \<and>
    (\<forall>f \<in> set (filter (\<lambda>f. fst (snd f) = messageTypeRequest) (cl_sent s)). odd (unat (fst f)))"
proof -
  note D = req_invD [OF assms(1)]
  let ?reqs = "filter (\<lambda>f. fst (snd f) = messageTypeRequest) (cl_sent s)"
  have "\<forall>r \<in> set (cl_requests s). r < 2 ^ 31" using D(4) assms(2) by (meson order.strict_trans2)
  note ids = stream_id_sorted [OF D(3) this]
  have "map (\<lambda>f. unat (fst f)) ?reqs = map (unat \<circ> stream_id) (cl_requests s)"
    using arg_cong [OF D(6), of "map unat"] by (simp add: comp_def)
  moreover have "odd (unat (fst f))" if "f \<in> set ?reqs" for f
  proof -
    have "fst f \<in> set (map fst ?reqs)" using that by force
    then show ?thesis using ids D(6) by metis
  qed
  ultimately show ?thesis using ids by simp
qed

text \<open>
  C4: The ids of a client's requests. As long as at most \<open>2 ^ 31\<close> streams were made, in whatever
  order the callers run, whichever sends fail and whenever the connection ends, the requests on
  the wire have odd ids that strictly increase as 32-bit numbers: no id is used twice, and no
  request overtakes an earlier stream's. (The next stream would have the first id again.)
\<close>

theorem client_request_ids:
  assumes "run (client_step L) client0 es = Some s" "length (cl_objs s) \<le> 2 ^ 31"
  shows "sorted_wrt (<) (map (\<lambda>f. unat (fst f)) (filter (\<lambda>f. fst (snd f) = messageTypeRequest) (cl_sent s))) \<and>
    (\<forall>f \<in> set (filter (\<lambda>f. fst (snd f) = messageTypeRequest) (cl_sent s)). odd (unat (fst f))) \<and>
    cl_nextStreamID s = of_nat (2 * length (cl_objs s) + 1) \<and> stream_id (2 ^ 31) = 1"
proof -
  have inv: "req_inv s" by (rule client_req.inv_run [OF req_inv_init assms(1)])
  have "cl_nextStreamID s = of_nat (2 * length (cl_objs s) + 1)"
    using req_invD(2) [OF inv] by (simp add: ids_ok_def stream_id_def)
  moreover have "stream_id (2 ^ 31) = 1" by (simp add: stream_id_def)
  ultimately show ?thesis using request_ids_sorted [OF inv assms(2)] by blast
qed

lemmas client_eval = caller_at_def set_caller_def add_stream_def recv_buffer_def newStream_def client0_def OversizedMessageError_def messageLengthMax_def
  k_failed_def Let_def client_Close_def close_obj_def delete_entry_def cleanupStreams_def
  loop_message_def getStream_def wait_select_def

text \<open>Two calls; the second takes the lock first, the first one's send fails.\<close>

definition client_run1 :: "client_event list" where
  "client_run1 = [NewCall True 0 None, NewCall False flagRemoteOpen None, Lock 1, Check 1, Register 1, Sent 1 None,
     Lock 0, Check 0, Register 0, Sent 0 None]"

lemma client_run1_result:
  "\<exists>s. run (client_step example_status_lib) client0 client_run1 = Some s \<and> length (cl_objs s) = 2 \<and>
     cl_sent s = [(1, messageTypeRequest, flagRemoteOpen, None), (3, messageTypeRequest, 0, None)]"
  by (simp add: client_run1_def client_eval)

theorem client_request_ids_witness:
  "\<exists>s. run (client_step example_status_lib) client0 client_run1 = Some s \<and>
     sorted_wrt (<) (map (\<lambda>f. unat (fst f)) (filter (\<lambda>f. fst (snd f) = messageTypeRequest) (cl_sent s))) \<and>
     cl_nextStreamID s = 5"
proof -
  obtain s where s: "run (client_step example_status_lib) client0 client_run1 = Some s" "length (cl_objs s) = 2"
    using client_run1_result by blast
  have "length (cl_objs s) \<le> 2 ^ 31" by (simp add: s(2))
  from client_request_ids [OF s(1) this] s show ?thesis by simp
qed

text \<open>
  C6: Calls of a closed client end. Once the client is closed, whatever its callers, its peer and its
  user do: a unary call takes at most seven more steps; a call that has not returned is never stuck,
  it or the holder of \<open>sendLock\<close> has a step that needs neither the context of the caller nor a message
  of the peer; one that waits for its answer can always leave with \<open>ErrClosed\<close>; and one that has
  not made its stream yet, or is made later, returns nothing but \<open>ErrClosed\<close>.
\<close>

theorem calls_end_after_close:
  assumes "run (client_step L) client0 es = Some s" "cl_closed s" "run (client_step L) s fs = Some t"
  shows "(\<forall>k. unary_at s k \<longrightarrow> length (filter (\<lambda>e. caller_of e = Some k) fs) \<le> 7) \<and>
    (\<forall>k pc. caller_at t k = Some pc \<and> (\<forall>r. pc \<noteq> KDone r) \<and> (\<forall>o'. pc \<noteq> KOpen o') \<longrightarrow>
       (\<exists>e j u. unaided e \<and> caller_of e = Some j \<and> (j = k \<or> cl_sendLock t = Some j) \<and> client_step L t e = Some u)) \<and>
    (\<forall>k o'. caller_at t k = Some (KWait o') \<longrightarrow>
       (\<exists>u. client_step L t (Wait k WaitConn) = Some u \<and> caller_at u k = Some (KDelete o' (GotErr (Some ErrClosed))))) \<and>
    (\<forall>k r. caller_at s k \<in> {None, Some KStart, Some KCheck, Some KRegister} \<and> caller_at t k = Some (KDone r) \<longrightarrow>
       r = GotErr (Some ErrClosed))"
proof (intro conjI allI impI)
  have lock: "lock_inv t" using client_req.inv_run [OF client_req.inv_run [OF req_inv_init assms(1)] assms(3)]
    by (rule req_invD(1))
  have closed: "cl_closed t" using client_mono.le_run [OF assms(3)] assms(2) by (simp add: client_le_def)
  show "length (filter (\<lambda>e. caller_of e = Some k) fs) \<le> 7" if "unary_at s k" for k
    using client_run_rank_at [OF assms(3) client_unary.inv_run [OF unary_inv_init assms(1)] that] rank_at_le [of s k] by simp
  show "\<exists>e j u. unaided e \<and> caller_of e = Some j \<and> (j = k \<or> cl_sendLock t = Some j) \<and> client_step L t e = Some u"
    if "caller_at t k = Some pc \<and> (\<forall>r. pc \<noteq> KDone r) \<and> (\<forall>o'. pc \<noteq> KOpen o')" for k pc
    using that by (intro client_step_unaided [OF lock closed, of k pc]) (cases pc; simp)+
  show "\<exists>u. client_step L t (Wait k WaitConn) = Some u \<and> caller_at u k = Some (KDelete o' (GotErr (Some ErrClosed)))"
    if "caller_at t k = Some (KWait o')" for k o'
    using that closed caller_at_Some_less [OF that] by (simp add: wait_select_def)
  show "r = GotErr (Some ErrClosed)"
    if "caller_at s k \<in> {None, Some KStart, Some KCheck, Some KRegister} \<and> caller_at t k = Some (KDone r)" for k r
  proof -
    have "refused s k" using that by (auto simp: refused_def)
    from refused_run [OF assms(3,2) this] that show ?thesis by (simp add: refused_def)
  qed
qed

text \<open>The client is closed while one call waits and another waits for the lock.\<close>

definition client_run2 :: "client_event list" where
  "client_run2 = [NewCall True 0 None, NewCall True 0 None, Lock 0, Check 0, Register 0, Sent 0 None, CloseClient]"

definition client_run3 :: "client_event list" where
  "client_run3 = [Lock 1, Wait 0 WaitConn, Check 1, Delete 0, CloseStream 0]"

lemma client_run2_result:
  "\<exists>s t. run (client_step example_status_lib) client0 client_run2 = Some s \<and> cl_closed s \<and> unary_at s 0 \<and>
     caller_at s 1 = Some KStart \<and> run (client_step example_status_lib) s client_run3 = Some t \<and>
     caller_at t 1 = Some (KDone (GotErr (Some ErrClosed))) \<and> caller_at t 0 = Some (KDone (GotErr (Some ErrClosed)))"
  by (simp add: client_run2_def client_run3_def client_eval unary_at_def)

theorem calls_end_after_close_witness:
  "\<exists>s t r. run (client_step example_status_lib) client0 client_run2 = Some s \<and>
     run (client_step example_status_lib) s client_run3 = Some t \<and>
     length (filter (\<lambda>e. caller_of e = Some 0) client_run3) \<le> 7 \<and>
     caller_at s 1 = Some KStart \<and> caller_at t 1 = Some (KDone r) \<and> r = GotErr (Some ErrClosed)"
proof -
  obtain s t where r: "run (client_step example_status_lib) client0 client_run2 = Some s" "cl_closed s"
    "run (client_step example_status_lib) s client_run3 = Some t"
    and k: "unary_at s 0" "caller_at s 1 = Some KStart" "caller_at t 1 = Some (KDone (GotErr (Some ErrClosed)))"
    using client_run2_result by blast
  note A = calls_end_after_close [OF r]
  have "length (filter (\<lambda>e. caller_of e = Some 0) client_run3) \<le> 7" using A k(1) by blast
  with r(1,3) k(2,3) show ?thesis by blast
qed

text \<open>
  C5: The end of the connection reaches every stream. When \<open>UserOnCloseWait\<close> returns nil, the client
  is closed, its table is empty and stays so, the user's callback was called exactly once,
  and every stream ever made has been closed (so its reader gets the error) or its own caller is
  just about to close it.
\<close>

theorem connection_end_reaches_streams:
  assumes "run (client_step L) client0 es = Some s" "UserOnCloseWait ctx True s = Some None"
  shows "cl_closed s \<and> cl_streams s = Map.empty \<and> cl_user_calls s = 1 \<and>
    (length (cl_objs s) \<le> 2 ^ 31 \<longrightarrow>
      (\<forall>o' < length (cl_objs s). recvClose (cl_objs s ! o') \<and> recvErr (cl_objs s ! o') \<noteq> None \<or> about_to_close s o')) \<and>
    (\<forall>e t. client_step L s e = Some t \<longrightarrow> cl_run t = LEnd \<and> cl_streams t = Map.empty \<and> length (cl_objs t) = length (cl_objs s))"
proof -
  have run_end: "cl_run s = LEnd" using assms(2) by (simp add: UserOnCloseWait_def split: if_splits)
  have fin: "end_ok s" by (rule client_end_ok.inv_run [OF end_ok_init assms(1)])
  have tr: "tracked s" by (rule client_tracked.inv_run [OF tracked_init assms(1)])
  have closed: "cl_closed s" "cl_streams s = Map.empty" "cl_user_calls s = 1"
    using fin run_end by (simp_all add: end_ok_def)
  have "recvClose (cl_objs s ! o') \<and> recvErr (cl_objs s ! o') \<noteq> None \<or> about_to_close s o'"
    if few: "length (cl_objs s) \<le> 2 ^ 31" and o': "o' < length (cl_objs s)" for o'
  proof -
    have "obj_ok (cl_objs s ! o')" using tr o' by (simp add: tracked_def refs_ok_def)
    moreover have "recvClose (cl_objs s ! o') \<or> about_to_close s o'"
      using tr few o' unfolding tracked_def tracked_obj_def few_streams_def closed(2) by blast
    ultimately show ?thesis by (auto simp: obj_ok_def)
  qed
  moreover have "cl_run t = LEnd \<and> cl_streams t = Map.empty \<and> length (cl_objs t) = length (cl_objs s)"
    if t: "client_step L s e = Some t" for e t
  proof -
    have len: "length (cl_objs t) = length (cl_objs s)" using client_step_length [OF t] closed(1) by auto
    moreover have "cl_streams t = Map.empty"
    proof (rule ext)
      fix i show "cl_streams t i = None"
        using client_step_streams [OF t len, of i] closed(2) by (cases "cl_streams t i") auto
    qed
    moreover have "cl_run t = LEnd"
      using t run_end
      by (cases e) (auto simp: k_failed_def client_Close_def add_stream_def close_obj_def delete_entry_def Let_def
        split: if_splits option.splits caller_pc.splits prod.splits)
    ultimately show ?thesis by blast
  qed
  ultimately show ?thesis using closed by blast
qed

text \<open>Two streams are open when the connection fails.\<close>

definition client_run4 :: "client_event list" where
  "client_run4 = [NewCall False 0 None, Lock 0, Check 0, Register 0, Sent 0 None,
     NewCall True 0 None, Lock 1, Check 1, Register 1, Sent 1 None,
     LoopGuard, LoopRecv \<lparr>Length = 0, StreamID = 0, Type = 0, Flags = 0\<rparr> None (Some IoEOF),
     RunClose, RunCleanup, RunCallback, RunEnd]"

lemma client_run4_result:
  "\<exists>s. run (client_step example_status_lib) client0 client_run4 = Some s \<and> cl_run s = LEnd \<and> length (cl_objs s) = 2 \<and>
     map recvErr (cl_objs s) = [Some ErrClosed, Some ErrClosed] \<and> \<not> about_to_close s 0"
  by (simp add: client_run4_def client_eval example_status_lib_def example_from_error_def filterCloseErr_def closeWithError_def
      All_less_Suc
      about_to_close_def)

theorem connection_end_reaches_streams_witness:
  "\<exists>s. run (client_step example_status_lib) client0 client_run4 = Some s \<and>
     recvClose (cl_objs s ! 0) \<and> cl_streams s = Map.empty \<and> cl_user_calls s = 1"
proof -
  obtain s where s: "run (client_step example_status_lib) client0 client_run4 = Some s" "cl_run s = LEnd"
    "length (cl_objs s) = 2" "\<not> about_to_close s 0"
    using client_run4_result by blast
  have "length (cl_objs s) \<le> 2 ^ 31" "0 < length (cl_objs s)" by (simp_all add: s(3))
  moreover have "UserOnCloseWait None True s = Some None" using s(2) by (simp add: UserOnCloseWait_def)
  ultimately show ?thesis using connection_end_reaches_streams [OF s(1)] s(4) s(1) by blast
qed

text \<open>
  No message reaches the wrong call. However frames arrive and callers run, every message in a
  stream's queue and every message a caller has taken from its stream carries that stream's id,
  and as long as at most \<open>2 ^ 31\<close> streams were made no two streams have the same id.
\<close>

theorem messages_reach_their_stream:
  assumes "run (client_step L) client0 es = Some s"
  shows "(\<forall>st \<in> set (cl_objs s). \<forall>m \<in> set (buf (s_recv st)). StreamID (header m) = sid st) \<and>
    (\<forall>k o' m. caller_at s k = Some (KDelete o' (GotMsg m)) \<longrightarrow>
       o' < length (cl_objs s) \<and> StreamID (header m) = sid (cl_objs s ! o')) \<and>
    (length (cl_objs s) \<le> 2 ^ 31 \<longrightarrow> distinct (map sid (cl_objs s)))"
proof -
  have rt: "routed (\<lambda>_. True) s" by (rule client_routed.inv_run [OF routed_init assms])
  have ids: "ids_ok s" by (rule req_invD(2) [OF client_req.inv_run [OF req_inv_init assms]])
  have "o' < length (cl_objs s) \<and> StreamID (header m) = sid (cl_objs s ! o')"
    if k: "caller_at s k = Some (KDelete o' (GotMsg m))" for k o' m
  proof
    show "o' < length (cl_objs s)" using rt refs_ok_callerD [OF _ k] by (simp add: routed_def)
    have "own_result (\<lambda>_. True) s (KDelete o' (GotMsg m))" using rt k by (simp add: routed_def)
    then show "StreamID (header m) = sid (cl_objs s ! o')" by (simp add: own_result_def)
  qed
  moreover have "distinct (map sid (cl_objs s))" if few: "length (cl_objs s) \<le> 2 ^ 31"
  proof -
    have "i = j" if "i < length (cl_objs s)" "j < length (cl_objs s)" "sid (cl_objs s ! i) = sid (cl_objs s ! j)" for i j
      using stream_id_inject [OF order.strict_trans2 [OF that(1) few] order.strict_trans2 [OF that(2) few]] that ids
      by (simp add: ids_ok_def)
    then show ?thesis by (auto simp: distinct_conv_nth)
  qed
  ultimately show ?thesis using rt unfolding routed_def own_messages_def by blast
qed

text \<open>Two calls wait; the answer to the second arrives first.\<close>

definition client_run5 :: "client_event list" where
  "client_run5 = [NewCall True 0 None, Lock 0, Check 0, Register 0, Sent 0 None,
     NewCall True 0 None, Lock 1, Check 1, Register 1, Sent 1 None,
     LoopGuard, LoopRecv \<lparr>Length = 0, StreamID = 3, Type = messageTypeResponse, Flags = 0\<rparr> None None,
     LoopReceive PickDefault, LoopReceive PickSend, Wait 1 (WaitRead ReadMessage)]"

lemma client_run5_result:
  "\<exists>s. run (client_step example_status_lib) client0 client_run5 = Some s \<and> length (cl_objs s) = 2 \<and>
     caller_at s 0 = Some (KWait 0) \<and>
     caller_at s 1 = Some (KDelete 1 (GotMsg \<lparr>header = \<lparr>Length = 0, StreamID = 3, Type = messageTypeResponse, Flags = 0\<rparr>, payload = None\<rparr>))"
  by (simp add: client_run5_def client_eval receive_step_def receive_branch_def make_chan_def chan_send_def
      read_select_def read_message_def chan_recv_def cl_ctx_def)

theorem messages_reach_their_stream_witness:
  "\<exists>s m. run (client_step example_status_lib) client0 client_run5 = Some s \<and>
     caller_at s 1 = Some (KDelete 1 (GotMsg m)) \<and> StreamID (header m) = sid (cl_objs s ! 1)"
proof -
  obtain s m where s: "run (client_step example_status_lib) client0 client_run5 = Some s"
    "caller_at s 1 = Some (KDelete 1 (GotMsg m))"
    using client_run5_result by blast
  with messages_reach_their_stream [OF s(1)] show ?thesis by blast
qed

text \<open>
  C7: The state of a client is well formed in every run: every stream a caller, the table or the
  receive loop refers to exists, the table has each stream under its own id, a stream is closed
  exactly when it has an error to return and its queue is never closed, and \<open>sendLock\<close> is held
  exactly by the one caller inside \<open>createStream\<close> or about to send its request.
\<close>

theorem client_state_well_formed:
  assumes "run (client_step L) client0 es = Some s"
  shows "(\<forall>k o'. caller_ref s k = Some o' \<longrightarrow> o' < length (cl_objs s)) \<and>
    (\<forall>i o'. cl_streams s i = Some o' \<longrightarrow> o' < length (cl_objs s) \<and> sid (cl_objs s ! o') = i) \<and>
    (\<forall>ph m o'. cl_run s = LReceive ph m o' \<longrightarrow> o' < length (cl_objs s)) \<and>
    (\<forall>st \<in> set (cl_objs s). (recvClose st \<longleftrightarrow> recvErr st \<noteq> None) \<and> \<not> chan_closed (s_recv st)) \<and>
    (\<forall>k. in_create (caller_at s k) \<longleftrightarrow> cl_sendLock s = Some k)"
proof -
  have "routed (\<lambda>_. True) s" by (rule client_routed.inv_run [OF routed_init assms])
  moreover have "lock_inv s" by (rule req_invD(1) [OF client_req.inv_run [OF req_inv_init assms]])
  ultimately show ?thesis unfolding routed_def refs_ok_def lock_inv_def obj_ok_def by blast
qed

theorem client_state_well_formed_witness:
  "\<exists>s. run (client_step example_status_lib) client0 client_run5 = Some s \<and>
     (\<forall>st \<in> set (cl_objs s). \<not> chan_closed (s_recv st))"
proof -
  obtain s where s: "run (client_step example_status_lib) client0 client_run5 = Some s"
    using client_run5_result by blast
  with client_state_well_formed [OF s] show ?thesis by blast
qed

text \<open>
  A request that is too long is refused before anything is written and its call returns the error,
  but the stream \<open>createStream\<close> registered for it is never deleted: it stays in the table until
  the connection ends.
\<close>

definition client_run6 :: "client_event list" where
  "client_run6 = [NewCall True 0 (Some (replicate 4194305 0)), Lock 0, Check 0, Register 0, Sent 0 None]"

theorem failed_send_leaves_stream:
  "\<exists>s. run (client_step L) client0 client_run6 = Some s \<and> cl_sent s = [] \<and>
     (\<exists>e. caller_at s 0 = Some (KDone (GotErr (Some e)))) \<and>
     cl_streams s = [1 \<mapsto> 0] \<and> \<not> recvClose (cl_objs s ! 0) \<and> \<not> about_to_close s 0"
proof -
  have "\<exists>e. filterCloseErr L (Some x) = Some e" for x
    using filterCloseErr_cases by blast
  then show ?thesis
    by (auto simp: client_run6_def client_eval about_to_close_def split: if_splits)
qed

end
