(* ===== verification/StreamHandlers.thy ===== *)
theory StreamHandlers
  imports GoChan Services
begin

text \<open>
  The server's end of a stream (\<open>streamHandler\<close> of \<open>src/services.go\<close>) and the dispatch of a
  request to its method or stream (\<open>serviceSet.handle\<close>). A message queued for the handler is the
  payload its \<open>unmarshal\<close> closure decodes. As on the client the blocking \<open>select\<close>s are steps that
  name the branch that was ready.
\<close>

definition streamRecvBufferSize :: nat where
  "streamRecvBufferSize = 64"

text \<open>The arguments of \<open>respond\<close>, and what \<open>sendStatus\<close> submits (\<open>response\<close> in \<open>src/server.go\<close>).\<close>

record response =
  resp_id :: u32
  resp_status :: "status option"
  resp_data :: bytes
  closeStream :: bool
  streaming :: bool

record streamHandler =
  h_recv :: "bytes gochan"
  h_info :: StreamServerInfo
  remoteClosed :: bool
  localClosed :: bool

definition newHandler :: "StreamServerInfo \<Rightarrow> streamHandler" where
  "newHandler info =
     \<lparr>h_recv = make_chan (if StreamingClient info then streamRecvBufferSize else 1),
      h_info = info, remoteClosed = False, localClosed = False\<rparr>"

section \<open>Operations\<close>

definition closeSend :: "streamHandler \<Rightarrow> streamHandler outcome" where
  "closeSend s =
     (if \<not> remoteClosed s
      then (case chan_close (h_recv s) of
          Ok c \<Rightarrow> Ok (s\<lparr>remoteClosed := True, h_recv := c\<rparr>)
        | Panic \<Rightarrow> Panic
        | Blocks \<Rightarrow> Blocks)
      else Ok s)"

text \<open>
  \<open>data\<close>: the queue accepts the message or the context of the stream has ended, else the second
  \<open>select\<close> waits for either or for a second to pass. \<open>ctx\<close> is \<open>ctx.Err()\<close>; \<open>Blocks\<close> means that the
  branch named is not ready.
\<close>

datatype data_pick = DataSend | DataDone | DataDefault | DataTimeout
datatype data_phase = DataWait | DataReturned "go_error option"

definition data_branch ::
    "go_error option \<Rightarrow> data_pick \<Rightarrow> bytes \<Rightarrow> streamHandler \<Rightarrow> (data_phase \<times> streamHandler) outcome" where
  "data_branch ctx p u s =
     (case p of
        DataSend \<Rightarrow>
          (case chan_send u (h_recv s) of
             Ok c \<Rightarrow> Ok (DataReturned None, s\<lparr>h_recv := c\<rparr>)
           | Panic \<Rightarrow> Panic
           | Blocks \<Rightarrow> Blocks)
      | DataDone \<Rightarrow> (case ctx of Some e \<Rightarrow> Ok (DataReturned (Some e), s) | None \<Rightarrow> Blocks)
      | _ \<Rightarrow> Blocks)"

definition data_start ::
    "go_error option \<Rightarrow> data_pick \<Rightarrow> bytes \<Rightarrow> streamHandler \<Rightarrow> (data_phase \<times> streamHandler) outcome" where
  "data_start ctx p u s =
     (if remoteClosed s then Ok (DataReturned (Some ErrStreamClosed), s)
      else if p = DataDefault
        then (if can_send (h_recv s) \<or> ctx \<noteq> None then Blocks else Ok (DataWait, s))
      else data_branch ctx p u s)"

definition data_wait ::
    "go_error option \<Rightarrow> data_pick \<Rightarrow> bytes \<Rightarrow> streamHandler \<Rightarrow> (data_phase \<times> streamHandler) outcome" where
  "data_wait ctx p u s =
     (if p = DataTimeout then Ok (DataReturned (Some ErrStreamFull), s)
      else data_branch ctx p u s)"

text \<open>The error, or the arguments of \<open>respond\<close>: status, data, streaming and closeStream.\<close>

definition SendMsg ::
    "status_lib \<Rightarrow> 'm proto_lib \<Rightarrow> 'm any \<Rightarrow> streamHandler \<Rightarrow> go_error + (status option \<times> bytes \<times> bool \<times> bool)" where
  "SendMsg L P m s =
     (if localClosed s then Inl ErrStreamClosed
      else (case protoMarshal L P m of
          Inl e \<Rightarrow> Inl e
        | Inr p \<Rightarrow> Inr (None, p, True, False)))"

datatype msg_pick = MsgRecv | MsgDone

definition RecvMsg ::
    "status_lib \<Rightarrow> 'm proto_lib \<Rightarrow> go_error option \<Rightarrow> msg_pick \<Rightarrow> 'm any \<Rightarrow> streamHandler \<Rightarrow>
     (go_error option \<times> 'm any \<times> streamHandler) outcome" where
  "RecvMsg L P ctx p m s =
     (case p of
        MsgRecv \<Rightarrow>
          (case chan_recv (h_recv s) of
             Ok (Some u, c) \<Rightarrow> (case protoUnmarshal L P u m of (e, m') \<Rightarrow> Ok (e, m', s\<lparr>h_recv := c\<rparr>))
           | Ok (None, c) \<Rightarrow> Ok (Some IoEOF, m, s)
           | Panic \<Rightarrow> Panic
           | Blocks \<Rightarrow> Blocks)
      | MsgDone \<Rightarrow> (case ctx of Some e \<Rightarrow> Ok (Some e, m, s) | None \<Rightarrow> Blocks))"

section \<open>Dispatch\<close>

text \<open>
  What \<open>handle\<close> starts in a goroutine: a unary call, or a stream call with the handler of the
  stream. \<open>handle\<close> itself fails, or returns nil for a unary method or the stream's handler. It
  queues the payload of the request as the first message of a stream; the queue is new and not
  full, so no wait is needed.
\<close>

datatype ('c, 'f, 'g) work =
    NoWork
  | UnaryWork "'c go_context" ctx_end 'f UnaryServerInfo bytes
  | StreamWork "'c go_context" ctx_end 'g StreamServerInfo

definition handle ::
    "nat \<Rightarrow> heap \<Rightarrow> (('f, 'g Stream) ServiceDesc, 'i, 'j) serviceSet \<Rightarrow> 'c go_context \<Rightarrow> Request \<Rightarrow>
     go_error option \<Rightarrow> data_pick \<Rightarrow>
     (heap \<times> ('c, 'f, 'g) work \<times> (go_error + streamHandler option)) outcome" where
  "handle extra h s ctx req ctx_err p =
     (case services s (Service req) of
        None \<Rightarrow> Ok (h, NoWork, Inl (StatusErr CodeUnimplemented (''service '' @ Service req)))
      | Some srv \<Rightarrow>
          (case Methods srv (req_Method req) of
             Some method \<Rightarrow>
               (case getRequestContext extra h ctx req of
                  (h', ctx', fin) \<Rightarrow>
                    Ok (h', UnaryWork ctx' fin method
                              \<lparr>us_FullMethod = fullPath (Service req) (req_Method req)\<rparr> (Payload req),
                        Inr None))
           | None \<Rightarrow>
               (case Streams srv (req_Method req) of
                  Some stream \<Rightarrow>
                    (case getRequestContext extra h ctx req of
                       (h', ctx', fin) \<Rightarrow>
                         (let info = \<lparr>ss_FullMethod = fullPath (Service req) (req_Method req),
                                      StreamingClient = st_StreamingClient stream,
                                      StreamingServer = st_StreamingServer stream\<rparr>;
                              sh = newHandler info;
                              work = StreamWork ctx' fin (Handler stream) info
                          in if Payload req \<noteq> None \<or> \<not> StreamingClient info
                             then (case data_start ctx_err p (Payload req) sh of
                                 Ok (DataReturned None, sh') \<Rightarrow> Ok (h', work, Inr (Some sh'))
                               | Ok (DataReturned (Some e), sh') \<Rightarrow> Ok (h', work, Inl e)
                               | Ok (DataWait, sh') \<Rightarrow> Blocks
                               | Panic \<Rightarrow> Panic
                               | Blocks \<Rightarrow> Blocks)
                             else Ok (h', work, Inr (Some sh))))
                | None \<Rightarrow>
                    Ok (h, NoWork, Inl (StatusErr CodeUnimplemented (''method '' @ req_Method req))))))"

section \<open>One stream with its goroutines\<close>

text \<open>
  The receive loop of the connection calls \<open>data\<close> and \<open>closeSend\<close>, the handler of the stream calls
  \<open>RecvMsg\<close>, and the context of the stream may end. \<open>queued\<close> and \<open>consumed\<close> are the payloads that
  went into and came out of the queue, \<open>data_results\<close> and \<open>recv_results\<close> what the calls returned,
  and \<open>crashed\<close> whether a call panicked.
\<close>

record 'm handler_sys =
  hs :: streamHandler
  pending :: "bytes option"
  h_ctx :: "go_error option"
  queued :: "bytes list"
  consumed :: "bytes list"
  data_results :: "(bytes \<times> go_error option) list"
  recv_results :: "(go_error option \<times> 'm any) list"
  crashed :: bool

definition handler_sys0 :: "StreamServerInfo \<Rightarrow> 'm handler_sys" where
  "handler_sys0 info =
     \<lparr>hs = newHandler info, pending = None, h_ctx = None, queued = [], consumed = [],
      data_results = [], recv_results = [], crashed = False\<rparr>"

datatype 'm handler_event =
    HData bytes data_pick
  | HWait data_pick
  | HClose
  | HDone go_error
  | HRecv msg_pick "'m any"

definition data_result :: "data_pick \<Rightarrow> bytes \<Rightarrow> (data_phase \<times> streamHandler) outcome \<Rightarrow> 'm handler_sys \<Rightarrow> 'm handler_sys option" where
  "data_result p u r y =
     (case r of
        Panic \<Rightarrow> Some (y\<lparr>crashed := True\<rparr>)
      | Blocks \<Rightarrow> None
      | Ok (DataWait, s) \<Rightarrow> Some (y\<lparr>hs := s, pending := Some u\<rparr>)
      | Ok (DataReturned e, s) \<Rightarrow>
          Some (y\<lparr>hs := s, pending := None, data_results := data_results y @ [(u, e)],
                  queued := (if e = None then queued y @ [u] else queued y)\<rparr>))"

fun handler_step :: "status_lib \<Rightarrow> 'm proto_lib \<Rightarrow> 'm handler_sys \<Rightarrow> 'm handler_event \<Rightarrow> 'm handler_sys option" where
  "handler_step L P y (HData u p) =
     (if pending y \<noteq> None then None else data_result p u (data_start (h_ctx y) p u (hs y)) y)"
| "handler_step L P y (HWait p) =
     (case pending y of
        None \<Rightarrow> None
      | Some u \<Rightarrow> data_result p u (data_wait (h_ctx y) p u (hs y)) y)"
| "handler_step L P y HClose =
     (if pending y \<noteq> None then None
      else (case closeSend (hs y) of
          Ok s \<Rightarrow> Some (y\<lparr>hs := s\<rparr>)
        | Panic \<Rightarrow> Some (y\<lparr>crashed := True\<rparr>)
        | Blocks \<Rightarrow> None))"
| "handler_step L P y (HDone e) = (if h_ctx y = None then Some (y\<lparr>h_ctx := Some e\<rparr>) else None)"
| "handler_step L P y (HRecv p m) =
     (case RecvMsg L P (h_ctx y) p m (hs y) of
        Ok (e, m', s) \<Rightarrow>
          Some (y\<lparr>hs := s, recv_results := recv_results y @ [(e, m')],
                  consumed := (case (p, buf (h_recv (hs y))) of
                                 (MsgRecv, u # _) \<Rightarrow> consumed y @ [u]
                               | _ \<Rightarrow> consumed y)\<rparr>)
      | Panic \<Rightarrow> Some (y\<lparr>crashed := True\<rparr>)
      | Blocks \<Rightarrow> None)"

definition handler_inv :: "'m handler_sys \<Rightarrow> bool" where [inv_defs]:
  "handler_inv y \<longleftrightarrow>
     chan.ledger (queued y) (consumed y) (h_recv (hs y)) \<and>
     (remoteClosed (hs y) \<longleftrightarrow> chan_closed (h_recv (hs y))) \<and>
     (pending y \<noteq> None \<longrightarrow> \<not> remoteClosed (hs y)) \<and>
     queued y = map fst (filter (\<lambda>r. snd r = None) (data_results y)) \<and>
     \<not> crashed y"

lemma handler_inv_init: "handler_inv (handler_sys0 info)"
  by (simp add: handler_inv_def handler_sys0_def newHandler_def chan.ledger_def)

lemma handler_invD:
  assumes "handler_inv y"
  shows "chan.ledger (queued y) (consumed y) (h_recv (hs y))"
    "remoteClosed (hs y) \<longleftrightarrow> chan_closed (h_recv (hs y))"
    "pending y \<noteq> None \<Longrightarrow> \<not> remoteClosed (hs y)"
    "queued y = map fst (filter (\<lambda>r. snd r = None) (data_results y))" "\<not> crashed y"
  using assms unfolding handler_inv_def by blast+

lemma data_start_cases:
  assumes "data_start ctx p u s = r" "remoteClosed s \<longleftrightarrow> chan_closed (h_recv s)"
  shows "r \<noteq> Panic" "r = Ok (ph, s') \<Longrightarrow>
    (\<exists>c. \<not> remoteClosed s \<and> chan_send u (h_recv s) = Ok c \<and> ph = DataReturned None \<and> s' = s\<lparr>h_recv := c\<rparr>) \<or>
    (s' = s \<and> ((ph = DataWait \<and> \<not> remoteClosed s) \<or> (\<exists>e. ph = DataReturned (Some e))))"
  using assms
  by (auto simp: data_start_def data_branch_def chan_send_def split: if_splits data_pick.splits option.splits)

lemma data_wait_cases:
  assumes "data_wait ctx p u s = r" "\<not> remoteClosed s" "remoteClosed s \<longleftrightarrow> chan_closed (h_recv s)"
  shows "r \<noteq> Panic" "r = Ok (ph, s') \<Longrightarrow>
    (\<exists>c. \<not> remoteClosed s \<and> chan_send u (h_recv s) = Ok c \<and> ph = DataReturned None \<and> s' = s\<lparr>h_recv := c\<rparr>) \<or>
    (s' = s \<and> ((ph = DataWait \<and> \<not> remoteClosed s) \<or> (\<exists>e. ph = DataReturned (Some e))))"
  using assms
  by (auto simp: data_wait_def data_branch_def chan_send_def split: if_splits data_pick.splits option.splits)

lemma data_result_inv:
  assumes inv: "handler_inv y" and y': "data_result p u r y = Some y'" and r: "r \<noteq> Panic"
    and ok: "\<And>ph s'. r = Ok (ph, s') \<Longrightarrow>
      (\<exists>c. \<not> remoteClosed (hs y) \<and> chan_send u (h_recv (hs y)) = Ok c \<and> ph = DataReturned None \<and>
           s' = hs y\<lparr>h_recv := c\<rparr>) \<or>
      (s' = hs y \<and> ((ph = DataWait \<and> \<not> remoteClosed (hs y)) \<or> (\<exists>e. ph = DataReturned (Some e))))"
  shows "handler_inv y'"
proof -
  obtain ph s where rs: "r = Ok (ph, s)"
    using y' r by (cases r) (auto simp: data_result_def)
  note D = handler_invD [OF inv]
  from ok [OF rs] show ?thesis
  proof (elim disjE conjE exE)
    fix c assume c: "chan_send u (h_recv (hs y)) = Ok c" and *: "ph = DataReturned None" "s = hs y\<lparr>h_recv := c\<rparr>"
      "\<not> remoteClosed (hs y)"
    have "chan.ledger (queued y @ [u]) (consumed y) c"
      by (rule chan.ledger_put [OF D(1) c])
    moreover have "chan_closed c = chan_closed (h_recv (hs y))" using c by (auto simp: chan_send_Ok_iff)
    ultimately show ?thesis
      using y' rs * D by (auto simp: data_result_def handler_inv_def)
  next
    assume "s = hs y" "ph = DataWait" "\<not> remoteClosed (hs y)"
    then show ?thesis using y' rs D by (auto simp: data_result_def handler_inv_def)
  next
    fix e assume "s = hs y" "ph = DataReturned (Some e)"
    then show ?thesis using y' rs D by (auto simp: data_result_def handler_inv_def)
  qed
qed

lemma RecvMsg_cases:
  assumes "RecvMsg L P ctx p m s = r"
  shows "r \<noteq> Panic" "r = Ok (e, m', s') \<Longrightarrow>
    (p = MsgRecv \<and> (\<exists>u c. chan_recv (h_recv s) = Ok (Some u, c) \<and> protoUnmarshal L P u m = (e, m') \<and> s' = s\<lparr>h_recv := c\<rparr>)) \<or>
    (p = MsgRecv \<and> e = Some IoEOF \<and> m' = m \<and> s' = s \<and> buf (h_recv s) = [] \<and> chan_closed (h_recv s)) \<or>
    (p = MsgDone \<and> e = ctx \<and> ctx \<noteq> None \<and> m' = m \<and> s' = s)"
  using assms
  by (auto simp: RecvMsg_def chan_recv_def split: msg_pick.splits option.splits outcome.splits
      list.splits prod.splits if_splits)

lemma handler_inv_step:
  assumes inv: "handler_inv y" and y': "handler_step L P y e = Some y'"
  shows "handler_inv y'"
proof (cases e)
  case (HData u p)
  note d = data_start_cases [OF refl handler_invD(2) [OF inv], of "h_ctx y" p u]
  show ?thesis
    by (rule data_result_inv [OF inv _ d]) (use y' HData in \<open>auto split: if_splits\<close>)
next
  case (HWait p)
  then obtain u where u: "pending y = Some u" "data_result p u (data_wait (h_ctx y) p u (hs y)) y = Some y'"
    using y' by (auto split: option.splits)
  have "\<not> remoteClosed (hs y)" using handler_invD(3) [OF inv] u(1) by simp
  note d = data_wait_cases [OF refl this handler_invD(2) [OF inv], of "h_ctx y" p u]
  show ?thesis by (rule data_result_inv [OF inv u(2) d])
next
  case HClose
  with y' handler_invD [OF inv] show ?thesis
    by (auto simp: handler_inv_def closeSend_def chan_close_def chan.ledger_def split: if_splits)
next
  case (HDone x)
  with assms show ?thesis by (auto simp: handler_inv_def split: if_splits)
next
  case (HRecv p m)
  note D = handler_invD [OF inv]
  obtain x m' s where r: "RecvMsg L P (h_ctx y) p m (hs y) = Ok (x, m', s)"
    using y' HRecv RecvMsg_cases(1) [OF refl, of L P "h_ctx y" p m "hs y"] by (auto split: outcome.splits)
  from RecvMsg_cases(2) [OF refl r] show ?thesis
  proof (elim disjE conjE exE)
    fix u c assume c: "chan_recv (h_recv (hs y)) = Ok (Some u, c)" and *: "p = MsgRecv" "s = hs y\<lparr>h_recv := c\<rparr>"
    have "chan.ledger (queued y) (consumed y @ [u]) c"
      by (rule chan.ledger_get [OF D(1) c])
    moreover obtain us where "buf (h_recv (hs y)) = u # us" "chan_closed c = chan_closed (h_recv (hs y))"
      using c by (auto simp: chan_recv_def split: list.splits if_splits)
    ultimately show ?thesis
      using y' HRecv r * D by (auto simp: handler_inv_def)
  next
    assume "p = MsgRecv" "s = hs y" "buf (h_recv (hs y)) = []"
    then show ?thesis using y' HRecv r D by (auto simp: handler_inv_def)
  next
    assume "p = MsgDone" "s = hs y"
    then show ?thesis using y' HRecv r D by (auto simp: handler_inv_def)
  qed
qed

interpretation hsys: step_invariant "handler_step L P" handler_inv for L P
  by unfold_locales (rule handler_inv_step)

text \<open>The capacity and the stream's information never change.\<close>

lemma handler_step_cap:
  assumes "chan_cap (h_recv (hs y)) = n" "handler_step L P y e = Some y'"
  shows "chan_cap (h_recv (hs y')) = n"
  using assms
  by (cases e)
     (auto simp: data_result_def data_start_def data_wait_def data_branch_def RecvMsg_def closeSend_def
       chan_send_def chan_recv_def chan_close_def
       split: option.splits if_splits prod.splits outcome.splits data_phase.splits data_pick.splits
         msg_pick.splits list.splits)

interpretation hsys_cap: step_invariant "handler_step L P" "\<lambda>y. chan_cap (h_recv (hs y)) = n" for L P n
  by unfold_locales (rule handler_step_cap)

section \<open>Properties\<close>

text \<open>
  C33: For every interleaving of the receive loop, the handler and the end of its context: the queue
  is never closed twice nor sent to after its close, so no call panics; the handler receives, in
  order, exactly the messages for which \<open>data\<close> returned nil, and what it has not received yet waits
  in the queue, never more than 64 messages, or one if the client does not stream.
\<close>

theorem handler_delivery:
  assumes "run (handler_step L P) (handler_sys0 info) es = Some y"
  shows "\<not> crashed y \<and> queued y = consumed y @ buf (h_recv (hs y)) \<and>
    length (buf (h_recv (hs y))) \<le> (if StreamingClient info then 64 else 1) \<and>
    queued y = map fst (filter (\<lambda>r. snd r = None) (data_results y))"
proof -
  have "chan_cap (h_recv (hs y)) = (if StreamingClient info then 64 else 1)"
    using hsys_cap.inv_run [OF _ assms] by (simp add: handler_sys0_def newHandler_def streamRecvBufferSize_def)
  with handler_invD [OF hsys.inv_run [OF handler_inv_init assms]]
  show ?thesis unfolding chan.ledger_def by (intro conjI) (simp only: | blast)+
qed

definition unary_info :: StreamServerInfo where
  "unary_info = \<lparr>ss_FullMethod = ''/s/m'', StreamingClient = False, StreamingServer = True\<rparr>"

definition full_events :: "string handler_event list" where
  "full_events = [HData (Some [1]) DataSend, HData (Some [2]) DataDefault, HRecv MsgRecv (ProtoMsg ''T'' None),
     HWait DataSend, HClose, HClose, HData (Some [3]) DataSend]"

lemma full_events_run:
  "\<exists>y. run (handler_step example_status_lib example_proto) (handler_sys0 unary_info) full_events = Some y \<and>
     data_results y = [(Some [1], None), (Some [2], None), (Some [3], Some ErrStreamClosed)] \<and>
     consumed y = [Some [1]] \<and> buf (h_recv (hs y)) = [Some [2]] \<and> chan_closed (h_recv (hs y))"
  by (simp add: full_events_def handler_sys0_def newHandler_def unary_info_def data_result_def data_start_def
      data_wait_def data_branch_def chan_send_def can_send_def RecvMsg_def chan_recv_def closeSend_def chan_close_def
      make_chan_def protoUnmarshal_def example_proto_def)

theorem handler_delivery_witness:
  "\<exists>y. run (handler_step example_status_lib example_proto) (handler_sys0 unary_info) full_events = Some y \<and>
     \<not> crashed y \<and> queued y = [Some [1], Some [2]]"
proof -
  obtain y where y: "run (handler_step example_status_lib example_proto) (handler_sys0 unary_info) full_events = Some y"
    "consumed y = [Some [1]]" "buf (h_recv (hs y)) = [Some [2]]"
    using full_events_run by blast
  from handler_delivery [OF y(1)] y show ?thesis by simp
qed

text \<open>
  C34: The handler is told that the client has closed its side, with \<open>io.EOF\<close>, exactly when the
  queue was closed and it has received every message accepted before; until then a \<open>RecvMsg\<close> that
  takes from the queue returns the next message in order, decoded.
\<close>

theorem handler_eof_last:
  assumes "run (handler_step L P) (handler_sys0 info) es = Some y"
    and "handler_step L P y (HRecv MsgRecv m) = Some y'"
  shows "(consumed y = queued y \<and> remoteClosed (hs y) \<and> y' = y\<lparr>recv_results := recv_results y @ [(Some IoEOF, m)]\<rparr>) \<or>
    (length (consumed y) < length (queued y) \<and>
     consumed y' = consumed y @ [queued y ! length (consumed y)] \<and>
     recv_results y' = recv_results y @ [protoUnmarshal L P (queued y ! length (consumed y)) m])"
proof -
  note D = handler_invD [OF hsys.inv_run [OF handler_inv_init assms(1)]]
  have q: "queued y = consumed y @ buf (h_recv (hs y))"
    using D(1) by (simp add: chan.ledger_def)
  show ?thesis
  proof (cases "buf (h_recv (hs y))")
    case Nil
    with assms(2) q D(2) show ?thesis
      by (auto simp: RecvMsg_def chan_recv_def split: if_splits)
  next
    case (Cons u us)
    then have "queued y ! length (consumed y) = u" "length (consumed y) < length (queued y)"
      using q by simp_all
    with Cons assms(2) show ?thesis
      by (auto simp: RecvMsg_def chan_recv_def split: prod.splits)
  qed
qed

theorem handler_eof_last_witness:
  "\<exists>y y'. run (handler_step example_status_lib example_proto) (handler_sys0 unary_info)
        [HData (Some [65]) DataSend, HClose] = Some y \<and>
     handler_step example_status_lib example_proto y (HRecv MsgRecv (ProtoMsg ''T'' None)) = Some y' \<and>
     recv_results y' = [(None, ProtoMsg ''T'' (Some ''A''))]"
proof -
  obtain y where y: "run (handler_step example_status_lib example_proto) (handler_sys0 unary_info)
        [HData (Some [65]) DataSend, HClose] = Some y" "queued y = [Some [65]]" "consumed y = []" "recv_results y = []"
      "h_recv (hs y) = \<lparr>buf = [Some [65]], chan_cap = 1, chan_closed = True\<rparr>"
    by (simp add: handler_sys0_def newHandler_def unary_info_def data_result_def data_start_def
      data_branch_def chan_send_def closeSend_def chan_close_def make_chan_def)
  obtain y' where y': "handler_step example_status_lib example_proto y (HRecv MsgRecv (ProtoMsg ''T'' None)) = Some y'"
    using y by (simp add: RecvMsg_def chan_recv_def protoUnmarshal_def example_proto_def)
  from handler_eof_last [OF y(1) y'] y(2,3,4)
  have "recv_results y' = [protoUnmarshal example_status_lib example_proto (Some [65]) (ProtoMsg ''T'' None)]"
    by auto
  then have "recv_results y' = [(None, ProtoMsg ''T'' (Some ''A''))]"
    by (simp add: protoUnmarshal_def example_proto_def char_of_def bit_0)
  with y(1) y' show ?thesis by blast
qed

text \<open>The first message of a new stream never waits.\<close>

lemma data_start_new:
  "data_start ctx p u (newHandler info) =
     (case p of
        DataSend \<Rightarrow> Ok (DataReturned None,
          (newHandler info)\<lparr>h_recv := (h_recv (newHandler info))\<lparr>buf := [u]\<rparr>\<rparr>)
      | DataDone \<Rightarrow> (case ctx of Some e \<Rightarrow> Ok (DataReturned (Some e), newHandler info) | None \<Rightarrow> Blocks)
      | _ \<Rightarrow> Blocks)"
proof -
  have "\<not> remoteClosed (newHandler info)" "buf (h_recv (newHandler info)) = []"
    "\<not> chan_closed (h_recv (newHandler info))" "0 < chan_cap (h_recv (newHandler info))"
    by (simp_all add: newHandler_def streamRecvBufferSize_def)
  then show ?thesis
    by (cases p) (simp_all add: data_start_def data_branch_def chan_send_def can_send_def)
qed

lemma newHandler_buf: "(newHandler info)\<lparr>h_recv := (h_recv (newHandler info))\<lparr>buf := []\<rparr>\<rparr> = newHandler info"
  by (simp add: newHandler_def make_chan_def)

lemma handle_Inr_work: "handle extra h s ctx req ctx_err p = Ok (h', w, Inr sh) \<Longrightarrow> w \<noteq> NoWork"
  by (auto simp: handle_def Let_def split: option.splits prod.splits if_splits outcome.splits
      data_phase.splits)

lemma newHandler_open [simp]:
  "\<not> remoteClosed (newHandler info)" "\<not> chan_closed (h_recv (newHandler info))" "buf (h_recv (newHandler info)) = []"
  by (simp_all add: newHandler_def)

lemma handle_Inr_closed:
  "handle extra h s ctx req ctx_err p = Ok (h', w, Inr (Some sh)) \<Longrightarrow>
   \<not> remoteClosed sh \<and> \<not> chan_closed (h_recv sh)"
  by (auto simp: handle_def Let_def data_start_new split: option.splits prod.splits if_splits outcome.splits
      data_phase.splits data_pick.splits)

text \<open>The queue of a new stream holds at most the payload of its request.\<close>

lemma handle_Inr_buf:
  "handle extra h s ctx req ctx_err p = Ok (h', w, Inr (Some sh)) \<Longrightarrow> buf (h_recv sh) \<in> {[], [Payload req]}"
  by (auto simp: handle_def Let_def data_start_def data_branch_def chan_send_def
      split: option.splits prod.splits if_splits outcome.splits data_phase.splits data_pick.splits)

lemma handle_Inr_handler:
  "handle extra h s ctx req ctx_err p = Ok (h', w, Inr sh) \<Longrightarrow>
   (sh = None \<longleftrightarrow> (\<exists>ctx' fin f info dat. w = UnaryWork ctx' fin f info dat))"
  by (auto simp: handle_def Let_def split: option.splits prod.splits if_splits outcome.splits
      data_phase.splits)

lemma handle_not_Panic: "handle extra h s ctx req ctx_err p \<noteq> Panic"
  by (auto simp: handle_def Let_def data_start_new split: option.splits prod.splits outcome.splits
      data_phase.splits data_pick.splits)

text \<open>
  Dispatch of a request. An unknown service or method is refused as Unimplemented and starts
  nothing. A unary method is started with its own context, full name and payload and leaves no
  stream handler behind. A stream is started with a handler whose queue already holds the payload
  of the request, except when the client streams and sent none; only when the context of the
  stream has already ended may \<open>handle\<close> fail although the stream was started.
\<close>

theorem handle_routes:
  assumes "handle extra h s ctx req ctx_err p = Ok (h', w, r)"
  shows "(case Option.bind (services s (Service req)) (\<lambda>srv. Methods srv (req_Method req)) of
       Some method \<Rightarrow>
         (\<exists>ctx' fin. getRequestContext extra h ctx req = (h', ctx', fin) \<and>
            w = UnaryWork ctx' fin method \<lparr>us_FullMethod = fullPath (Service req) (req_Method req)\<rparr> (Payload req)) \<and>
         r = Inr None
     | None \<Rightarrow>
         (case Option.bind (services s (Service req)) (\<lambda>srv. Streams srv (req_Method req)) of
            Some st \<Rightarrow>
              (\<exists>ctx' fin info. getRequestContext extra h ctx req = (h', ctx', fin) \<and>
                 w = StreamWork ctx' fin (Handler st) info \<and>
                 ss_FullMethod info = fullPath (Service req) (req_Method req) \<and>
                 (r = Inr (Some ((newHandler info)\<lparr>h_recv := (h_recv (newHandler info))\<lparr>buf :=
                     (if Payload req = None \<and> st_StreamingClient st then [] else [Payload req])\<rparr>\<rparr>)) \<or>
                  (\<exists>e. ctx_err = Some e \<and> r = Inl e)))
          | None \<Rightarrow> h' = h \<and> w = NoWork \<and> (\<exists>m. r = Inl (StatusErr CodeUnimplemented m))))"
proof (cases "services s (Service req)")
  case None
  with assms show ?thesis by (auto simp: handle_def)
next
  case (Some srv)
  show ?thesis
  proof (cases "Methods srv (req_Method req)")
    case (Some meth)
    with assms \<open>services s (Service req) = Some srv\<close> show ?thesis
      by (auto simp: handle_def split: prod.splits)
  next
    case None
    note srv = \<open>services s (Service req) = Some srv\<close> this
    show ?thesis
    proof (cases "Streams srv (req_Method req)")
      case None
      with assms srv show ?thesis by (auto simp: handle_def)
    next
      case (Some st)
      obtain h1 ctx' fin where g: "getRequestContext extra h ctx req = (h1, ctx', fin)"
        by (cases "getRequestContext extra h ctx req")
      define info where "info = \<lparr>ss_FullMethod = fullPath (Service req) (req_Method req),
        StreamingClient = st_StreamingClient st, StreamingServer = st_StreamingServer st\<rparr>"
      have eq: "handle extra h s ctx req ctx_err p =
          (if Payload req \<noteq> None \<or> \<not> st_StreamingClient st
           then (case data_start ctx_err p (Payload req) (newHandler info) of
               Ok (DataReturned None, sh') \<Rightarrow> Ok (h1, StreamWork ctx' fin (Handler st) info, Inr (Some sh'))
             | Ok (DataReturned (Some e), sh') \<Rightarrow> Ok (h1, StreamWork ctx' fin (Handler st) info, Inl e)
             | Ok (DataWait, sh') \<Rightarrow> Blocks
             | Panic \<Rightarrow> Panic
             | Blocks \<Rightarrow> Blocks)
           else Ok (h1, StreamWork ctx' fin (Handler st) info, Inr (Some (newHandler info))))"
        unfolding handle_def info_def Let_def using srv Some g by simp
      have "h' = h1 \<and> w = StreamWork ctx' fin (Handler st) info \<and>
         (r = Inr (Some ((newHandler info)\<lparr>h_recv := (h_recv (newHandler info))\<lparr>buf :=
              (if Payload req = None \<and> st_StreamingClient st then [] else [Payload req])\<rparr>\<rparr>)) \<or>
            (\<exists>e. ctx_err = Some e \<and> r = Inl e))"
        using assms unfolding eq data_start_new
        by (cases "Payload req = None \<and> st_StreamingClient st"; cases p; cases ctx_err) (auto simp: newHandler_buf)
      then show ?thesis
        using srv Some g by (auto simp: info_def)
    qed
  qed
qed

definition echo_services :: "((nat, nat Stream) ServiceDesc, unit, unit) serviceSet" where
  "echo_services =
     \<lparr>services = [''s'' \<mapsto> \<lparr>Methods = [''echo'' \<mapsto> 7],
        Streams = [''feed'' \<mapsto> \<lparr>Handler = 8, st_StreamingClient = True, st_StreamingServer = False\<rparr>]\<rparr>],
      unaryInterceptor = (), streamInterceptor = ()\<rparr>"

definition feed_request :: Request where
  "feed_request = \<lparr>Service = ''s'', req_Method = ''feed'', Payload = Some [1], TimeoutNano = 0, req_Metadata = []\<rparr>"

theorem handle_routes_witness:
  "\<exists>h' w sh. handle 0 [] echo_services \<lparr>md_value = None, ctx_rest = ()\<rparr> feed_request None DataSend =
     Ok (h', w, Inr (Some sh)) \<and> buf (h_recv sh) = [Some [1]]"
proof -
  obtain h' w r where h: "handle 0 [] echo_services \<lparr>md_value = None, ctx_rest = ()\<rparr> feed_request None DataSend = Ok (h', w, r)"
    by (simp add: handle_def echo_services_def feed_request_def getRequestContext_def data_start_def data_branch_def
        chan_send_def newHandler_def streamRecvBufferSize_def make_chan_def Let_def)
  from handle_routes [OF h] h show ?thesis
    by (auto simp: echo_services_def feed_request_def)
qed

end
