(* ===== verification/ServerConn.thy ===== *)
theory ServerConn
  imports StreamHandlers Channel
begin

text \<open>
  One server connection: \<open>(*serverConn).run\<close> of \<open>src/server.go\<close>, with its receive goroutine, its
  main loop and the goroutines of the calls it serves. Every point where a goroutine can be
  overtaken by another is a program counter; a step is one event of \<open>conn_event\<close>. The bytes on
  the connection are those of theory \<open>Channel\<close>: here \<open>ch.recv\<close> returns any result, and
  \<open>ch.send\<close> fails as it must for an oversized message and as the environment chooses otherwise.
  Handing message buffers back to the pool is not part of this state.
\<close>

section \<open>State\<close>

datatype connState = connStateActive | connStateIdle | connStateClosed

definition connState_String :: "connState option \<Rightarrow> string" where
  "connState_String cs =
     (case cs of
        Some connStateActive \<Rightarrow> ''active''
      | Some connStateIdle \<Rightarrow> ''idle''
      | Some connStateClosed \<Rightarrow> ''closed''
      | None \<Rightarrow> ''unknown'')"

text \<open>
  The receive goroutine: at the head of its loop, in \<open>ch.recv\<close>, in \<open>sendStatus\<close>, waiting in the
  second \<open>select\<close> of \<open>data\<close> (with the stream, its handler and the message), before
  \<open>streams.Store\<close>, before \<open>atomic.AddInt32\<close>, ended, or crashed.
\<close>

datatype recv_pc =
    RTop
  | RRecv
  | RSendStatus u32 "status option"
  | RData u32 byte bytes nat
  | RStore u32 "nat option"
  | RAdd
  | RExit
  | RPanic

text \<open>
  The main loop: at its head, in its \<open>select\<close> (with whether the shutdown branch is enabled), sending
  a response, before \<open>streams.Delete\<close>, before \<open>atomic.AddInt32\<close>, out of the loop with its deferred
  calls still to run, returned. The flag of three of them says that the response came from
  \<open>sendStatus\<close>; no decision depends on it.
\<close>

datatype main_pc =
    MTop
  | MSelect bool
  | MSend response bool
  | MDelete u32 bool
  | MDec bool
  | MLeft
  | MExit

text \<open>The goroutine of a call: its method running, inside \<open>respond\<close>, finished.\<close>

datatype worker_pc = WRun | WResp response | WDone

record worker =
  w_id :: u32
  w_handler :: "nat option"
  w_streaming :: bool
  w_pc :: worker_pc

text \<open>
  \<open>handlers\<close> are the allocated stream handlers and \<open>streams\<close> maps a stream to one of them, or to
  the nil pointer a unary method leaves. \<open>requests\<close> (the ids of the requests taken),
  \<open>responses_sent\<close> (the responses written, each with its origin) and \<open>unbalanced\<close> record
  history.
\<close>

record sconn =
  c_shutdown :: bool
  c_done :: bool
  handlers :: "streamHandler list"
  streams :: "u32 \<rightharpoonup> nat option"
  active :: int
  lastStreamID :: u32
  c_state :: connState
  rpc :: recv_pc
  mpc :: main_pc
  recvErrCh :: "go_error gochan"
  recvErrOpen :: bool
  workers :: "worker list"
  md_heap :: heap
  requests :: "u32 list"
  responses_sent :: "(response \<times> bool) list"
  unbalanced :: nat

text \<open>What the connection gets from its server.\<close>

record ('c, 'f, 'g, 'i, 'j, 'm) conn_env =
  e_lib :: status_lib
  e_proto :: "'m proto_lib"
  e_services :: "(('f, 'g Stream) ServiceDesc, 'i, 'j) serviceSet"
  e_ctx :: "'c go_context"
  e_extra :: nat

definition conn0 :: sconn where
  "conn0 =
     \<lparr>c_shutdown = False, c_done = False, handlers = [], streams = Map.empty, active = 0, lastStreamID = 0,
      c_state = connStateIdle, rpc = RTop, mpc = MTop, recvErrCh = make_chan 1, recvErrOpen = True,
      workers = [], md_heap = [], requests = [], responses_sent = [], unbalanced = 0\<rparr>"

text \<open>\<open>(*serverConn).close\<close>.\<close>

definition conn_close :: "sconn \<Rightarrow> sconn" where
  "conn_close s = (if c_shutdown s then s else s\<lparr>c_shutdown := True\<rparr>)"

interpretation conn_once: once conn_close c_shutdown
  by unfold_locales (simp_all add: conn_close_def)

section \<open>The receive goroutine\<close>

definition invalid :: "u32 \<Rightarrow> string \<Rightarrow> sconn \<Rightarrow> sconn" where
  "invalid i text s = s\<lparr>rpc := RSendStatus i (Some (Status CodeInvalidArgument text))\<rparr>"

text \<open>The end of the data branch: the message may close the client's side.\<close>

definition recv_close :: "messageHeader \<Rightarrow> bytes \<Rightarrow> nat \<Rightarrow> sconn \<Rightarrow> sconn" where
  "recv_close mh p h s =
     (if has_flag (Flags mh) flagRemoteClosed
      then (case closeSend (handlers s ! h) of
          Ok sh \<Rightarrow>
            (let s' = s\<lparr>handlers := (handlers s)[h := sh]\<rparr>
             in if length (bytes_of p) > 0
                then invalid (StreamID mh) ''data close message cannot include data'' s'
                else s'\<lparr>rpc := RTop\<rparr>)
        | _ \<Rightarrow> s\<lparr>rpc := RPanic\<rparr>)
      else s\<lparr>rpc := RTop\<rparr>)"

text \<open>What follows one of the \<open>select\<close>s of \<open>data\<close>.\<close>

definition recv_data ::
    "status_lib \<Rightarrow> messageHeader \<Rightarrow> bytes \<Rightarrow> nat \<Rightarrow> (data_phase \<times> streamHandler) outcome \<Rightarrow> sconn \<Rightarrow> sconn option" where
  "recv_data L mh p h r s =
     (case r of
        Ok (DataReturned None, sh) \<Rightarrow> Some (recv_close mh p h (s\<lparr>handlers := (handlers s)[h := sh]\<rparr>))
      | Ok (DataReturned (Some e), sh) \<Rightarrow>
          Some (invalid (StreamID mh) (''data handling error: '' @ error_text L e) s)
      | Ok (DataWait, sh) \<Rightarrow> Some (s\<lparr>rpc := RData (StreamID mh) (Flags mh) p h\<rparr>)
      | Panic \<Rightarrow> Some (s\<lparr>rpc := RPanic\<rparr>)
      | Blocks \<Rightarrow> None)"

text \<open>
  A data message. The pointer of a unary stream is nil, so that \<open>sh.data\<close> and \<open>sh.closeSend\<close>
  dereference nil there.
\<close>

definition recv_data_message ::
    "status_lib \<Rightarrow> messageHeader \<Rightarrow> bytes \<Rightarrow> go_error option \<Rightarrow> data_pick \<Rightarrow> sconn \<Rightarrow> sconn option" where
  "recv_data_message L mh p ctx_err pick s =
     (case streams s (StreamID mh) of
        None \<Rightarrow> Some (invalid (StreamID mh) ''StreamID is no longer active'' s)
      | Some None \<Rightarrow>
          (if \<not> has_flag (Flags mh) flagNoData \<or> has_flag (Flags mh) flagRemoteClosed
           then Some (s\<lparr>rpc := RPanic\<rparr>)
           else Some (s\<lparr>rpc := RTop\<rparr>))
      | Some (Some h) \<Rightarrow>
          (if \<not> has_flag (Flags mh) flagNoData
           then recv_data L mh p h (data_start ctx_err pick p (handlers s ! h)) s
           else Some (recv_close mh p h s)))"

text \<open>A request: its goroutine starts inside \<open>handle\<close>, before the stream is stored.\<close>

definition start_work :: "u32 \<Rightarrow> ('c, 'f, 'g) work \<Rightarrow> streamHandler option \<Rightarrow> sconn \<Rightarrow> sconn \<times> nat option" where
  "start_work i w sh s =
     (case w of
        NoWork \<Rightarrow> (s, None)
      | UnaryWork ctx fin method info dat \<Rightarrow>
          (s\<lparr>workers := workers s @ [\<lparr>w_id = i, w_handler = None, w_streaming = False, w_pc = WRun\<rparr>]\<rparr>, None)
      | StreamWork ctx fin hdl info \<Rightarrow>
          (s\<lparr>handlers := handlers s @ [case sh of Some x \<Rightarrow> x | None \<Rightarrow> newHandler info],
             workers := workers s @ [\<lparr>w_id = i, w_handler = Some (length (handlers s)),
                                     w_streaming = StreamingServer info, w_pc = WRun\<rparr>]\<rparr>,
           Some (length (handlers s))))"

definition recv_request ::
    "('c, 'f, 'g, 'i, 'j, 'm) conn_env \<Rightarrow> messageHeader \<Rightarrow> bytes \<Rightarrow> go_error option \<Rightarrow> data_pick \<Rightarrow> sconn \<Rightarrow> sconn option" where
  "recv_request E mh p ctx_err pick s =
     (if StreamID mh \<le> lastStreamID s
      then Some (invalid (StreamID mh) ''StreamID cannot be re-used and must increment'' s)
      else
        let s1 = s\<lparr>lastStreamID := StreamID mh, requests := requests s @ [StreamID mh]\<rparr>
        in (case uRequest (e_proto E) p of
              Inl e \<Rightarrow> Some (invalid (StreamID mh) (''unmarshal request error: '' @ error_text (e_lib E) e) s1)
            | Inr req \<Rightarrow>
                (case handle (e_extra E) (md_heap s) (e_services E) (e_ctx E) req ctx_err pick of
                   Ok (h', w, Inl e) \<Rightarrow>
                     (case start_work (StreamID mh) w None (s1\<lparr>md_heap := h'\<rparr>) of
                        (s2, _) \<Rightarrow>
                          Some (s2\<lparr>rpc := RSendStatus (StreamID mh) (fst (FromError (e_lib E) (Some e))),
                                   unbalanced := (case w of NoWork \<Rightarrow> unbalanced s | _ \<Rightarrow> Suc (unbalanced s))\<rparr>))
                 | Ok (h', w, Inr sh) \<Rightarrow>
                     (case start_work (StreamID mh) w sh (s1\<lparr>md_heap := h'\<rparr>) of
                        (s2, ref) \<Rightarrow> Some (s2\<lparr>rpc := RStore (StreamID mh) ref\<rparr>))
                 | Panic \<Rightarrow> Some (s1\<lparr>rpc := RPanic\<rparr>)
                 | Blocks \<Rightarrow> None)))"

text \<open>The body of the receive loop after \<open>ch.recv\<close> returned.\<close>

definition recv_body ::
    "('c, 'f, 'g, 'i, 'j, 'm) conn_env \<Rightarrow> messageHeader \<Rightarrow> bytes \<Rightarrow> go_error option \<Rightarrow>
     go_error option \<Rightarrow> data_pick \<Rightarrow> sconn \<Rightarrow> sconn option" where
  "recv_body E mh p err ctx_err pick s =
     (case err of
        Some e \<Rightarrow>
          (case FromError (e_lib E) (Some e) of
             (st, ok) \<Rightarrow>
               if \<not> ok
               then (case chan_send e (recvErrCh s) of
                   Ok c \<Rightarrow> Some (s\<lparr>recvErrCh := c\<lparr>chan_closed := True\<rparr>, rpc := RExit\<rparr>)
                 | _ \<Rightarrow> None)
               else Some (s\<lparr>rpc := RSendStatus (StreamID mh) st\<rparr>))
      | None \<Rightarrow>
          if StreamID mh mod 2 \<noteq> 1
          then Some (invalid (StreamID mh) ''StreamID must be odd for client initiated streams'' s)
          else if Type mh = messageTypeData then recv_data_message (e_lib E) mh p ctx_err pick s
          else if Type mh = messageTypeRequest then recv_request E mh p ctx_err pick s
          else Some (s\<lparr>rpc := RTop\<rparr>))"

section \<open>The main loop\<close>

definition status_response :: "u32 \<Rightarrow> status option \<Rightarrow> response" where
  "status_response i st =
     \<lparr>resp_id = i, resp_status = st, resp_data = None, closeStream = True, streaming = False\<rparr>"

text \<open>The arguments of \<open>ch.send\<close> for a response, or the error of the marshaling.\<close>

definition response_frame ::
    "'m proto_lib \<Rightarrow> response \<Rightarrow> go_error + (u32 \<times> byte \<times> byte \<times> bytes)" where
  "response_frame P r =
     (if \<not> streaming r \<or> status_code (resp_status r) \<noteq> CodeOK
      then (case mResponse P \<lparr>rs_status = resp_status r, rs_payload = resp_data r\<rparr> of
          Inl e \<Rightarrow> Inl e
        | Inr p \<Rightarrow> Inr (resp_id r, messageTypeResponse, 0, p))
      else Inr (resp_id r, messageTypeData,
             (if closeStream r then flagRemoteClosed else 0) OR (if resp_data r = None then flagNoData else 0),
             resp_data r))"

text \<open>The outcome of \<open>ch.send\<close> when the connection itself would give \<open>e\<close>.\<close>

definition send_outcome :: "bytes \<Rightarrow> go_error option \<Rightarrow> go_error option" where
  "send_outcome p e =
     (case OversizedMessageError (int (length (bytes_of p))) of Some x \<Rightarrow> Some x | None \<Rightarrow> e)"

text \<open>
  Returning from the main loop, and what is deferred: after the connection has left its server's
  table (which theory \<open>Server\<close> models), \<open>done\<close> is closed.
\<close>

definition conn_exit :: "sconn \<Rightarrow> sconn" where
  "conn_exit s = s\<lparr>mpc := MLeft\<rparr>"

definition conn_return :: "sconn \<Rightarrow> sconn" where
  "conn_return s = s\<lparr>mpc := MExit, c_done := True\<rparr>"

definition main_guard :: "sconn \<Rightarrow> sconn" where
  "main_guard s =
     (if active s > 0
      then s\<lparr>c_state := connStateActive, mpc := MSelect False\<rparr>
      else s\<lparr>c_state := connStateIdle, mpc := MSelect True\<rparr>)"

definition main_send :: "'m proto_lib \<Rightarrow> response \<Rightarrow> bool \<Rightarrow> go_error option \<Rightarrow> sconn \<Rightarrow> sconn" where
  "main_send P r from_status e s =
     (case response_frame P r of
        Inl _ \<Rightarrow> conn_exit s
      | Inr (i, t, flags, p) \<Rightarrow>
          (case send_outcome p e of
             Some _ \<Rightarrow> conn_exit s
           | None \<Rightarrow>
               s\<lparr>responses_sent := responses_sent s @ [(r, from_status)],
                 mpc := (if closeStream r then MDelete (resp_id r) from_status else MTop)\<rparr>))"

definition client_gone :: "go_error \<Rightarrow> bool" where
  "client_gone e \<longleftrightarrow> errors_is e IoEOF \<or> errors_is e IoUnexpectedEOF \<or> errors_is e (Errno ECONNRESET)"

section \<open>Steps\<close>

datatype conn_event =
    CloseConn
  | RGuard bool
  | RMessage messageHeader bytes "go_error option" "go_error option" data_pick
  | RWaitData "go_error option" data_pick
  | RStatusAbort
  | RDoStore
  | RDoAdd
  | MGuard
  | MTakeStatus
  | MTakeWorker nat
  | MTakeErr
  | MShutdown
  | MSent "go_error option"
  | MDoDelete
  | MDoDec
  | MReturn
  | WFinish nat "status option" bytes
  | WSend nat bytes
  | WRecv nat
  | WAbort nat

text \<open>The response a call submits last, and those of \<open>SendMsg\<close> before it.\<close>

definition final_response :: "worker \<Rightarrow> status option \<Rightarrow> bytes \<Rightarrow> response" where
  "final_response w st p =
     \<lparr>resp_id = w_id w, resp_status = st, resp_data = p, closeStream = True, streaming = w_streaming w\<rparr>"

definition stream_response :: "worker \<Rightarrow> bytes \<Rightarrow> response" where
  "stream_response w p =
     \<lparr>resp_id = w_id w, resp_status = None, resp_data = p, closeStream = False, streaming = True\<rparr>"

definition set_worker :: "nat \<Rightarrow> worker_pc \<Rightarrow> sconn \<Rightarrow> sconn" where
  "set_worker i pc s = s\<lparr>workers := (workers s)[i := (workers s ! i)\<lparr>w_pc := pc\<rparr>]\<rparr>"

definition after_response :: "response \<Rightarrow> worker_pc" where
  "after_response r = (if closeStream r then WDone else WRun)"

fun conn_step ::
    "('c, 'f, 'g, 'i, 'j, 'm) conn_env \<Rightarrow> sconn \<Rightarrow> conn_event \<Rightarrow> sconn option" where
  "conn_step E s CloseConn = Some (conn_close s)"
| "conn_step E s (RGuard leave) =
     (if rpc s \<noteq> RTop then None
      else if leave
        then (if c_shutdown s \<or> c_done s
              then Some (s\<lparr>rpc := RExit, recvErrCh := (recvErrCh s)\<lparr>chan_closed := True\<rparr>\<rparr>) else None)
      else if c_shutdown s \<or> c_done s then None
      else Some (s\<lparr>rpc := RRecv\<rparr>))"
| "conn_step E s (RMessage mh p err ctx_err pick) =
     (if rpc s = RRecv then recv_body E mh p err ctx_err pick s else None)"
| "conn_step E s (RWaitData ctx_err pick) =
     (case rpc s of
        RData i flags p h \<Rightarrow>
          recv_data (e_lib E) \<lparr>Length = of_nat (length (bytes_of p)), StreamID = i, Type = messageTypeData, Flags = flags\<rparr>
            p h (data_wait ctx_err pick p (handlers s ! h)) s
      | _ \<Rightarrow> None)"
| "conn_step E s RStatusAbort =
     (case rpc s of
        RSendStatus i st \<Rightarrow>
          (if c_shutdown s \<or> c_done s
           then Some (s\<lparr>rpc := RExit, recvErrCh := (recvErrCh s)\<lparr>chan_closed := True\<rparr>\<rparr>) else None)
      | _ \<Rightarrow> None)"
| "conn_step E s RDoStore =
     (case rpc s of
        RStore i h \<Rightarrow> Some (s\<lparr>streams := (streams s)(i \<mapsto> h), rpc := RAdd\<rparr>)
      | _ \<Rightarrow> None)"
| "conn_step E s RDoAdd = (if rpc s = RAdd then Some (s\<lparr>active := active s + 1, rpc := RTop\<rparr>) else None)"
| "conn_step E s MGuard = (if mpc s = MTop then Some (main_guard s) else None)"
| "conn_step E s MTakeStatus =
     (case (mpc s, rpc s) of
        (MSelect _, RSendStatus i st) \<Rightarrow> Some (s\<lparr>mpc := MSend (status_response i st) True, rpc := RTop\<rparr>)
      | _ \<Rightarrow> None)"
| "conn_step E s (MTakeWorker i) =
     (case mpc s of
        MSelect _ \<Rightarrow>
          (if i < length (workers s)
           then (case w_pc (workers s ! i) of
               WResp r \<Rightarrow> Some ((set_worker i (after_response r) s)\<lparr>mpc := MSend r False\<rparr>)
             | _ \<Rightarrow> None)
           else None)
      | _ \<Rightarrow> None)"
| "conn_step E s MTakeErr =
     (case mpc s of
        MSelect _ \<Rightarrow>
          (if recvErrOpen s
           then (case chan_recv (recvErrCh s) of
               Ok (Some e, c) \<Rightarrow>
                 (let s' = s\<lparr>recvErrCh := c, recvErrOpen := False\<rparr>
                  in Some (if client_gone e then conn_exit s' else s'\<lparr>mpc := MTop\<rparr>))
             | Ok (None, c) \<Rightarrow> Some (s\<lparr>recvErrOpen := False, mpc := MTop\<rparr>)
             | _ \<Rightarrow> None)
           else None)
      | _ \<Rightarrow> None)"
| "conn_step E s MShutdown =
     (case mpc s of
        MSelect True \<Rightarrow> if c_shutdown s then Some (conn_exit s) else None
      | _ \<Rightarrow> None)"
| "conn_step E s (MSent e) =
     (case mpc s of
        MSend r from_status \<Rightarrow> Some (main_send (e_proto E) r from_status e s)
      | _ \<Rightarrow> None)"
| "conn_step E s MDoDelete =
     (case mpc s of
        MDelete i from_status \<Rightarrow> Some (s\<lparr>streams := (streams s)(i := None), mpc := MDec from_status\<rparr>)
      | _ \<Rightarrow> None)"
| "conn_step E s MDoDec =
     (case mpc s of
        MDec from_status \<Rightarrow>
          Some (s\<lparr>active := active s - 1, mpc := MTop,
                  unbalanced := (if from_status then Suc (unbalanced s) else unbalanced s)\<rparr>)
      | _ \<Rightarrow> None)"
| "conn_step E s MReturn = (if mpc s = MLeft then Some (conn_return s) else None)"
| "conn_step E s (WFinish i st p) =
     (if i < length (workers s) \<and> w_pc (workers s ! i) = WRun
      then Some (set_worker i (WResp (final_response (workers s ! i) st p)) s) else None)"
| "conn_step E s (WSend i p) =
     (if i < length (workers s) \<and> w_pc (workers s ! i) = WRun \<and> w_handler (workers s ! i) \<noteq> None
      then Some (set_worker i (WResp (stream_response (workers s ! i) p)) s) else None)"
| "conn_step E s (WRecv i) =
     (if i < length (workers s) \<and> w_pc (workers s ! i) = WRun
      then (case w_handler (workers s ! i) of
          Some h \<Rightarrow>
            (case chan_recv (h_recv (handlers s ! h)) of
               Ok (u, c) \<Rightarrow> Some (s\<lparr>handlers := (handlers s)[h := (handlers s ! h)\<lparr>h_recv := c\<rparr>]\<rparr>)
             | _ \<Rightarrow> None)
        | None \<Rightarrow> None)
      else None)"
| "conn_step E s (WAbort i) =
     (if i < length (workers s) \<and> c_done s
      then (case w_pc (workers s ! i) of
          WResp r \<Rightarrow> Some (set_worker i (after_response r) s)
        | _ \<Rightarrow> None)
      else None)"

section \<open>What the receive goroutine changes\<close>

text \<open>The fields only the other goroutines write.\<close>

definition recv_frame_eq :: "sconn \<Rightarrow> sconn \<Rightarrow> bool" where
  "recv_frame_eq s t \<longleftrightarrow>
     c_shutdown t = c_shutdown s \<and> c_done t = c_done s \<and> streams t = streams s \<and> active t = active s \<and>
     c_state t = c_state s \<and> mpc t = mpc s \<and> responses_sent t = responses_sent s \<and> recvErrOpen t = recvErrOpen s"

definition no_add :: "recv_pc \<Rightarrow> bool" where
  "no_add pc = (case pc of RStore _ _ \<Rightarrow> False | RAdd \<Rightarrow> False | _ \<Rightarrow> True)"

lemma no_add_simps [simp]:
  "no_add RTop" "no_add RRecv" "no_add (RSendStatus i st)" "no_add (RData i f p h)" "no_add RExit" "no_add RPanic"
  "\<not> no_add (RStore i r)" "\<not> no_add RAdd"
  by (simp_all add: no_add_def)

text \<open>A message that is not a new request: ids, calls and counters stay as they are.\<close>

definition calls_eq :: "sconn \<Rightarrow> sconn \<Rightarrow> bool" where
  "calls_eq s t \<longleftrightarrow> requests t = requests s \<and> workers t = workers s \<and> lastStreamID t = lastStreamID s \<and>
     unbalanced t = unbalanced s \<and> no_add (rpc t)"

lemma recv_close_eq: "recv_frame_eq s (recv_close mh p h s) \<and> calls_eq s (recv_close mh p h s)"
  by (auto simp: recv_close_def recv_frame_eq_def calls_eq_def invalid_def Let_def split: outcome.splits)

lemma recv_data_eq: "recv_data L mh p h r s = Some t \<Longrightarrow> recv_frame_eq s t \<and> calls_eq s t"
  using recv_close_eq [of "s\<lparr>handlers := (handlers s)[h := sh]\<rparr>" mh p h for sh]
  by (auto simp: recv_data_def recv_frame_eq_def calls_eq_def invalid_def
      split: outcome.splits data_phase.splits option.splits prod.splits)

lemma recv_data_message_eq:
  "recv_data_message L mh p ctx_err pick s = Some t \<Longrightarrow> recv_frame_eq s t \<and> calls_eq s t"
  using recv_close_eq
  by (auto simp: recv_data_message_def invalid_def dest: recv_data_eq split: option.splits if_splits)
     (auto simp: recv_frame_eq_def calls_eq_def)

text \<open>A new request: at most one call starts, with its id.\<close>

definition call_started :: "u32 \<Rightarrow> sconn \<Rightarrow> sconn \<Rightarrow> bool" where
  "call_started i s t \<longleftrightarrow>
     requests t = requests s @ [i] \<and> lastStreamID t = i \<and> lastStreamID s < i \<and>
     ((workers t = workers s \<and> unbalanced t = unbalanced s \<and> no_add (rpc t)) \<or>
      (\<exists>w. w_id w = i \<and> w_pc w = WRun \<and> workers t = workers s @ [w] \<and>
         ((unbalanced t = Suc (unbalanced s) \<and> no_add (rpc t)) \<or>
          (unbalanced t = unbalanced s \<and> (\<exists>h. rpc t = RStore i h)))))"

lemma start_work_eq:
  assumes "start_work i w sh s = (t, ref)"
  shows "recv_frame_eq s t" "requests t = requests s" "lastStreamID t = lastStreamID s" "unbalanced t = unbalanced s"
    "w = NoWork \<Longrightarrow> workers t = workers s"
    "w \<noteq> NoWork \<Longrightarrow> \<exists>wk. w_id wk = i \<and> w_pc wk = WRun \<and> workers t = workers s @ [wk]"
  using assms by (auto simp: start_work_def recv_frame_eq_def split: work.splits)

text \<open>A handler whose queue is closed exactly when its remote side is.\<close>

definition handler_ok :: "streamHandler \<Rightarrow> bool" where
  "handler_ok sh \<longleftrightarrow> (remoteClosed sh \<longleftrightarrow> chan_closed (h_recv sh))"

text \<open>The ways a request can go: refused before its id is taken, not decoded, refused by \<open>handle\<close>, started.\<close>

lemma recv_request_cases:
  fixes s :: sconn and mh :: messageHeader and E :: "('c, 'f, 'g, 'i, 'j, 'm) conn_env"
  defines "s1 \<equiv> s\<lparr>lastStreamID := StreamID mh, requests := requests s @ [StreamID mh]\<rparr>"
  assumes st: "recv_request E mh p ctx_err pick s = Some t"
  obtains (reused) m where "t = invalid (StreamID mh) m s"
  | (bad) m where "lastStreamID s < StreamID mh" "t = invalid (StreamID mh) m s1"
  | (refused) h' and w :: "('c, 'f, 'g) work" and s2 ref st' where "lastStreamID s < StreamID mh"
      "start_work (StreamID mh) w None (s1\<lparr>md_heap := h'\<rparr>) = (s2, ref)"
      "t = s2\<lparr>rpc := RSendStatus (StreamID mh) st', unbalanced := (case w of NoWork \<Rightarrow> unbalanced s | _ \<Rightarrow> Suc (unbalanced s))\<rparr>"
  | (started) h' and w :: "('c, 'f, 'g) work" and sh s2 ref where "lastStreamID s < StreamID mh"
      "start_work (StreamID mh) w sh (s1\<lparr>md_heap := h'\<rparr>) = (s2, ref)" "t = s2\<lparr>rpc := RStore (StreamID mh) ref\<rparr>"
      "w \<noteq> NoWork" "\<And>x. sh = Some x \<Longrightarrow> handler_ok x"
      "\<And>x. sh = Some x \<Longrightarrow> \<exists>req. uRequest (e_proto E) p = Inr req \<and> buf (h_recv x) \<in> {[], [Payload req]}"
proof (cases "StreamID mh \<le> lastStreamID s")
  case True
  with st show ?thesis by (auto simp: recv_request_def intro: reused)
next
  case False
  then have less: "lastStreamID s < StreamID mh" by simp
  note A = st [unfolded recv_request_def Let_def if_not_P [OF False], folded s1_def]
  show ?thesis
  proof (cases "uRequest (e_proto E) p")
    case (Inl e)
    with A less show ?thesis by (auto intro: bad)
  next
    case (Inr req)
    let ?h = "handle (e_extra E) (md_heap s) (e_services E) (e_ctx E) req ctx_err pick"
    obtain h' w r where h: "?h = Ok (h', w, r)"
      using A Inr handle_not_Panic [of "e_extra E" "md_heap s" "e_services E" "e_ctx E" req ctx_err pick]
      by (cases ?h) auto
    show ?thesis
    proof (cases r)
      case (Inl e)
      obtain s2 ref where s2: "start_work (StreamID mh) w None (s1\<lparr>md_heap := h'\<rparr>) = (s2, ref)" by fastforce
      show ?thesis by (rule refused [OF less s2, of "fst (FromError (e_lib E) (Some e))"]) (use A Inr h Inl s2 in simp)
    next
      case r: (Inr sh)
      obtain s2 ref where s2: "start_work (StreamID mh) w sh (s1\<lparr>md_heap := h'\<rparr>) = (s2, ref)" by fastforce
      show ?thesis
      proof (rule started [OF less s2])
        show "t = s2\<lparr>rpc := RStore (StreamID mh) ref\<rparr>" using A Inr h r s2 by simp
        show "w \<noteq> NoWork" using h r handle_Inr_work by blast
        show "handler_ok x" if "sh = Some x" for x
          using handle_Inr_closed [of "e_extra E" "md_heap s" "e_services E" "e_ctx E" req ctx_err pick h' w x] h r that
          by (simp add: handler_ok_def)
        show "\<exists>req. uRequest (e_proto E) p = Inr req \<and> buf (h_recv x) \<in> {[], [Payload req]}" if "sh = Some x" for x
          using handle_Inr_buf [of "e_extra E" "md_heap s" "e_services E" "e_ctx E" req ctx_err pick h' w x] h r that Inr
          by simp
      qed
    qed
  qed
qed

lemma recv_request_eq:
  assumes "recv_request E mh p ctx_err pick s = Some t"
  shows "recv_frame_eq s t \<and> (calls_eq s t \<or> call_started (StreamID mh) s t)"
  using assms
proof (cases rule: recv_request_cases)
  case reused
  then show ?thesis by (simp add: invalid_def recv_frame_eq_def calls_eq_def)
next
  case bad
  then show ?thesis by (simp add: invalid_def recv_frame_eq_def call_started_def)
next
  case refused
  with start_work_eq [OF refused(2)] show ?thesis
    by (cases "w = NoWork") (auto simp: recv_frame_eq_def call_started_def not_le split: work.splits)
next
  case started
  with start_work_eq [OF started(2)] show ?thesis by (auto simp: recv_frame_eq_def call_started_def)
qed

lemma recv_body_eq:
  assumes "recv_body E mh p err ctx_err pick s = Some t"
  shows "recv_frame_eq s t \<and>
    (calls_eq s t \<or> (StreamID mh mod 2 = 1 \<and> call_started (StreamID mh) s t))"
proof (cases err)
  case (Some e)
  with assms show ?thesis
    by (auto simp: recv_body_def recv_frame_eq_def calls_eq_def split: prod.splits if_splits outcome.splits)
next
  case None
  have inv: "recv_frame_eq s (invalid i m s) \<and> calls_eq s (invalid i m s)" for i m
    by (simp add: invalid_def recv_frame_eq_def calls_eq_def)
  have top: "recv_frame_eq s (s\<lparr>rpc := RTop\<rparr>) \<and> calls_eq s (s\<lparr>rpc := RTop\<rparr>)"
    by (simp add: recv_frame_eq_def calls_eq_def)
  show ?thesis
  proof (cases "StreamID mh mod 2 \<noteq> 1 \<or> (Type mh \<noteq> messageTypeData \<and> Type mh \<noteq> messageTypeRequest)")
    case True
    with None assms have "t = invalid (StreamID mh) ''StreamID must be odd for client initiated streams'' s \<or> t = s\<lparr>rpc := RTop\<rparr>"
      by (auto simp: recv_body_def split: if_splits)
    with inv top show ?thesis by blast
  next
    case False
    then have odd: "StreamID mh mod 2 = 1" by simp
    from False None assms have "recv_data_message (e_lib E) mh p ctx_err pick s = Some t \<or>
        recv_request E mh p ctx_err pick s = Some t"
      by (auto simp: recv_body_def split: if_splits)
    then show ?thesis using recv_data_message_eq recv_request_eq odd by blast
  qed
qed

section \<open>Stream ids\<close>

text \<open>
  The ids of the requests taken are odd and increase, the last of them is \<open>lastStreamID\<close>, and
  the calls started are some of them, in the same order.
\<close>

definition ids_inv :: "sconn \<Rightarrow> bool" where [inv_defs]:
  "ids_inv s \<longleftrightarrow>
     sorted_wrt (<) (requests s) \<and> (\<forall>i \<in> set (requests s). i mod 2 = 1 \<and> i \<le> lastStreamID s) \<and>
     sorted_wrt (<) (map w_id (workers s)) \<and> (\<forall>i \<in> set (map w_id (workers s)). i \<in> set (requests s))"

lemma ids_inv_cong:
  "ids_inv s \<Longrightarrow> requests t = requests s \<Longrightarrow> lastStreamID t = lastStreamID s \<Longrightarrow>
   map w_id (workers t) = map w_id (workers s) \<Longrightarrow> ids_inv t"
  unfolding ids_inv_def by metis

lemma ids_inv_started:
  assumes "ids_inv s" "call_started i s t" "i mod 2 = 1"
  shows "ids_inv t"
proof -
  have less: "\<forall>j \<in> set (requests s). j < i"
    using assms(1,2) by (auto simp: ids_inv_def call_started_def intro: le_less_trans)
  then have "\<forall>w \<in> set (workers s). w_id w < i"
    using assms(1) by (auto simp: ids_inv_def)
  with less assms show ?thesis
    by (auto simp: ids_inv_def call_started_def sorted_wrt_append dest: order.strict_implies_order)
qed

lemma set_worker_ids [simp]: "map w_id (workers (set_worker i pc s)) = map w_id (workers s)"
  by (simp add: set_worker_def map_update)
     (metis list_update_id map_update)

lemma set_worker_fields [simp]:
  "requests (set_worker i pc s) = requests s" "lastStreamID (set_worker i pc s) = lastStreamID s"
  "mpc (set_worker i pc s) = mpc s" "rpc (set_worker i pc s) = rpc s" "active (set_worker i pc s) = active s"
  "unbalanced (set_worker i pc s) = unbalanced s" "c_done (set_worker i pc s) = c_done s"
  "responses_sent (set_worker i pc s) = responses_sent s" "handlers (set_worker i pc s) = handlers s"
  "streams (set_worker i pc s) = streams s" "c_shutdown (set_worker i pc s) = c_shutdown s"
  "length (workers (set_worker i pc s)) = length (workers s)"
  by (simp_all add: set_worker_def)

text \<open>Every step but the receipt of a message leaves ids and calls alone.\<close>

lemma main_send_fields [simp]:
  "requests (main_send P r b e s) = requests s" "lastStreamID (main_send P r b e s) = lastStreamID s"
  "workers (main_send P r b e s) = workers s" "rpc (main_send P r b e s) = rpc s"
  "active (main_send P r b e s) = active s" "unbalanced (main_send P r b e s) = unbalanced s"
  "handlers (main_send P r b e s) = handlers s" "streams (main_send P r b e s) = streams s"
  "c_shutdown (main_send P r b e s) = c_shutdown s"
  by (simp_all add: main_send_def conn_exit_def split: sum.split prod.split option.split)

lemma conn_step_ids:
  assumes "conn_step E s e = Some t" "\<And>mh p err ctx_err pick. e \<noteq> RMessage mh p err ctx_err pick"
  shows "requests t = requests s \<and> lastStreamID t = lastStreamID s \<and>
    map w_id (workers t) = map w_id (workers s)"
proof (cases e)
  case (RWaitData ctx_err pick)
  with assms show ?thesis by (auto dest!: recv_data_eq simp: calls_eq_def split: recv_pc.splits)
qed (use assms in \<open>auto simp: conn_close_def main_guard_def conn_exit_def conn_return_def Let_def
      split: if_splits recv_pc.splits main_pc.splits option.splits outcome.splits worker_pc.splits prod.splits bool.splits\<close>)

lemma ids_inv_step:
  assumes "ids_inv s" "conn_step E s e = Some t"
  shows "ids_inv t"
proof (cases "\<exists>mh p err ctx_err pick. e = RMessage mh p err ctx_err pick")
  case True
  then obtain mh p err ctx_err pick where "recv_body E mh p err ctx_err pick s = Some t"
    using assms(2) by (auto split: if_splits)
  from recv_body_eq [OF this] assms(1) show ?thesis
    using ids_inv_started by (auto simp: calls_eq_def intro: ids_inv_cong)
next
  case False
  with conn_step_ids [OF assms(2)] assms(1) show ?thesis by (blast intro: ids_inv_cong)
qed

interpretation conn_ids: step_invariant "conn_step E" ids_inv for E
  by unfold_locales (rule ids_inv_step)

lemma ids_inv_init: "ids_inv conn0"
  by (simp add: ids_inv_def conn0_def)

text \<open>The ids taken only grow at the end, and \<open>lastStreamID\<close> never decreases.\<close>

definition requests_le :: "sconn \<Rightarrow> sconn \<Rightarrow> bool" where
  "requests_le s t \<longleftrightarrow> (\<exists>is. requests t = requests s @ is) \<and> lastStreamID s \<le> lastStreamID t"

lemma requests_le_step:
  assumes "conn_step E s e = Some t"
  shows "requests_le s t"
proof (cases "\<exists>mh p err ctx_err pick. e = RMessage mh p err ctx_err pick")
  case True
  then obtain mh p err ctx_err pick where "recv_body E mh p err ctx_err pick s = Some t"
    using assms by (auto split: if_splits)
  from recv_body_eq [OF this] show ?thesis
    by (auto simp: requests_le_def calls_eq_def call_started_def)
next
  case False
  with conn_step_ids [OF assms] show ?thesis by (auto simp: requests_le_def)
qed

interpretation conn_mono: step_monotone "conn_step E" requests_le for E
proof unfold_locales
  show "requests_le s s" for s by (simp add: requests_le_def)
  show "requests_le s u" if "requests_le s t" "requests_le t u" for s t u
    using that by (auto simp: requests_le_def)
  show "requests_le s t" if "conn_step E s e = Some t" for s e t
    by (rule requests_le_step [OF that])
qed

section \<open>The count of active calls\<close>

text \<open>A call is open until its last response has been taken off \<open>active\<close>.\<close>

definition in_flight :: "main_pc \<Rightarrow> int" where
  "in_flight pc =
     (case pc of
        MSend r from_status \<Rightarrow> if closeStream r \<and> \<not> from_status then 1 else 0
      | MDelete i from_status \<Rightarrow> if from_status then 0 else 1
      | MDec from_status \<Rightarrow> if from_status then 0 else 1
      | _ \<Rightarrow> 0)"

definition open_calls :: "sconn \<Rightarrow> int" where
  "open_calls s = int (length (filter (\<lambda>w. w_pc w \<noteq> WDone) (workers s))) + in_flight (mpc s)"

definition count_inv :: "sconn \<Rightarrow> bool" where [inv_defs]:
  "count_inv s \<longleftrightarrow>
     (c_done s \<longleftrightarrow> mpc s = MExit) \<and>
     (case mpc s of MSend r True \<Rightarrow> closeStream r | _ \<Rightarrow> True) \<and>
     (mpc s \<noteq> MExit \<and> mpc s \<noteq> MLeft \<longrightarrow>
        active s + (if no_add (rpc s) then 0 else 1) + int (unbalanced s) = open_calls s)"

lemma count_inv_init: "count_inv conn0"
  by (simp add: count_inv_def conn0_def open_calls_def in_flight_def)

lemma filter_update:
  assumes "i < length xs"
  shows "int (length (filter P (xs[i := x]))) =
    int (length (filter P xs)) - (if P (xs ! i) then 1 else 0) + (if P x then 1 else 0)"
proof -
  have xs: "xs = take i xs @ xs ! i # drop (Suc i) xs"
    using assms by (rule id_take_nth_drop)
  have "xs[i := x] = take i xs @ x # drop (Suc i) xs"
    using assms by (rule upd_conv_take_nth_drop)
  then have "length (filter P (xs[i := x])) =
      length (filter P (take i xs)) + (if P x then 1 else 0) + length (filter P (drop (Suc i) xs))"
    by simp
  moreover have "length (filter P xs) =
      length (filter P (take i xs)) + (if P (xs ! i) then 1 else 0) + length (filter P (drop (Suc i) xs))"
    by (subst xs) simp
  ultimately show ?thesis by simp
qed

lemma open_calls_set_worker:
  "i < length (workers s) \<Longrightarrow>
   open_calls (set_worker i pc s) =
     open_calls s - (if w_pc (workers s ! i) \<noteq> WDone then 1 else 0) + (if pc \<noteq> WDone then 1 else 0)"
  by (simp add: open_calls_def set_worker_def filter_update)

lemma open_calls_cong:
  "workers t = workers s \<Longrightarrow> mpc t = mpc s \<Longrightarrow> open_calls t = open_calls s"
  by (simp add: open_calls_def)

lemma count_invD:
  assumes "count_inv s"
  shows "c_done s \<longleftrightarrow> mpc s = MExit" "mpc s = MSend r True \<Longrightarrow> closeStream r"
    "mpc s \<noteq> MExit \<Longrightarrow> mpc s \<noteq> MLeft \<Longrightarrow> active s + (if no_add (rpc s) then 0 else 1) + int (unbalanced s) = open_calls s"
  using assms by (simp_all add: count_inv_def)

lemma count_inv_recv:
  assumes "count_inv s" "no_add (rpc s)" "recv_frame_eq s t" "calls_eq s t \<or> call_started i s t"
  shows "count_inv t"
  using assms
  by (auto simp: count_inv_def recv_frame_eq_def calls_eq_def call_started_def open_calls_def)

lemma count_inv_exit: "count_inv s \<Longrightarrow> mpc s \<noteq> MExit \<Longrightarrow> count_inv (conn_exit s)"
  by (simp add: count_inv_def conn_exit_def)

lemma count_inv_return: "count_inv (conn_return s)"
  by (simp add: count_inv_def conn_return_def)

lemma count_inv_send:
  assumes "count_inv s" "mpc s = MSend r b"
  shows "count_inv (main_send P r b e s)"
proof -
  have "count_inv (s\<lparr>responses_sent := rs, mpc := (if closeStream r then MDelete (resp_id r) b else MTop)\<rparr>)" for rs
    using assms by (cases b) (auto simp: count_inv_def open_calls_def in_flight_def)
  then show ?thesis
    using count_inv_exit [OF assms(1)] assms(2) by (auto simp: main_send_def split: sum.split prod.split option.split)
qed

lemma count_inv_step:
  assumes inv: "count_inv s" and st: "conn_step E s e = Some t"
  shows "count_inv t"
proof (cases e)
  case (RMessage mh p err ctx_err pick)
  with st have "rpc s = RRecv" "recv_body E mh p err ctx_err pick s = Some t" by (auto split: if_splits)
  with recv_body_eq count_inv_recv [OF inv] show ?thesis by force
next
  case (RWaitData ctx_err pick)
  with st obtain i flags p h where "rpc s = RData i flags p h" by (auto split: recv_pc.splits)
  with st RWaitData recv_data_eq count_inv_recv [OF inv] show ?thesis by fastforce
next
  case (MTakeWorker i)
  then obtain b r where m: "mpc s = MSelect b" "i < length (workers s)" "w_pc (workers s ! i) = WResp r"
    "t = (set_worker i (after_response r) s)\<lparr>mpc := MSend r False\<rparr>"
    using st by (auto split: main_pc.splits if_splits worker_pc.splits)
  let ?s' = "set_worker i (after_response r) s"
  have o: "open_calls ?s' = open_calls s - (if closeStream r then 1 else 0)"
    using m by (simp add: open_calls_set_worker after_response_def)
  have "open_calls t = open_calls ?s' + (if closeStream r then 1 else 0)"
    using m by (simp add: open_calls_def in_flight_def)
  with o count_invD [OF inv] m show ?thesis by (simp add: count_inv_def)
next
  case (MSent e)
  with st obtain r b where m: "mpc s = MSend r b" and t: "t = main_send (e_proto E) r b e s"
    by (auto split: main_pc.splits)
  show ?thesis unfolding t by (rule count_inv_send [OF inv m])
next
  case MTakeErr
  with inv st show ?thesis
    by (auto simp: count_inv_def open_calls_def in_flight_def conn_exit_def Let_def
        split: main_pc.splits if_splits outcome.splits option.splits)
next
  case MTakeStatus
  with inv st show ?thesis
    by (auto simp: count_inv_def open_calls_def in_flight_def status_response_def split: main_pc.splits recv_pc.splits)
next
  case (WFinish i st' p)
  with inv st open_calls_set_worker [of i s] show ?thesis by (auto simp: count_inv_def split: if_splits)
next
  case (WSend i p)
  with inv st open_calls_set_worker [of i s] show ?thesis by (auto simp: count_inv_def split: if_splits)
next
  case (WAbort i)
  with inv st show ?thesis by (auto simp: count_inv_def split: if_splits worker_pc.splits)
next
  case (WRecv i)
  with inv st show ?thesis
    by (auto simp: count_inv_def open_calls_def split: if_splits option.splits outcome.splits)
next
  case MShutdown
  with inv st count_inv_exit [OF inv] show ?thesis by (auto split: main_pc.splits bool.splits if_splits)
next
  case MReturn
  with st count_inv_return show ?thesis by (auto split: if_splits)
next
  case MDoDelete
  then obtain i b where "mpc s = MDelete i b" "t = s\<lparr>streams := (streams s)(i := None), mpc := MDec b\<rparr>"
    using st by (auto split: main_pc.splits)
  with count_invD [OF inv] show ?thesis by (simp add: count_inv_def open_calls_def in_flight_def)
next
  case MDoDec
  then obtain b where "mpc s = MDec b"
    "t = s\<lparr>active := active s - 1, mpc := MTop, unbalanced := (if b then Suc (unbalanced s) else unbalanced s)\<rparr>"
    using st by (auto split: main_pc.splits)
  with count_invD [OF inv] show ?thesis
    by (cases b) (auto simp: count_inv_def open_calls_def in_flight_def split: if_splits)
next
  case MGuard
  then have "mpc s = MTop" "t = main_guard s" using st by (auto split: if_splits)
  with count_invD [OF inv] show ?thesis by (simp add: count_inv_def open_calls_def in_flight_def main_guard_def)
qed (use inv st in \<open>auto simp: count_inv_def open_calls_def conn_close_def split: if_splits recv_pc.splits\<close>)

interpretation conn_count: step_invariant "conn_step E" count_inv for E
  by unfold_locales (rule count_inv_step)

section \<open>Handlers\<close>

text \<open>Every stream handler in use exists and its queue is closed exactly when the client's side is.\<close>

definition hdl_inv :: "sconn \<Rightarrow> bool" where [inv_defs]:
  "hdl_inv s \<longleftrightarrow>
     (\<forall>h < length (handlers s). remoteClosed (handlers s ! h) \<longleftrightarrow> chan_closed (h_recv (handlers s ! h))) \<and>
     (\<forall>i h. streams s i = Some (Some h) \<longrightarrow> h < length (handlers s)) \<and>
     (case rpc s of
        RData i f p h \<Rightarrow> h < length (handlers s) \<and> \<not> remoteClosed (handlers s ! h)
      | RStore i (Some h) \<Rightarrow> h < length (handlers s)
      | _ \<Rightarrow> True)"

lemma hdl_inv_init: "hdl_inv conn0"
  by (simp add: hdl_inv_def conn0_def)

lemma hdl_inv_alt:
  "hdl_inv s \<longleftrightarrow> (\<forall>sh \<in> set (handlers s). handler_ok sh) \<and>
     (\<forall>i h. streams s i = Some (Some h) \<longrightarrow> h < length (handlers s)) \<and>
     (case rpc s of
        RData i f p h \<Rightarrow> h < length (handlers s) \<and> \<not> remoteClosed (handlers s ! h)
      | RStore i (Some h) \<Rightarrow> h < length (handlers s)
      | _ \<Rightarrow> True)"
  by (auto simp: hdl_inv_def handler_ok_def all_set_conv_all_nth)

lemma closeSend_ok: "handler_ok sh \<Longrightarrow> \<exists>sh'. closeSend sh = Ok sh' \<and> handler_ok sh' \<and> remoteClosed sh'"
  by (auto simp: closeSend_def chan_close_def handler_ok_def)

lemma handlers_update_ok:
  "\<forall>sh \<in> set xs. handler_ok sh \<Longrightarrow> handler_ok x \<Longrightarrow> \<forall>sh \<in> set (xs[h := x]). handler_ok sh"
  using set_update_subset_insert by fastforce

lemma recv_close_inv:
  assumes "\<forall>sh \<in> set (handlers s). handler_ok sh" "\<forall>i h. streams s i = Some (Some h) \<longrightarrow> h < length (handlers s)"
    and "h < length (handlers s)"
  shows "hdl_inv (recv_close mh p h s) \<and> rpc (recv_close mh p h s) \<noteq> RPanic"
proof -
  obtain sh where "closeSend (handlers s ! h) = Ok sh" "handler_ok sh"
    using closeSend_ok assms(1,3) by (meson nth_mem)
  with assms handlers_update_ok [of "handlers s" sh h] show ?thesis
    by (auto simp: recv_close_def hdl_inv_alt invalid_def Let_def)
qed

lemma recv_data_inv:
  assumes s: "\<forall>sh \<in> set (handlers s). handler_ok sh" "\<forall>i h. streams s i = Some (Some h) \<longrightarrow> h < length (handlers s)"
    and h: "h < length (handlers s)" and st: "recv_data L mh p h r s = Some t" and r: "r \<noteq> Panic"
    and ok: "\<And>ph s'. r = Ok (ph, s') \<Longrightarrow>
      (\<exists>c. \<not> remoteClosed (handlers s ! h) \<and> chan_send p (h_recv (handlers s ! h)) = Ok c \<and> ph = DataReturned None \<and>
           s' = (handlers s ! h)\<lparr>h_recv := c\<rparr>) \<or>
      (s' = handlers s ! h \<and> ((ph = DataWait \<and> \<not> remoteClosed (handlers s ! h)) \<or> (\<exists>e. ph = DataReturned (Some e))))"
  shows "hdl_inv t \<and> rpc t \<noteq> RPanic"
proof -
  obtain ph sh where rs: "r = Ok (ph, sh)" using st r by (cases r) (auto simp: recv_data_def)
  from ok [OF rs] show ?thesis
  proof (elim disjE conjE exE)
    fix c assume c: "\<not> remoteClosed (handlers s ! h)" "chan_send p (h_recv (handlers s ! h)) = Ok c"
      and *: "ph = DataReturned None" "sh = (handlers s ! h)\<lparr>h_recv := c\<rparr>"
    have "handler_ok sh" using c * by (auto simp: handler_ok_def chan_send_Ok_iff)
    let ?s = "s\<lparr>handlers := (handlers s)[h := sh]\<rparr>"
    have "t = recv_close mh p h ?s" using st rs * by (simp add: recv_data_def)
    moreover have "\<forall>x \<in> set (handlers ?s). handler_ok x"
      using handlers_update_ok [OF s(1) \<open>handler_ok sh\<close>] by simp
    ultimately show ?thesis using recv_close_inv [of ?s h mh p] s(2) h by simp
  next
    assume "sh = handlers s ! h" "ph = DataWait" "\<not> remoteClosed (handlers s ! h)"
    then show ?thesis using st rs s h by (auto simp: recv_data_def hdl_inv_alt)
  next
    fix e assume "sh = handlers s ! h" "ph = DataReturned (Some e)"
    then show ?thesis using st rs s h by (auto simp: recv_data_def hdl_inv_alt invalid_def)
  qed
qed

lemma start_work_hdl:
  assumes "start_work i w sh s = (t, ref)" "\<forall>x \<in> set (handlers s). handler_ok x" "\<And>x. sh = Some x \<Longrightarrow> handler_ok x"
  shows "(\<forall>x \<in> set (handlers t). handler_ok x) \<and> length (handlers s) \<le> length (handlers t) \<and>
    (\<forall>k. ref = Some k \<longrightarrow> k < length (handlers t)) \<and> streams t = streams s"
  using assms by (cases sh) (auto simp: start_work_def handler_ok_def split: work.splits)

lemma recv_request_hdl:
  assumes inv: "hdl_inv s" and st: "recv_request E mh p ctx_err pick s = Some t"
  shows "hdl_inv t \<and> rpc t \<noteq> RPanic"
  using st
proof (cases rule: recv_request_cases)
  case reused
  with inv show ?thesis by (simp add: invalid_def hdl_inv_alt)
next
  case bad
  with inv show ?thesis by (simp add: invalid_def hdl_inv_alt)
next
  case (refused h' w s2 ref st')
  have "\<forall>i h. streams s i = Some (Some h) \<longrightarrow> h < length (handlers s)" using inv by (simp add: hdl_inv_alt)
  moreover have "(\<forall>x \<in> set (handlers s2). handler_ok x) \<and> length (handlers s) \<le> length (handlers s2) \<and> streams s2 = streams s"
    using start_work_hdl [OF refused(2)] inv by (simp add: hdl_inv_alt)
  ultimately show ?thesis by (auto simp: hdl_inv_alt refused(3)) (meson order.strict_trans2)
next
  case (started h' w sh s2 ref)
  have "\<forall>i h. streams s i = Some (Some h) \<longrightarrow> h < length (handlers s)" using inv by (simp add: hdl_inv_alt)
  moreover have "(\<forall>x \<in> set (handlers s2). handler_ok x) \<and> length (handlers s) \<le> length (handlers s2) \<and>
      (\<forall>k. ref = Some k \<longrightarrow> k < length (handlers s2)) \<and> streams s2 = streams s"
    using start_work_hdl [OF started(2) _ started(5)] inv by (simp add: hdl_inv_alt)
  ultimately show ?thesis by (auto simp: hdl_inv_alt started(3) split: option.splits) (meson order.strict_trans2)+
qed

text \<open>The only crash: a data message on the stream of a unary call.\<close>

definition nil_dereference :: "sconn \<Rightarrow> conn_event \<Rightarrow> bool" where
  "nil_dereference s e =
     (case e of
        RMessage mh p err ctx_err pick \<Rightarrow>
          err = None \<and> StreamID mh mod 2 = 1 \<and> Type mh = messageTypeData \<and> streams s (StreamID mh) = Some None \<and>
          (\<not> has_flag (Flags mh) flagNoData \<or> has_flag (Flags mh) flagRemoteClosed)
      | _ \<Rightarrow> False)"

lemma recv_data_message_hdl:
  assumes inv: "hdl_inv s" and st: "recv_data_message L mh p ctx_err pick s = Some t"
  shows "hdl_inv t \<and>
    (rpc t = RPanic \<longrightarrow> streams s (StreamID mh) = Some None \<and>
       (\<not> has_flag (Flags mh) flagNoData \<or> has_flag (Flags mh) flagRemoteClosed))"
proof -
  note H = inv [unfolded hdl_inv_alt]
  show ?thesis
  proof (cases "streams s (StreamID mh)")
    case None
    with st H show ?thesis by (auto simp: recv_data_message_def invalid_def hdl_inv_alt)
  next
    case (Some ref)
    show ?thesis
    proof (cases ref)
      case None
      with Some st H show ?thesis by (auto simp: recv_data_message_def hdl_inv_alt split: if_splits)
    next
      case (Some h)
      with \<open>streams s (StreamID mh) = Some ref\<close> H have h: "h < length (handlers s)" by blast
      then have ok: "remoteClosed (handlers s ! h) \<longleftrightarrow> chan_closed (h_recv (handlers s ! h))"
        using inv by (simp add: hdl_inv_def)
      show ?thesis
      proof (cases "has_flag (Flags mh) flagNoData")
        case True
        with Some \<open>streams s (StreamID mh) = Some ref\<close> st recv_close_inv [of s h mh p] H h show ?thesis
          by (auto simp: recv_data_message_def)
      next
        case False
        with Some \<open>streams s (StreamID mh) = Some ref\<close> st
        have "recv_data L mh p h (data_start ctx_err pick p (handlers s ! h)) s = Some t"
          by (simp add: recv_data_message_def)
        from recv_data_inv [OF _ _ h this data_start_cases [OF refl ok, of ctx_err pick p]] H show ?thesis by blast
      qed
    qed
  qed
qed

lemma recv_body_hdl:
  assumes inv: "hdl_inv s" and st: "recv_body E mh p err ctx_err pick s = Some t"
  shows "hdl_inv t \<and> (rpc t = RPanic \<longrightarrow> nil_dereference s (RMessage mh p err ctx_err pick))"
proof (cases "err = None \<and> StreamID mh mod 2 = 1 \<and> (Type mh = messageTypeData \<or> Type mh = messageTypeRequest)")
  case False
  then have "handlers t = handlers s \<and> streams t = streams s \<and> (rpc t = RTop \<or> rpc t = RExit \<or> (\<exists>i x. rpc t = RSendStatus i x))"
    using st
    by (auto simp: recv_body_def invalid_def split: option.splits prod.splits if_splits outcome.splits)
  then show ?thesis using inv by (auto simp: hdl_inv_alt)
next
  case True
  then consider
      (data) "Type mh = messageTypeData" "recv_data_message (e_lib E) mh p ctx_err pick s = Some t"
    | (request) "recv_request E mh p ctx_err pick s = Some t"
    using st by (auto simp: recv_body_def split: if_splits)
  then show ?thesis
  proof cases
    case data
    from recv_data_message_hdl [OF inv data(2)] data(1) True show ?thesis
      by (auto simp: nil_dereference_def)
  next
    case request
    from recv_request_hdl [OF inv request] show ?thesis by blast
  qed
qed

lemma hdl_inv_cong:
  assumes inv: "hdl_inv s" and h: "handlers t = handlers s"
    and str: "\<And>i h. streams t i = Some (Some h) \<Longrightarrow> streams s i = Some (Some h)"
    and pc: "rpc t = rpc s \<or> (\<forall>i f p h. rpc t \<noteq> RData i f p h) \<and> (\<forall>i r. rpc t \<noteq> RStore i r)"
  shows "hdl_inv t"
proof -
  note H = inv [unfolded hdl_inv_alt]
  have "h' < length (handlers t)" if "streams t i = Some (Some h')" for i h'
    using str [OF that] H h by auto
  moreover have "case rpc t of
        RData i f p h \<Rightarrow> h < length (handlers t) \<and> \<not> remoteClosed (handlers t ! h)
      | RStore i (Some h) \<Rightarrow> h < length (handlers t)
      | _ \<Rightarrow> True"
  proof (cases "rpc t = rpc s")
    case True
    with H show ?thesis unfolding True h by blast
  next
    case False
    with pc show ?thesis by (auto split: recv_pc.splits)
  qed
  ultimately show ?thesis unfolding hdl_inv_alt using H h by simp
qed

text \<open>The events that change the table of streams, the handlers, or hand a call to \<open>rpc\<close>.\<close>

definition handler_event :: "conn_event \<Rightarrow> bool" where
  "handler_event e \<longleftrightarrow>
     (case e of RMessage _ _ _ _ _ \<Rightarrow> True | RWaitData _ _ \<Rightarrow> True | RDoStore \<Rightarrow> True | MDoDelete \<Rightarrow> True | WRecv _ \<Rightarrow> True | _ \<Rightarrow> False)"

lemma conn_step_no_handler:
  assumes "conn_step E s e = Some t" "\<not> handler_event e"
  shows "handlers t = handlers s \<and> streams t = streams s \<and> (rpc t = rpc s \<or> rpc t \<in> {RTop, RRecv, RExit})"
  using assms
  by (cases e) (auto simp: handler_event_def conn_close_def conn_exit_def conn_return_def main_guard_def Let_def
      split: if_splits bool.splits main_pc.splits recv_pc.splits worker_pc.splits option.splits outcome.splits prod.splits)

lemma hdl_inv_no_handler:
  assumes "hdl_inv s" "conn_step E s e = Some t" "\<not> handler_event e"
  shows "hdl_inv t \<and> (rpc t = RPanic \<longrightarrow> rpc s = RPanic)"
  using conn_step_no_handler [OF assms(2,3)] by (auto intro: hdl_inv_cong [OF assms(1)])

lemma hdl_inv_handler_recv:
  assumes inv: "hdl_inv s" and c: "chan_recv (h_recv (handlers s ! h)) = Ok (u, c)"
  shows "hdl_inv (s\<lparr>handlers := (handlers s)[h := (handlers s ! h)\<lparr>h_recv := c\<rparr>]\<rparr>)"
proof (cases "h < length (handlers s)")
  case True
  have ok: "\<forall>sh \<in> set (handlers s). handler_ok sh" using inv by (simp add: hdl_inv_alt)
  then have "handler_ok (handlers s ! h)" using True by simp
  then have "handler_ok ((handlers s ! h)\<lparr>h_recv := c\<rparr>)"
    using c by (auto simp: handler_ok_def chan_recv_def split: list.splits if_splits)
  from handlers_update_ok [OF ok this] have "\<forall>sh \<in> set ((handlers s)[h := (handlers s ! h)\<lparr>h_recv := c\<rparr>]). handler_ok sh" .
  moreover have "remoteClosed ((handlers s)[h := (handlers s ! h)\<lparr>h_recv := c\<rparr>] ! k) \<longleftrightarrow> remoteClosed (handlers s ! k)" for k
    using True by (cases "k = h") auto
  ultimately show ?thesis using inv by (auto simp: hdl_inv_alt split: recv_pc.splits option.splits)
qed (use inv in \<open>simp add: list_update_beyond\<close>)

lemma hdl_inv_wait_data:
  assumes inv: "hdl_inv s" and st: "conn_step E s (RWaitData ctx_err pick) = Some t"
  shows "hdl_inv t \<and> rpc t \<noteq> RPanic"
proof -
  from st obtain i flags p h where pc: "rpc s = RData i flags p h" by (auto split: recv_pc.splits)
  then have h: "h < length (handlers s)" "\<not> remoteClosed (handlers s ! h)"
    "remoteClosed (handlers s ! h) \<longleftrightarrow> chan_closed (h_recv (handlers s ! h))"
    using inv by (auto simp: hdl_inv_def)
  let ?mh = "\<lparr>Length = of_nat (length (bytes_of p)), StreamID = i, Type = messageTypeData, Flags = flags\<rparr>"
  have "recv_data (e_lib E) ?mh p h (data_wait ctx_err pick p (handlers s ! h)) s = Some t"
    using st pc by simp
  from recv_data_inv [OF _ _ h(1) this data_wait_cases [OF refl h(2,3), of ctx_err pick p]] inv show ?thesis
    unfolding hdl_inv_alt [of s] by blast
qed

lemma conn_step_hdl:
  assumes inv: "hdl_inv s" and st: "conn_step E s e = Some t"
  shows "hdl_inv t \<and> (rpc t = RPanic \<and> rpc s \<noteq> RPanic \<longrightarrow> nil_dereference s e)"
proof (cases "handler_event e")
  case True
  then show ?thesis
  proof (cases e)
    case (RMessage mh p err ctx_err pick)
    with st have "recv_body E mh p err ctx_err pick s = Some t" by (auto split: if_splits)
    from recv_body_hdl [OF inv this] RMessage show ?thesis by blast
  next
    case (RWaitData ctx_err pick)
    with st hdl_inv_wait_data [OF inv] show ?thesis by blast
  next
    case RDoStore
    with st obtain i r where "rpc s = RStore i r" "t = s\<lparr>streams := (streams s)(i \<mapsto> r), rpc := RAdd\<rparr>"
      by (auto split: recv_pc.splits)
    with inv show ?thesis by (auto simp: hdl_inv_alt)
  next
    case (WRecv i)
    with st hdl_inv_handler_recv [OF inv] show ?thesis
      by (auto split: if_splits option.splits outcome.splits prod.splits)
  next
    case MDoDelete
    with st obtain i b where "t = s\<lparr>streams := (streams s)(i := None), mpc := MDec b\<rparr>" by (auto split: main_pc.splits)
    with inv show ?thesis by (auto intro: hdl_inv_cong split: if_splits)
  qed (simp_all add: handler_event_def)
next
  case False
  with hdl_inv_no_handler [OF inv st] show ?thesis by blast
qed

interpretation conn_hdl: step_invariant "conn_step E" hdl_inv for E
  by unfold_locales (simp add: conn_step_hdl)

section \<open>Responses of a call\<close>

text \<open>The responses of calls written so far and the one being written, without those of \<open>sendStatus\<close>.\<close>

definition call_responses :: "sconn \<Rightarrow> response list" where
  "call_responses s =
     map fst (filter (\<lambda>x. \<not> snd x) (responses_sent s)) @ (case mpc s of MSend r False \<Rightarrow> [r] | _ \<Rightarrow> [])"

definition responses_for :: "u32 \<Rightarrow> response list \<Rightarrow> response list" where
  "responses_for i rs = filter (\<lambda>r. resp_id r = i) rs"

definition final_last :: "response list \<Rightarrow> bool" where
  "final_last rs \<longleftrightarrow> (\<forall>r \<in> set (butlast rs). \<not> closeStream r)"

lemma final_last_simps [simp]:
  "final_last []" "final_last (rs @ [r]) \<longleftrightarrow> (\<forall>r \<in> set rs. \<not> closeStream r)"
  by (simp_all add: final_last_def)

lemma final_last_append: "final_last (rs @ qs) \<Longrightarrow> final_last rs"
  by (cases "qs = []") (auto simp: final_last_def butlast_append dest: in_set_butlastD)

lemma responses_for_append [simp]: "responses_for i (rs @ qs) = responses_for i rs @ responses_for i qs"
  by (simp add: responses_for_def)

lemma set_responses_for [simp]: "r \<in> set (responses_for i rs) \<longleftrightarrow> r \<in> set rs \<and> resp_id r = i"
  by (auto simp: responses_for_def)

lemma responses_for_other: "(\<forall>r \<in> set rs. resp_id r \<noteq> i) \<Longrightarrow> responses_for i rs = []"
  by (simp add: responses_for_def)

text \<open>A worker against the responses it has sent.\<close>

definition worker_ok :: "response list \<Rightarrow> worker \<Rightarrow> bool" where
  "worker_ok rs w \<longleftrightarrow>
     (\<forall>r. w_pc w = WResp r \<longrightarrow> resp_id r = w_id w) \<and>
     (w_pc w \<noteq> WDone \<longrightarrow> (\<forall>r \<in> set (responses_for (w_id w) rs). \<not> closeStream r)) \<and>
     final_last (responses_for (w_id w) rs)"

definition resp_inv :: "sconn \<Rightarrow> bool" where [inv_defs]:
  "resp_inv s \<longleftrightarrow> ids_inv s \<and>
     (\<forall>r \<in> set (call_responses s). resp_id r \<in> set (map w_id (workers s))) \<and>
     (\<forall>w \<in> set (workers s). worker_ok (call_responses s) w)"

lemma resp_inv_init: "resp_inv conn0"
  using ids_inv_init by (simp add: resp_inv_def) (simp add: conn0_def call_responses_def)

lemma resp_inv_cong:
  "resp_inv s \<Longrightarrow> ids_inv t \<Longrightarrow> workers t = workers s \<Longrightarrow> call_responses t = call_responses s \<Longrightarrow> resp_inv t"
  by (simp add: resp_inv_def)

lemma worker_ok_prefix: "worker_ok (rs @ qs) w \<Longrightarrow> worker_ok rs w"
  by (auto simp: worker_ok_def dest: final_last_append)

lemma call_responses_mpc: "mpc t = mpc s \<Longrightarrow> responses_sent t = responses_sent s \<Longrightarrow> call_responses t = call_responses s"
  by (simp add: call_responses_def)

lemma resp_inv_started:
  assumes inv: "resp_inv s" and st: "call_started i s t" and ids: "ids_inv t" and eq: "call_responses t = call_responses s"
  shows "resp_inv t"
proof (cases "workers t = workers s")
  case True
  with inv ids eq show ?thesis by (simp add: resp_inv_def)
next
  case False
  then obtain w where w: "w_id w = i" "w_pc w = WRun" "workers t = workers s @ [w]"
    using st by (auto simp: call_started_def)
  have less: "j < i" if "j \<in> set (map w_id (workers s))" for j
    using ids that by (auto simp: ids_inv_def w sorted_wrt_append)
  have "\<forall>r \<in> set (call_responses s). resp_id r \<noteq> i"
    using inv less unfolding resp_inv_def by blast
  then have "worker_ok (call_responses s) w"
    by (simp add: worker_ok_def w responses_for_other)
  with inv ids eq w show ?thesis by (auto simp: resp_inv_def)
qed

text \<open>Worker \<open>i\<close> moves on, possibly by handing its response to the main loop.\<close>

lemma distinct_ids: "ids_inv s \<Longrightarrow> distinct (map w_id (workers s))"
  by (auto simp: ids_inv_def strict_sorted_iff)

lemma resp_inv_worker:
  assumes inv: "resp_inv s" and i: "i < length (workers s)"
    and ids: "ids_inv t" and ws: "workers t = (workers s)[i := (workers s ! i)\<lparr>w_pc := pc\<rparr>]"
    and rs: "call_responses t = call_responses s @ rs" "\<forall>r \<in> set rs. resp_id r = w_id (workers s ! i)"
    and ok: "worker_ok (call_responses t) ((workers s ! i)\<lparr>w_pc := pc\<rparr>)"
  shows "resp_inv t"
proof -
  have ids_eq: "map w_id (workers t) = map w_id (workers s)"
    using set_worker_ids [of i pc s] by (simp add: ws set_worker_def)
  have "worker_ok (call_responses t) w" if w: "w \<in> set (workers t)" for w
  proof -
    obtain j where j: "j < length (workers s)" "w = workers t ! j"
      using w by (auto simp: in_set_conv_nth ws)
    show ?thesis
    proof (cases "j = i")
      case True
      with ok i j show ?thesis by (simp add: ws)
    next
      case False
      then have w': "w = workers s ! j" using j by (simp add: ws)
      have "w_id (workers s ! j) \<noteq> w_id (workers s ! i)"
        using distinct_ids inv i j(1) False unfolding resp_inv_def
        by (metis distinct_conv_nth length_map nth_map)
      then have "responses_for (w_id w) (call_responses t) = responses_for (w_id w) (call_responses s)"
        using rs by (simp add: w' responses_for_other)
      moreover have "worker_ok (call_responses s) w"
        using inv j(1) by (simp add: resp_inv_def w')
      ultimately show ?thesis by (simp add: worker_ok_def)
    qed
  qed
  moreover have "resp_id r \<in> set (map w_id (workers t))" if "r \<in> set (call_responses t)" for r
    using that inv rs i unfolding ids_eq by (auto simp: resp_inv_def)
  ultimately show ?thesis using ids by (simp add: resp_inv_def)
qed

lemma call_responses_exit: "\<exists>rs. call_responses s = call_responses (conn_exit s) @ rs"
  by (simp add: call_responses_def conn_exit_def)

lemma call_responses_send:
  assumes "mpc s = MSend r b"
  shows "\<exists>rs. call_responses s = call_responses (main_send P r b e s) @ rs"
proof -
  have "call_responses (s\<lparr>responses_sent := responses_sent s @ [(r, b)],
      mpc := (if closeStream r then MDelete (resp_id r) b else MTop)\<rparr>) = call_responses s"
    using assms by (cases b) (simp_all add: call_responses_def)
  then show ?thesis
    using call_responses_exit [of s] by (auto simp: main_send_def split: sum.split prod.split option.split)
qed

lemma resp_inv_prefix:
  assumes "resp_inv s" "ids_inv t" "workers t = workers s" "call_responses s = call_responses t @ rs"
  shows "resp_inv t"
  using assms unfolding resp_inv_def by (auto dest: worker_ok_prefix)

text \<open>The steps of the worker goroutines, and the other steps that leave the responses of calls alone.\<close>

definition quiet_event :: "conn_event \<Rightarrow> bool" where
  "quiet_event e \<longleftrightarrow>
     (case e of RMessage _ _ _ _ _ \<Rightarrow> False | MTakeWorker _ \<Rightarrow> False | MSent _ \<Rightarrow> False
      | WFinish _ _ _ \<Rightarrow> False | WSend _ _ \<Rightarrow> False | WAbort _ \<Rightarrow> False | _ \<Rightarrow> True)"

lemma conn_step_quiet:
  assumes st: "conn_step E s e = Some t" and "quiet_event e"
  shows "workers t = workers s \<and> call_responses t = call_responses s"
proof (cases e)
  case (RWaitData ctx_err pick)
  with st have "recv_frame_eq s t \<and> calls_eq s t" by (auto dest!: recv_data_eq split: recv_pc.splits)
  then show ?thesis by (auto simp: call_responses_def recv_frame_eq_def calls_eq_def)
next
  case MTakeErr
  with st show ?thesis
    by (auto simp: call_responses_def conn_exit_def Let_def split: main_pc.splits if_splits outcome.splits option.splits prod.splits)
next
  case MShutdown
  with st show ?thesis
    by (auto simp: call_responses_def conn_exit_def split: main_pc.splits bool.splits if_splits)
next
  case MTakeStatus
  with st show ?thesis by (auto simp: call_responses_def split: main_pc.splits recv_pc.splits)
next
  case MDoDelete
  with st show ?thesis by (auto simp: call_responses_def split: main_pc.splits)
next
  case MDoDec
  with st show ?thesis by (auto simp: call_responses_def split: main_pc.splits)
next
  case MReturn
  with st show ?thesis by (auto simp: call_responses_def conn_return_def split: if_splits)
next
  case MGuard
  with st show ?thesis by (auto simp: call_responses_def main_guard_def split: if_splits)
qed (use assms in \<open>auto intro!: call_responses_mpc simp: quiet_event_def conn_close_def
    split: if_splits recv_pc.splits option.splits outcome.splits\<close>)

lemma conn_step_worker:
  assumes "conn_step E s e = Some t" "(\<exists>i x p. e = WFinish i x p) \<or> (\<exists>i p. e = WSend i p) \<or> (\<exists>i. e = WAbort i)"
  obtains i pc where "i < length (workers s)" "t = set_worker i pc s"
    "worker_ok rs (workers s ! i) \<Longrightarrow> worker_ok rs ((workers s ! i)\<lparr>w_pc := pc\<rparr>)"
proof (cases e)
  case (WFinish i x p)
  with assms(1) show ?thesis
    by (intro that [of i "WResp (final_response (workers s ! i) x p)"])
      (auto simp: worker_ok_def final_response_def split: if_splits)
next
  case (WSend i p)
  with assms(1) show ?thesis
    by (intro that [of i "WResp (stream_response (workers s ! i) p)"])
      (auto simp: worker_ok_def stream_response_def split: if_splits)
next
  case (WAbort i)
  with assms(1) obtain r where "i < length (workers s)" "w_pc (workers s ! i) = WResp r" "t = set_worker i (after_response r) s"
    by (auto split: if_splits worker_pc.splits)
  then show ?thesis
    by (intro that [of i "after_response r"]) (auto simp: worker_ok_def after_response_def split: if_splits)
qed (use assms(2) in auto)

lemma resp_inv_take:
  assumes inv: "resp_inv s" and ids: "ids_inv t" and st: "conn_step E s (MTakeWorker i) = Some t"
  shows "resp_inv t"
proof -
  from st obtain b r where m: "mpc s = MSelect b" "i < length (workers s)" "w_pc (workers s ! i) = WResp r"
    "t = (set_worker i (after_response r) s)\<lparr>mpc := MSend r False\<rparr>"
    by (auto split: main_pc.splits if_splits worker_pc.splits)
  have w: "worker_ok (call_responses s) (workers s ! i)" using inv m(2) by (simp add: resp_inv_def)
  have rs: "call_responses t = call_responses s @ [r]" using m by (simp add: call_responses_def)
  have "worker_ok (call_responses s @ [r]) ((workers s ! i)\<lparr>w_pc := after_response r\<rparr>)"
    using w m(3) by (auto simp: worker_ok_def after_response_def responses_for_def)
  moreover have "resp_id r = w_id (workers s ! i)" using w m(3) by (simp add: worker_ok_def)
  ultimately show ?thesis
    using m rs by (intro resp_inv_worker [OF inv m(2) ids _ rs]) (simp_all add: set_worker_def)
qed

lemma resp_inv_step:
  assumes inv: "resp_inv s" and st: "conn_step E s e = Some t"
  shows "resp_inv t"
proof -
  have ids: "ids_inv t" using ids_inv_step [OF _ st] inv by (simp add: resp_inv_def)
  consider (quiet) "quiet_event e" | (recv) mh p err ctx_err pick where "e = RMessage mh p err ctx_err pick"
    | (take) i where "e = MTakeWorker i" | (sent) x where "e = MSent x"
    | (worker) "(\<exists>i x p. e = WFinish i x p) \<or> (\<exists>i p. e = WSend i p) \<or> (\<exists>i. e = WAbort i)"
    by (cases e) (auto simp: quiet_event_def)
  then show ?thesis
  proof cases
    case quiet
    with conn_step_quiet [OF st] resp_inv_cong [OF inv ids] show ?thesis by blast
  next
    case recv
    with st have "recv_body E mh p err ctx_err pick s = Some t" by (auto split: if_splits)
    from recv_body_eq [OF this] have eq: "call_responses t = call_responses s"
      and "workers t = workers s \<or> call_started (StreamID mh) s t"
      by (auto simp: call_responses_def recv_frame_eq_def calls_eq_def)
    then show ?thesis using resp_inv_cong [OF inv ids] resp_inv_started [OF inv _ ids eq] by blast
  next
    case take
    with resp_inv_take [OF inv ids] st show ?thesis by blast
  next
    case sent
    with st obtain r b where m: "mpc s = MSend r b" and t: "t = main_send (e_proto E) r b x s"
      by (auto split: main_pc.splits)
    obtain rs where "call_responses s = call_responses t @ rs"
      using call_responses_send [OF m] unfolding t by blast
    from resp_inv_prefix [OF inv ids _ this] show ?thesis by (simp add: t)
  next
    case worker
    from conn_step_worker [OF st worker] obtain i pc where i: "i < length (workers s)" "t = set_worker i pc s"
      "worker_ok (call_responses s) (workers s ! i) \<Longrightarrow> worker_ok (call_responses s) ((workers s ! i)\<lparr>w_pc := pc\<rparr>)"
      by blast
    then have rs: "call_responses t = call_responses s @ []" by (simp add: call_responses_def)
    show ?thesis
      by (rule resp_inv_worker [OF inv i(1) ids _ rs]) (use i rs inv in \<open>auto simp: set_worker_def resp_inv_def\<close>)
  qed
qed

interpretation conn_resp: step_invariant "conn_step E" resp_inv for E
  by unfold_locales (rule resp_inv_step)

section \<open>Answers\<close>

definition main_live :: "main_pc \<Rightarrow> bool" where
  "main_live pc \<longleftrightarrow> pc \<noteq> MLeft \<and> pc \<noteq> MExit"

lemma main_live_simps [simp]:
  "main_live MTop" "main_live (MSelect b)" "main_live (MSend r x)" "main_live (MDelete i x)" "main_live (MDec x)"
  "\<not> main_live MLeft" "\<not> main_live MExit"
  by (simp_all add: main_live_def)

lemma main_live_step: "conn_step E s e = Some t \<Longrightarrow> main_live (mpc t) \<Longrightarrow> main_live (mpc s)"
  by (cases e; cases "mpc s")
    (auto simp: conn_return_def conn_close_def set_worker_def recv_frame_eq_def
      dest!: recv_body_eq recv_data_eq split: if_splits option.splits recv_pc.splits worker_pc.splits outcome.splits)

text \<open>A finished call was answered as long as the main loop runs; a unary call sends nothing but its answer.\<close>

definition worker_answered :: "bool \<Rightarrow> response list \<Rightarrow> worker \<Rightarrow> bool" where
  "worker_answered live rs w \<longleftrightarrow>
     (w_handler w = None \<longrightarrow>
        (\<forall>r. w_pc w = WResp r \<longrightarrow> closeStream r) \<and> (\<forall>r \<in> set (responses_for (w_id w) rs). closeStream r)) \<and>
     (live \<and> w_pc w = WDone \<longrightarrow> (\<exists>r \<in> set (responses_for (w_id w) rs). closeStream r))"

definition answered_inv :: "sconn \<Rightarrow> bool" where [inv_defs]:
  "answered_inv s \<longleftrightarrow> resp_inv s \<and> count_inv s \<and>
     (\<forall>w \<in> set (workers s). worker_answered (main_live (mpc s)) (call_responses s) w)"

lemma answered_inv_init: "answered_inv conn0"
  using resp_inv_init count_inv_init by (simp add: answered_inv_def) (simp add: conn0_def)

lemma worker_answered_less: "worker_answered live rs w \<Longrightarrow> (live' \<longrightarrow> live) \<Longrightarrow> worker_answered live' rs w"
  by (simp add: worker_answered_def)

lemma worker_answered_prefix: "worker_answered live (rs @ qs) w \<Longrightarrow> worker_answered False rs w"
  by (auto simp: worker_answered_def)

lemma worker_answered_other:
  "worker_answered live rs w \<Longrightarrow> (\<forall>r \<in> set qs. resp_id r \<noteq> w_id w) \<Longrightarrow> worker_answered live (rs @ qs) w"
  by (simp add: worker_answered_def responses_for_other)

lemma answered_started:
  assumes inv: "answered_inv s" "resp_inv t" and st: "call_started i s t" and eq: "call_responses t = call_responses s"
    and live: "main_live (mpc t) \<longrightarrow> main_live (mpc s)"
  shows "\<forall>w \<in> set (workers t). worker_answered (main_live (mpc t)) (call_responses t) w"
proof
  fix w assume w: "w \<in> set (workers t)"
  show "worker_answered (main_live (mpc t)) (call_responses t) w"
  proof (cases "w \<in> set (workers s)")
    case True
    with inv live eq show ?thesis by (auto simp: answered_inv_def intro: worker_answered_less)
  next
    case False
    with w st have new: "w_id w = i" "w_pc w = WRun" "workers t = workers s @ [w]" by (auto simp: call_started_def)
    have "j < i" if "j \<in> set (map w_id (workers s))" for j
      using inv(2) that by (auto simp: resp_inv_def ids_inv_def new sorted_wrt_append)
    then have "\<forall>r \<in> set (call_responses s). resp_id r \<noteq> i"
      using inv(1) unfolding answered_inv_def resp_inv_def by blast
    then show ?thesis by (simp add: worker_answered_def new eq responses_for_other)
  qed
qed

text \<open>Worker \<open>i\<close> moves on.\<close>

lemma answered_worker:
  assumes inv: "answered_inv s" and i: "i < length (workers s)"
    and ws: "workers t = (workers s)[i := (workers s ! i)\<lparr>w_pc := pc\<rparr>]" and live: "main_live (mpc t) \<longrightarrow> main_live (mpc s)"
    and rs: "call_responses t = call_responses s @ rs" "\<forall>r \<in> set rs. resp_id r = w_id (workers s ! i)"
    and ok: "worker_answered (main_live (mpc t)) (call_responses t) ((workers s ! i)\<lparr>w_pc := pc\<rparr>)"
  shows "\<forall>w \<in> set (workers t). worker_answered (main_live (mpc t)) (call_responses t) w"
proof
  fix w assume "w \<in> set (workers t)"
  then obtain j where j: "j < length (workers s)" "w = workers t ! j" by (auto simp: in_set_conv_nth ws)
  show "worker_answered (main_live (mpc t)) (call_responses t) w"
  proof (cases "j = i")
    case True
    with ok i j show ?thesis by (simp add: ws)
  next
    case False
    then have w': "w = workers s ! j" using j by (simp add: ws)
    have "distinct (map w_id (workers s))"
      using inv distinct_ids by (simp add: answered_inv_def resp_inv_def)
    then have "w_id (workers s ! j) \<noteq> w_id (workers s ! i)"
      using i j(1) False by (metis distinct_conv_nth length_map nth_map)
    moreover have "worker_answered (main_live (mpc t)) (call_responses s) w"
      using inv j(1) live by (auto simp: answered_inv_def w' intro: worker_answered_less)
    ultimately show ?thesis using rs by (auto simp: w' intro: worker_answered_other)
  qed
qed

lemma answered_take:
  assumes inv: "answered_inv s" and st: "conn_step E s (MTakeWorker i) = Some t"
  shows "\<forall>w \<in> set (workers t). worker_answered (main_live (mpc t)) (call_responses t) w"
proof -
  from st obtain b r where m: "mpc s = MSelect b" "i < length (workers s)" "w_pc (workers s ! i) = WResp r"
    "t = (set_worker i (after_response r) s)\<lparr>mpc := MSend r False\<rparr>"
    by (auto split: main_pc.splits if_splits worker_pc.splits)
  have rs: "call_responses t = call_responses s @ [r]" using m by (simp add: call_responses_def)
  have id: "resp_id r = w_id (workers s ! i)"
    using inv m(2,3) by (auto simp: answered_inv_def resp_inv_def worker_ok_def)
  have "worker_answered True (call_responses s) (workers s ! i)"
    using inv m(1,2) by (auto simp: answered_inv_def)
  then have "worker_answered True (call_responses s @ [r]) ((workers s ! i)\<lparr>w_pc := after_response r\<rparr>)"
    using m(3) id by (auto simp: worker_answered_def after_response_def responses_for_def)
  with m rs id show ?thesis
    by (intro answered_worker [OF inv m(2) _ _ rs]) (simp_all add: set_worker_def)
qed

lemma answered_send:
  assumes inv: "answered_inv s" and m: "mpc s = MSend r b"
  shows "\<forall>w \<in> set (workers s). worker_answered (main_live (mpc (main_send P r b e s))) (call_responses (main_send P r b e s)) w"
proof (cases "mpc (main_send P r b e s) = MLeft")
  case True
  obtain rs where "call_responses s = call_responses (main_send P r b e s) @ rs"
    using call_responses_send [OF m] by blast
  with inv True show ?thesis by (auto simp: answered_inv_def intro: worker_answered_prefix)
next
  case False
  then have "main_send P r b e s = s\<lparr>responses_sent := responses_sent s @ [(r, b)],
      mpc := (if closeStream r then MDelete (resp_id r) b else MTop)\<rparr>"
    by (auto simp: main_send_def conn_exit_def split: sum.splits prod.splits option.splits)
  moreover have "call_responses (s\<lparr>responses_sent := responses_sent s @ [(r, b)],
      mpc := (if closeStream r then MDelete (resp_id r) b else MTop)\<rparr>) = call_responses s"
    using m by (cases b) (simp_all add: call_responses_def)
  ultimately show ?thesis using inv m by (auto simp: answered_inv_def)
qed

lemma answered_goroutine:
  assumes inv: "answered_inv s" and st: "conn_step E s e = Some t"
    and e: "(\<exists>i x p. e = WFinish i x p) \<or> (\<exists>i p. e = WSend i p) \<or> (\<exists>i. e = WAbort i)"
  shows "\<forall>w \<in> set (workers t). worker_answered (main_live (mpc t)) (call_responses t) w"
proof -
  have "\<exists>i pc. i < length (workers s) \<and> t = set_worker i pc s \<and>
      (worker_answered (main_live (mpc s)) (call_responses s) (workers s ! i) \<longrightarrow>
       worker_answered (main_live (mpc s)) (call_responses s) ((workers s ! i)\<lparr>w_pc := pc\<rparr>))"
  proof (cases e)
    case (WFinish i x p)
    with st show ?thesis
      by (intro exI [of _ i] exI [of _ "WResp (final_response (workers s ! i) x p)"])
        (auto simp: worker_answered_def final_response_def split: if_splits)
  next
    case (WSend i p)
    with st show ?thesis
      by (intro exI [of _ i] exI [of _ "WResp (stream_response (workers s ! i) p)"])
        (auto simp: worker_answered_def stream_response_def split: if_splits)
  next
    case (WAbort i)
    with st obtain r where r: "i < length (workers s)" "w_pc (workers s ! i) = WResp r" "t = set_worker i (after_response r) s" "c_done s"
      by (auto split: if_splits worker_pc.splits)
    have "\<not> main_live (mpc s)" using inv r(4) by (simp add: answered_inv_def count_inv_def)
    with r show ?thesis
      by (intro exI [of _ i] exI [of _ "after_response r"]) (auto simp: worker_answered_def after_response_def)
  qed (use e in auto)
  then obtain i pc where i: "i < length (workers s)" "t = set_worker i pc s"
    "worker_answered (main_live (mpc s)) (call_responses s) ((workers s ! i)\<lparr>w_pc := pc\<rparr>)"
    using inv by (auto simp: answered_inv_def)
  then have "call_responses t = call_responses s @ []" by (simp add: call_responses_def)
  with i show ?thesis by (intro answered_worker [OF inv i(1)]) (auto simp: set_worker_def)
qed

lemma answered_inv_step:
  assumes inv: "answered_inv s" and st: "conn_step E s e = Some t"
  shows "answered_inv t"
proof -
  have base: "resp_inv t" "count_inv t"
    using inv resp_inv_step [OF _ st] count_inv_step [OF _ st] by (simp_all add: answered_inv_def)
  have live: "main_live (mpc t) \<longrightarrow> main_live (mpc s)" using main_live_step [OF st] by blast
  have same: "\<forall>w \<in> set (workers t). worker_answered (main_live (mpc t)) (call_responses t) w"
    if "workers t = workers s" "call_responses t = call_responses s"
    using inv live that by (auto simp: answered_inv_def intro: worker_answered_less)
  consider (quiet) "quiet_event e" | (recv) mh p err ctx_err pick where "e = RMessage mh p err ctx_err pick"
    | (take) i where "e = MTakeWorker i" | (sent) x where "e = MSent x"
    | (worker) "(\<exists>i x p. e = WFinish i x p) \<or> (\<exists>i p. e = WSend i p) \<or> (\<exists>i. e = WAbort i)"
    by (cases e) (auto simp: quiet_event_def)
  then have "\<forall>w \<in> set (workers t). worker_answered (main_live (mpc t)) (call_responses t) w"
  proof cases
    case quiet
    with conn_step_quiet [OF st] same show ?thesis by blast
  next
    case recv
    with st have "recv_body E mh p err ctx_err pick s = Some t" by (auto split: if_splits)
    from recv_body_eq [OF this] have eq: "call_responses t = call_responses s"
      and "workers t = workers s \<or> call_started (StreamID mh) s t"
      by (auto simp: call_responses_def recv_frame_eq_def calls_eq_def)
    then show ?thesis using same answered_started [OF inv base(1) _ eq live] by blast
  next
    case take
    with answered_take [OF inv] st show ?thesis by blast
  next
    case sent
    with st obtain r b where m: "mpc s = MSend r b" and t: "t = main_send (e_proto E) r b x s"
      by (auto split: main_pc.splits)
    from answered_send [OF inv m] show ?thesis by (simp add: t)
  next
    case worker
    with answered_goroutine [OF inv st] show ?thesis by blast
  qed
  with base show ?thesis by (simp add: answered_inv_def)
qed

interpretation conn_answered: step_invariant "conn_step E" answered_inv for E
  by unfold_locales (rule answered_inv_step)

text \<open>What \<open>sendStatus\<close> sends: a status, no data, and the stream is closed.\<close>

definition status_only :: "response \<Rightarrow> bool" where
  "status_only r \<longleftrightarrow> closeStream r \<and> resp_data r = None \<and> \<not> streaming r"

definition status_inv :: "sconn \<Rightarrow> bool" where [inv_defs]:
  "status_inv s \<longleftrightarrow> (\<forall>x \<in> set (responses_sent s). snd x \<longrightarrow> status_only (fst x)) \<and>
     (\<forall>r. mpc s = MSend r True \<longrightarrow> status_only r)"

lemma status_inv_init: "status_inv conn0"
  by (simp add: status_inv_def conn0_def)

lemma status_inv_step:
  assumes inv: "status_inv s" and st: "conn_step E s e = Some t"
  shows "status_inv t"
proof (cases e)
  case (RMessage mh p err ctx_err pick)
  with st inv show ?thesis by (auto simp: status_inv_def recv_frame_eq_def dest!: recv_body_eq split: if_splits)
next
  case (RWaitData ctx_err pick)
  with st inv show ?thesis by (auto simp: status_inv_def recv_frame_eq_def dest!: recv_data_eq split: recv_pc.splits)
next
  case (MSent x)
  with st inv show ?thesis
    by (auto simp: status_inv_def main_send_def conn_exit_def split: main_pc.splits sum.splits prod.splits option.splits if_splits)
qed (use inv st in \<open>auto simp: status_inv_def status_only_def status_response_def conn_close_def main_guard_def set_worker_def
    conn_exit_def conn_return_def Let_def
    split: if_splits main_pc.splits recv_pc.splits worker_pc.splits option.splits outcome.splits bool.splits prod.splits\<close>)

interpretation conn_status: step_invariant "conn_step E" status_inv for E
  by unfold_locales (rule status_inv_step)

section \<open>After a receive error\<close>

text \<open>The error of the receive goroutine is the last thing it does.\<close>

definition err_inv :: "sconn \<Rightarrow> bool" where [inv_defs]:
  "err_inv s \<longleftrightarrow> (buf (recvErrCh s) \<noteq> [] \<longrightarrow> rpc s = RExit)"

lemma start_work_err: "start_work i w sh s = (u, ref) \<Longrightarrow> recvErrCh u = recvErrCh s"
  by (auto simp: start_work_def split: work.splits)

lemma recv_body_err: "recv_body E mh p err ctx_err pick s = Some t \<Longrightarrow> recvErrCh t = recvErrCh s \<or> rpc t = RExit"
proof -
  assume st: "recv_body E mh p err ctx_err pick s = Some t"
  have inv: "recvErrCh (invalid i m s) = recvErrCh s" for i m and s :: sconn by (simp add: invalid_def)
  have close: "recvErrCh (recv_close mh p h s) = recvErrCh s" for h and s :: sconn
    by (auto simp: recv_close_def inv Let_def split: outcome.split)
  have data: "recv_data_message L mh p ctx_err pick s = Some t \<Longrightarrow> recvErrCh t = recvErrCh s" for L
    by (auto simp: recv_data_message_def recv_data_def inv close
        split: option.splits if_splits outcome.splits data_phase.splits prod.splits)
  have req: "recvErrCh t = recvErrCh s" if "recv_request E mh p ctx_err pick s = Some t"
    using that by (cases rule: recv_request_cases) (auto simp: inv dest: start_work_err)
  show ?thesis
    using st data req by (auto simp: recv_body_def inv split: option.splits prod.splits if_splits outcome.splits)
qed

lemma err_inv_step:
  assumes inv: "err_inv s" and st: "conn_step E s e = Some t"
  shows "err_inv t"
proof (cases e)
  case (RMessage mh p err ctx_err pick)
  with st have "rpc s = RRecv" "recv_body E mh p err ctx_err pick s = Some t" by (auto split: if_splits)
  with recv_body_err [OF this(2)] inv show ?thesis by (auto simp: err_inv_def)
next
  case (RWaitData ctx_err pick)
  have close: "recvErrCh (recv_close mh p h u) = recvErrCh u" for mh p h and u :: sconn
    by (auto simp: recv_close_def invalid_def Let_def split: outcome.split)
  from st RWaitData have "rpc s \<noteq> RExit" "recvErrCh t = recvErrCh s"
    by (auto simp: recv_data_def invalid_def close
        split: recv_pc.splits option.splits outcome.splits data_phase.splits prod.splits)
  with inv show ?thesis by (simp add: err_inv_def)
next
  case MTakeErr
  with inv st show ?thesis
    by (auto simp: err_inv_def conn_exit_def Let_def chan_recv_def
        split: main_pc.splits if_splits outcome.splits option.splits prod.splits)
qed (use inv st in \<open>auto simp: err_inv_def conn_close_def main_guard_def set_worker_def conn_exit_def conn_return_def main_send_def
    split: if_splits main_pc.splits recv_pc.splits worker_pc.splits option.splits outcome.splits bool.splits prod.splits sum.splits\<close>)

interpretation conn_err: step_invariant "conn_step E" err_inv for E
  by unfold_locales (rule err_inv_step)

text \<open>
  A connection that takes no more requests and whose main loop took the error: it leaves the loop
  only when a response cannot be sent.
\<close>

definition lingering :: "sconn \<Rightarrow> bool" where
  "lingering s \<longleftrightarrow> rpc s = RExit \<and> \<not> recvErrOpen s \<and> \<not> c_shutdown s"

lemma lingering_step:
  assumes "lingering s" "conn_step E s e = Some t" "e \<noteq> CloseConn"
  shows "lingering t \<and> requests t = requests s \<and> (main_live (mpc s) \<longrightarrow> main_live (mpc t) \<or> (\<exists>x. e = MSent x) \<and> mpc t = MLeft)"
  using assms
  by (cases e; cases "mpc s")
    (auto simp: lingering_def main_guard_def set_worker_def conn_exit_def conn_return_def main_send_def
      split: if_splits recv_pc.splits worker_pc.splits option.splits outcome.splits bool.splits prod.splits sum.splits)

lemma lingering_keeps:
  "run (conn_step E) s fs = Some u \<Longrightarrow> lingering s \<Longrightarrow> CloseConn \<notin> set fs \<Longrightarrow> lingering u \<and> requests u = requests s"
proof (induction fs arbitrary: s)
  case (Cons e fs)
  then obtain v where v: "conn_step E s e = Some v" "run (conn_step E) v fs = Some u"
    unfolding run_Cons_Some by blast
  have ne: "e \<noteq> CloseConn" "CloseConn \<notin> set fs" using Cons.prems(3) by auto
  from lingering_step [OF Cons.prems(2) v(1) ne(1)] Cons.IH [OF v(2) _ ne(2)] show ?case by simp
qed simp

text \<open>Somewhere in a run the send of a response failed, and the main loop was left.\<close>

definition send_ends :: "('c, 'f, 'g, 'i, 'j, 'm) conn_env \<Rightarrow> sconn \<Rightarrow> conn_event list \<Rightarrow> bool" where
  "send_ends E s fs \<longleftrightarrow> (\<exists>fs1 x fs2 v w. fs = fs1 @ MSent x # fs2 \<and> run (conn_step E) s fs1 = Some v \<and>
     conn_step E v (MSent x) = Some w \<and> mpc v \<noteq> MLeft \<and> mpc w = MLeft)"

lemma send_ends_Cons:
  assumes "conn_step E s e = Some u" "send_ends E u fs"
  shows "send_ends E s (e # fs)"
proof -
  from assms(2) obtain fs1 x fs2 v w where f: "fs = fs1 @ MSent x # fs2" "run (conn_step E) u fs1 = Some v"
    "conn_step E v (MSent x) = Some w" "mpc v \<noteq> MLeft" "mpc w = MLeft"
    unfolding send_ends_def by blast
  have "run (conn_step E) s (e # fs1) = Some v" "e # fs = (e # fs1) @ MSent x # fs2" using assms(1) f(1,2) by simp_all
  with f(3-5) show ?thesis unfolding send_ends_def by blast
qed

lemma send_ends_now: "conn_step E s (MSent x) = Some w \<Longrightarrow> mpc s \<noteq> MLeft \<Longrightarrow> mpc w = MLeft \<Longrightarrow> send_ends E s (MSent x # fs)"
  unfolding send_ends_def by (metis append_Nil run.simps(1))

lemma lingering_run:
  "run (conn_step E) s fs = Some u \<Longrightarrow> lingering s \<Longrightarrow> CloseConn \<notin> set fs \<Longrightarrow> main_live (mpc s) \<Longrightarrow>
   main_live (mpc u) \<or> send_ends E s fs"
proof (induction fs arbitrary: s)
  case (Cons e fs)
  then obtain v where v: "conn_step E s e = Some v" "run (conn_step E) v fs = Some u"
    unfolding run_Cons_Some by blast
  have ne: "e \<noteq> CloseConn" "CloseConn \<notin> set fs" using Cons.prems(3) by auto
  note L = lingering_step [OF Cons.prems(2) v(1) ne(1)]
  show ?case
  proof (cases "main_live (mpc v)")
    case True
    with Cons.IH [OF v(2) _ ne(2)] L send_ends_Cons [OF v(1)] show ?thesis by blast
  next
    case False
    with L Cons.prems(4) obtain x where x: "e = MSent x" "mpc v = MLeft" by blast
    have "mpc s \<noteq> MLeft" using Cons.prems(4) by (simp add: main_live_def)
    with send_ends_now [OF v(1) [unfolded x(1)] _ x(2)] x(1) show ?thesis by blast
  qed
qed simp

text \<open>With no call left it can do nothing.\<close>

lemma lingering_stuck:
  assumes "lingering s" "count_inv s" "mpc s = MSelect b" "\<forall>w \<in> set (workers s). w_pc w = WDone" "conn_step E s e = Some t"
  shows "e = CloseConn"
proof -
  have w: "w_pc (workers s ! i) = WDone" if "i < length (workers s)" for i using assms(4) that by simp
  have "\<not> c_done s" using assms(2,3) by (simp add: count_inv_def)
  with assms(1,3,5) w show ?thesis by (cases e; cases b) (auto simp: lingering_def split: if_splits)
qed

section \<open>A concrete server\<close>

text \<open>A server with one unary and one streaming method; the first byte of a request selects one.\<close>

definition demo_proto :: "string proto_lib" where
  "demo_proto = example_proto
     \<lparr>uRequest := (\<lambda>p. case bytes_of p of
          [] \<Rightarrow> Inl (ErrString ''empty'')
        | b # bs \<Rightarrow> Inr \<lparr>Service = ''s'', req_Method = (if b = 0 then ''echo'' else ''feed''),
                        Payload = (if bs = [] then None else Some bs), TimeoutNano = 0, req_Metadata = []\<rparr>),
      mResponse := (\<lambda>r. Inr (Some [9]))\<rparr>"

definition demo_env :: "(unit, nat, nat, unit, unit, string) conn_env" where
  "demo_env = \<lparr>e_lib = example_status_lib, e_proto = demo_proto, e_services = echo_services,
     e_ctx = \<lparr>md_value = None, ctx_rest = ()\<rparr>, e_extra = 0\<rparr>"

definition hdr :: "u32 \<Rightarrow> byte \<Rightarrow> byte \<Rightarrow> messageHeader" where
  "hdr i t f = \<lparr>Length = 1, StreamID = i, Type = t, Flags = f\<rparr>"

text \<open>A message that needs no choice, a call taken to its end, a response written.\<close>

definition take_message :: "u32 \<Rightarrow> byte \<Rightarrow> byte \<Rightarrow> byte list \<Rightarrow> conn_event list" where
  "take_message i t f p = [RGuard False, RMessage (hdr i t f) (Some p) None None DataSend]"

definition take_call :: "u32 \<Rightarrow> byte list \<Rightarrow> conn_event list" where
  "take_call i p = take_message i messageTypeRequest 0 p @ [RDoStore, RDoAdd]"

definition respond_events :: "conn_event \<Rightarrow> conn_event list" where
  "respond_events take_it = [MGuard, take_it, MSent None, MDoDelete, MDoDec]"

lemmas conn_eval = conn0_def take_message_def take_call_def respond_events_def hdr_def demo_env_def demo_proto_def
  recv_body_def recv_request_def recv_data_message_def recv_data_def recv_close_def invalid_def handle_def echo_services_def
  getRequestContext_def start_work_def example_proto_def data_start_def data_branch_def newHandler_def chan_send_def
  can_send_def make_chan_def streamRecvBufferSize_def conn_close_def main_guard_def main_send_def conn_exit_def conn_return_def
  response_frame_def send_outcome_def OversizedMessageError_def messageLengthMax_def status_response_def final_response_def
  stream_response_def set_worker_def after_response_def chan_recv_def closeSend_def chan_close_def data_wait_def
  messageTypeData_def messageTypeRequest_def messageTypeResponse_def flagNoData_def flagRemoteClosed_def has_flag_def
  example_status_lib_def example_from_error_def
definition crash_events :: "conn_event list" where
  "crash_events = take_call 1 [0] @ [RGuard False]"

lemma crash_run:
  "(case run (conn_step demo_env) conn0 crash_events of
      None \<Rightarrow> False
    | Some s \<Rightarrow> rpc s = RRecv \<and> streams s 1 = Some None \<and>
        map_option rpc (conn_step demo_env s (RMessage (hdr 1 messageTypeData 0) (Some [1]) None None DataSend)) = Some RPanic)"
  by (simp add: conn_eval crash_events_def Let_def)
definition demo_calls :: "conn_event list" where
  "demo_calls = take_call 1 [0] @ take_call 3 [1, 7] @ [WFinish 0 None (Some [5])] @ respond_events (MTakeWorker 0) @
     [WRecv 1, WSend 1 (Some [6]), MGuard, MTakeWorker 1, MSent None, WFinish 1 None None] @ respond_events (MTakeWorker 1)"

lemma demo_calls_run:
  "(case run (conn_step demo_env) conn0 demo_calls of
      None \<Rightarrow> False
    | Some s \<Rightarrow> active s = 0 \<and> requests s = [1, 3] \<and> mpc s = MTop \<and> rpc s = RTop \<and> unbalanced s = 0 \<and>
        map w_pc (workers s) = [WDone, WDone] \<and> map (\<lambda>x. (resp_id (fst x), closeStream (fst x))) (responses_sent s) =
          [(1, True), (3, False), (3, True)] \<and> (\<exists>x \<in> set (responses_sent s). \<not> snd x \<and> resp_id (fst x) = 3))"
  by (simp add: conn_eval demo_calls_def Let_def word_le_nat_alt)

definition idle_events :: "conn_event list" where
  "idle_events = take_call 1 [0] @ take_message 2 messageTypeRequest 0 [0] @ respond_events MTakeStatus @ [MGuard]"

lemma idle_run:
  "(case run (conn_step demo_env) conn0 idle_events of
      None \<Rightarrow> False
    | Some s \<Rightarrow> active s = 0 \<and> c_state s = connStateIdle \<and> mpc s = MSelect True \<and> map w_pc (workers s) = [WRun] \<and>
        map_option c_done (run (conn_step demo_env) s [CloseConn, MShutdown, MReturn]) = Some True)"
  by (simp add: conn_eval idle_events_def Let_def)

definition stale_events :: "conn_event list" where
  "stale_events = take_message 1 messageTypeRequest 0 [0] @ [WFinish 0 None (Some [5])] @ respond_events (MTakeWorker 0) @
     [RDoStore, RDoAdd]"

lemma stale_run:
  "(case run (conn_step demo_env) conn0 stale_events of
      None \<Rightarrow> False
    | Some s \<Rightarrow> active s = 0 \<and> streams s 1 = Some None \<and> map w_pc (workers s) = [WDone])"
  by (simp add: conn_eval stale_events_def Let_def)

section \<open>Properties\<close>

text \<open>
  C28: Stream ids on the server. Whatever the client sends, the requests the connection takes have
  odd, strictly increasing ids, of which \<open>lastStreamID\<close> is a bound, so that no id is ever used for
  two calls; and the ids taken so far stay the first ones taken.
\<close>

theorem server_stream_ids:
  assumes "run (conn_step E) conn0 es = Some s" "run (conn_step E) s es' = Some t"
  shows "sorted_wrt (<) (requests t) \<and> (\<forall>i \<in> set (requests t). i mod 2 = 1 \<and> i \<le> lastStreamID t) \<and>
    distinct (map w_id (workers t)) \<and> set (map w_id (workers t)) \<subseteq> set (requests t) \<and>
    (\<exists>is. requests t = requests s @ is) \<and> lastStreamID s \<le> lastStreamID t"
proof -
  have "ids_inv t"
    using conn_ids.inv_run [OF conn_ids.inv_run [OF ids_inv_init assms(1)] assms(2)] .
  moreover have "requests_le s t" by (rule conn_mono.le_run [OF assms(2)])
  ultimately show ?thesis
    using distinct_ids by (auto simp: ids_inv_def requests_le_def)
qed

theorem server_stream_ids_witness:
  "\<exists>s. run (conn_step demo_env) conn0 demo_calls = Some s \<and> requests s = [1, 3] \<and> sorted_wrt (<) (requests s) \<and>
     distinct (map w_id (workers s))"
proof -
  obtain s where s: "run (conn_step demo_env) conn0 demo_calls = Some s" "requests s = [1, 3]"
    using demo_calls_run by (auto split: option.splits simp del: run.simps)
  have "run (conn_step demo_env) conn0 [] = Some conn0" by simp
  from server_stream_ids [OF this s(1)] s show ?thesis by blast
qed

text \<open>
  C29: Every call is answered exactly once. As long as the main loop runs, a call whose goroutine has
  finished has exactly one final response written or being written, the last of those its goroutine
  sent; a call that has not finished has none; a unary call sends nothing else. The only other
  responses under its id are those of \<open>sendStatus\<close>, which close the stream and carry a status but no
  data, and which may also follow the final one. A handler sends while it runs (\<open>SendMsg\<close> does not
  refuse a handler that goes on after it returned; such a handler is not modelled).
\<close>

theorem call_responses_protocol:
  assumes "run (conn_step E) conn0 es = Some s" "mpc s \<noteq> MLeft" "mpc s \<noteq> MExit" "w \<in> set (workers s)"
  shows "(w_pc w = WDone \<longrightarrow> (\<exists>rs r. responses_for (w_id w) (call_responses s) = rs @ [r] \<and>
       closeStream r \<and> (\<forall>x \<in> set rs. \<not> closeStream x))) \<and>
    (w_pc w \<noteq> WDone \<longrightarrow> (\<forall>x \<in> set (responses_for (w_id w) (call_responses s)). \<not> closeStream x)) \<and>
    (w_handler w = None \<longrightarrow> length (responses_for (w_id w) (call_responses s)) \<le> 1) \<and>
    (\<forall>(x, from_status) \<in> set (responses_sent s). from_status \<longrightarrow>
       closeStream x \<and> resp_data x = None \<and> \<not> streaming x)"
proof -
  let ?rs = "responses_for (w_id w) (call_responses s)"
  have inv: "answered_inv s" by (rule conn_answered.inv_run [OF answered_inv_init assms(1)])
  have w: "worker_answered True (call_responses s) w" "worker_ok (call_responses s) w"
    using inv assms(2-4) by (auto simp: answered_inv_def resp_inv_def main_live_def)
  have last: "\<exists>rs r. ?rs = rs @ [r] \<and> closeStream r \<and> (\<forall>x \<in> set rs. \<not> closeStream x)" if "w_pc w = WDone"
  proof -
    from w(1) that obtain r where r: "r \<in> set ?rs" "closeStream r" by (auto simp: worker_answered_def)
    then have "?rs \<noteq> []" by (metis empty_iff list.set(1))
    then have rs: "?rs = butlast ?rs @ [last ?rs]" by simp
    have nc: "\<forall>x \<in> set (butlast ?rs). \<not> closeStream x" using w(2) by (simp add: worker_ok_def final_last_def)
    have "r \<in> set (butlast ?rs) \<or> r = last ?rs" using r(1) by (subst (asm) rs) auto
    with r(2) nc rs show ?thesis by blast
  qed
  moreover have "length ?rs \<le> 1" if "w_handler w = None"
  proof (rule ccontr)
    assume "\<not> length ?rs \<le> 1"
    then have "butlast ?rs \<noteq> []" by (cases ?rs) auto
    then obtain x where x: "x \<in> set (butlast ?rs)" by (meson last_in_set)
    then have "x \<in> set ?rs" by (rule in_set_butlastD)
    with w(1) that have "closeStream x" unfolding worker_answered_def by blast
    with x w(2) show False by (auto simp: worker_ok_def final_last_def)
  qed
  moreover have "\<forall>x \<in> set ?rs. \<not> closeStream x" if "w_pc w \<noteq> WDone" using w(2) that unfolding worker_ok_def by blast
  moreover have "\<forall>(x, from_status) \<in> set (responses_sent s). from_status \<longrightarrow> closeStream x \<and> resp_data x = None \<and> \<not> streaming x"
    using conn_status.inv_run [OF status_inv_init assms(1)] by (auto simp: status_inv_def status_only_def)
  ultimately show ?thesis by blast
qed

theorem call_responses_protocol_witness:
  "\<exists>s w rs r. run (conn_step demo_env) conn0 demo_calls = Some s \<and> w \<in> set (workers s) \<and>
     responses_for (w_id w) (call_responses s) = rs @ [r] \<and> closeStream r"
proof -
  obtain s where s: "run (conn_step demo_env) conn0 demo_calls = Some s" "mpc s = MTop" "map w_pc (workers s) = [WDone, WDone]"
    using demo_calls_run by (auto split: option.splits simp del: run.simps)
  have "length (workers s) = 2" using arg_cong [OF s(3), of length] by simp
  moreover have "map w_pc (workers s) ! 0 = WDone" by (simp add: s(3))
  ultimately have w: "w_pc (workers s ! 0) = WDone" "workers s ! 0 \<in> set (workers s)" by simp_all
  have "mpc s \<noteq> MLeft" "mpc s \<noteq> MExit" by (simp_all add: s(2))
  from call_responses_protocol [OF s(1) this w(2)] w s(1) show ?thesis by blast
qed



text \<open>
  C31: The receive goroutine can crash in one way only: on a data message for the stream of a unary
  call that is still in the table (its handler pointer is nil), when the message carries data or
  closes the stream. No queue is closed twice or written after its close.
\<close>

theorem crash_only_nil_handler:
  assumes "run (conn_step E) conn0 es = Some s" "conn_step E s e = Some t" "rpc s \<noteq> RPanic"
  shows "rpc t = RPanic \<longleftrightarrow> nil_dereference s e \<and> rpc s = RRecv"
proof
  have inv: "hdl_inv s" using conn_hdl.inv_run [OF hdl_inv_init assms(1)] .
  assume panic: "rpc t = RPanic"
  with conn_step_hdl [OF inv assms(2)] assms(3) have "nil_dereference s e" by blast
  moreover from this assms(2) have "rpc s = RRecv"
    by (cases e) (auto simp: nil_dereference_def split: if_splits)
  ultimately show "nil_dereference s e \<and> rpc s = RRecv" by blast
next
  assume "nil_dereference s e \<and> rpc s = RRecv"
  with assms(2) show "rpc t = RPanic"
    by (cases e) (auto simp: nil_dereference_def recv_body_def recv_data_message_def)
qed

theorem crash_only_nil_handler_witness:
  "\<exists>s t. conn_step demo_env s (RMessage (hdr 1 messageTypeData 0) (Some [1]) None None DataSend) = Some t \<and>
     nil_dereference s (RMessage (hdr 1 messageTypeData 0) (Some [1]) None None DataSend)"
proof -
  obtain s t where s: "run (conn_step demo_env) conn0 crash_events = Some s" "rpc s = RRecv"
    "conn_step demo_env s (RMessage (hdr 1 messageTypeData 0) (Some [1]) None None DataSend) = Some t" "rpc t = RPanic"
    using crash_run by (auto split: option.splits simp del: run.simps conn_step.simps)
  from crash_only_nil_handler [OF s(1,3)] s show ?thesis by auto
qed

text \<open>
  A client can crash the server: after a unary request that is still in the table, one data
  message on its stream id makes the receive goroutine dereference the nil handler.
\<close>

theorem unary_data_crashes:
  "\<exists>s. run (conn_step demo_env) conn0 crash_events = Some s \<and> streams s 1 = Some None \<and>
     (\<exists>t. conn_step demo_env s (RMessage (hdr 1 messageTypeData 0) (Some [1]) None None DataSend) = Some t \<and> rpc t = RPanic)"
  using crash_run by (auto split: option.splits)

text \<open>
  Every response of \<open>sendStatus\<close> takes one off \<open>active\<close> although nothing was added for it, so an
  invalid message makes a connection with a running call look idle, and a graceful shutdown
  then closes it under the call.
\<close>

theorem invalid_message_makes_idle:
  "\<exists>s. run (conn_step demo_env) conn0 idle_events = Some s \<and>
     c_state s = connStateIdle \<and> map w_pc (workers s) = [WRun] \<and>
     (\<exists>t. run (conn_step demo_env) s [CloseConn, MShutdown, MReturn] = Some t \<and> c_done t)"
  using idle_run by (auto split: option.splits simp del: run.simps)

text \<open>
  A call that ends before the receive goroutine has stored its stream leaves an entry behind:
  nothing is running, yet the stream stays in the table.
\<close>

theorem stale_stream_entry:
  "\<exists>s. run (conn_step demo_env) conn0 stale_events = Some s \<and>
     active s = 0 \<and> map w_pc (workers s) = [WDone] \<and> streams s 1 = Some None"
  using stale_run by (auto split: option.splits simp del: run.simps)

text \<open>
  C32: A receive error other than the three that mean the client has gone does not end the connection.
  From the moment the main loop takes it no request is taken any more; whatever the calls still do,
  the loop is left only when a response cannot be sent, unless the server closes the connection; and
  once the loop waits and no call is left, no step at all is possible but that close.
\<close>

theorem receive_error_lingers:
  assumes "run (conn_step E) conn0 es = Some s" "buf (recvErrCh s) = [e]" "\<not> client_gone e" "\<not> c_shutdown s"
    and "conn_step E s MTakeErr = Some t" "run (conn_step E) t fs = Some u" "CloseConn \<notin> set fs"
  shows "requests u = requests s \<and>
    (mpc u = MLeft \<or> mpc u = MExit \<longrightarrow>
       (\<exists>fs1 x fs2 v w. fs = fs1 @ MSent x # fs2 \<and> run (conn_step E) t fs1 = Some v \<and>
          conn_step E v (MSent x) = Some w \<and> mpc v \<noteq> MLeft \<and> mpc w = MLeft)) \<and>
    ((\<exists>b. mpc u = MSelect b) \<and> (\<forall>w \<in> set (workers u). w_pc w = WDone) \<longrightarrow>
       (\<forall>ev v. conn_step E u ev = Some v \<longrightarrow> ev = CloseConn))"
proof -
  have r: "rpc s = RExit"
    using conn_err.inv_run [OF _ assms(1)] assms(2) by (simp add: err_inv_def conn0_def make_chan_def)
  have t: "t = s\<lparr>recvErrCh := recvErrCh t, recvErrOpen := False, mpc := MTop\<rparr>"
    using assms(2,3,5) by (auto simp: chan_recv_def Let_def split: main_pc.splits if_splits)
  have tl: "lingering t" "main_live (mpc t)" "requests t = requests s"
    by (subst t, simp add: lingering_def r assms(4))+
  note K = lingering_keeps [OF assms(6) tl(1) assms(7)]
  have ends: "main_live (mpc u) \<or> send_ends E t fs" by (rule lingering_run [OF assms(6) tl(1) assms(7) tl(2)])
  have "run (conn_step E) conn0 (es @ MTakeErr # fs) = Some u" using assms(1,5,6) by (simp add: run_append del: conn_step.simps)
  then have "count_inv u" by (rule conn_count.inv_run [OF count_inv_init])
  then have "\<forall>ev v. conn_step E u ev = Some v \<longrightarrow> ev = CloseConn"
    if "\<exists>b. mpc u = MSelect b" "\<forall>w \<in> set (workers u). w_pc w = WDone"
    using that K lingering_stuck by blast
  with K ends tl(3) show ?thesis unfolding main_live_def send_ends_def by argo
qed

definition linger_events :: "conn_event list" where
  "linger_events = [RGuard False, RMessage zeroHeader None (Some NetErrClosed) None DataSend, MGuard]"

theorem receive_error_lingers_witness:
  "\<exists>s t u. run (conn_step demo_env) conn0 linger_events = Some s \<and> conn_step demo_env s MTakeErr = Some t \<and>
     run (conn_step demo_env) t [MGuard] = Some u \<and> mpc u = MSelect True \<and>
     (\<forall>ev v. conn_step demo_env u ev = Some v \<longrightarrow> ev = CloseConn)"
proof -
  have "\<exists>s t u. run (conn_step demo_env) conn0 linger_events = Some s \<and> buf (recvErrCh s) = [NetErrClosed] \<and>
      \<not> c_shutdown s \<and> conn_step demo_env s MTakeErr = Some t \<and> run (conn_step demo_env) t [MGuard] = Some u \<and>
      mpc u = MSelect True \<and> workers u = []"
    by (simp add: linger_events_def conn0_def recv_body_def chan_send_def make_chan_def main_guard_def chan_recv_def
        demo_env_def example_status_lib_def example_from_error_def is_status_error_def client_gone_def errors_is_def Let_def)
  then obtain s t u where r: "run (conn_step demo_env) conn0 linger_events = Some s" "buf (recvErrCh s) = [NetErrClosed]"
    "\<not> c_shutdown s" "conn_step demo_env s MTakeErr = Some t" "run (conn_step demo_env) t [MGuard] = Some u"
    and u: "mpc u = MSelect True" "workers u = []"
    by blast
  have "\<not> client_gone NetErrClosed" "CloseConn \<notin> set [MGuard]" by (simp_all add: client_gone_def errors_is_def)
  from receive_error_lingers [OF r(1,2) this(1) r(3-5) this(2)] r u show ?thesis by auto
qed

end
