(* ===== verification/Server.thy ===== *)
theory Server
  imports ServerConn Interceptors
begin

text \<open>
  The server (\<open>src/server.go\<close>): \<open>NewServer\<close>, the goroutines in \<open>Serve\<close> with their accept loop, in
  \<open>Shutdown\<close> and in \<open>Close\<close>, and the connections they make, each in a state of theory \<open>ServerConn\<close>.
  What \<open>mu\<close> protects is one step. The maps of listeners and connections are lists of their keys;
  the order in which \<open>closeListeners\<close> visits them is part of its event.
\<close>

section \<open>Making a server\<close>

definition NewServer ::
    "('c, 'u, 'r, 'a) ServerOpt list \<Rightarrow> go_error + (('c, 'u, 'r, 'a) serverConfig \<times>
       ('d, ('c, 'u, 'r) UnaryServerInterceptor, 'x \<Rightarrow> 'y \<Rightarrow> StreamServerInfo \<Rightarrow> ('x \<Rightarrow> 'y \<Rightarrow> 'z) \<Rightarrow> 'z) serviceSet)" where
  "NewServer opts =
     (case NewServer_config opts of
        Inl e \<Rightarrow> Inl e
      | Inr c \<Rightarrow> Inr (c, newServiceSet (case interceptor c of Some i \<Rightarrow> i | None \<Rightarrow> defaultServerInterceptor)))"

text \<open>The handshaker of \<open>Serve\<close>.\<close>

definition serve_handshaker :: "('c, 'u, 'r, 'a) serverConfig \<Rightarrow> 'a Handshaker" where
  "serve_handshaker c = (case handshaker c of None \<Rightarrow> noopHandshake | Some h \<Rightarrow> h)"

section \<open>State\<close>

text \<open>
  A goroutine in \<open>Serve\<close>: at its start, in \<open>Accept\<close>, with the error of \<open>Accept\<close> (and whether it is
  temporary), in the handshake with an accepted connection, before \<open>newConn\<close> (with it and the
  approved one),
  before the deferred \<open>closeListener\<close>, returned, or crashed in \<open>rand.Int63n\<close>.
\<close>

datatype serve_pc =
    SvStart
  | SvAccept
  | SvFailed go_error bool
  | SvHandshake net_conn
  | SvNew net_conn net_conn
  | SvDefer go_error
  | SvDone go_error
  | SvPanic

text \<open>
  \<open>v_fails\<close> counts the failures since the last connection, \<open>v_sleeps\<close> records the pauses, each with
  the number of failures in a row, its own included.
\<close>

record serve =
  v_listener :: nat
  v_backoff :: int
  v_pc :: serve_pc
  v_fails :: nat
  v_sleeps :: "(nat \<times> int) list"

text \<open>
  A goroutine in \<open>Shutdown\<close>: at its start, then with the error of \<open>closeListeners\<close> before
  \<open>closeIdleConns\<close>, before \<open>countConnection\<close>, in its \<open>select\<close>, returned after the loop, or returned
  with the error of its context.
\<close>

datatype down_pc =
    DnStart
  | DnClose "go_error option"
  | DnCount "go_error option"
  | DnWait "go_error option"
  | DnDone "go_error option"
  | DnCanceled go_error

text \<open>
  \<open>sv_conns\<close> are the connections ever made, \<open>sv_net\<close> what the handshake approved for each, and
  \<open>sv_connections\<close> those in the server's map. \<open>sv_listener_closes\<close> and \<open>sv_refused\<close> record the
  closed listeners and the connections \<open>Serve\<close> closed itself.
\<close>

record server =
  sv_done :: bool
  sv_listeners :: "nat list"
  sv_connections :: "nat list"
  sv_conns :: "sconn list"
  sv_net :: "net_conn list"
  sv_serves :: "serve list"
  sv_downs :: "down_pc list"
  sv_listener_closes :: "nat list"
  sv_refused :: "net_conn list"

definition server0 :: server where
  "server0 =
     \<lparr>sv_done = False, sv_listeners = [], sv_connections = [], sv_conns = [], sv_net = [], sv_serves = [],
      sv_downs = [], sv_listener_closes = [], sv_refused = []\<rparr>"

section \<open>Operations under the lock\<close>

definition close_done :: "server \<Rightarrow> server" where
  "close_done s = (if sv_done s then s else s\<lparr>sv_done := True\<rparr>)"

interpretation server_once: once close_done sv_done
  by unfold_locales (simp_all add: close_done_def)

definition addListenerLocked :: "nat \<Rightarrow> server \<Rightarrow> server" where
  "addListenerLocked l s = s\<lparr>sv_listeners := List.insert l (sv_listeners s)\<rparr>"

text \<open>\<open>cl\<close> is the result of \<open>l.Close()\<close> for each listener.\<close>

definition closeListenerLocked :: "(nat \<Rightarrow> go_error option) \<Rightarrow> nat \<Rightarrow> server \<Rightarrow> go_error option \<times> server" where
  "closeListenerLocked cl l s =
     (cl l, s\<lparr>sv_listeners := removeAll l (sv_listeners s), sv_listener_closes := sv_listener_closes s @ [l]\<rparr>)"

fun closeListeners ::
    "(nat \<Rightarrow> go_error option) \<Rightarrow> nat list \<Rightarrow> go_error option \<Rightarrow> server \<Rightarrow> go_error option \<times> server" where
  "closeListeners cl [] err s = (err, s)"
| "closeListeners cl (l # ls) err s =
     (case closeListenerLocked cl l s of
        (cerr, t) \<Rightarrow> closeListeners cl ls (if cerr \<noteq> None \<and> err = None then cerr else err) t)"

definition addConnection :: "net_conn \<Rightarrow> server \<Rightarrow> go_error option \<times> server" where
  "addConnection c s =
     (if sv_done s then (Some ErrServerClosed, s)
      else (None, s\<lparr>sv_connections := sv_connections s @ [length (sv_conns s)],
                   sv_conns := sv_conns s @ [conn0], sv_net := sv_net s @ [c]\<rparr>))"

definition delConnection :: "nat \<Rightarrow> server \<Rightarrow> server" where
  "delConnection o' s = s\<lparr>sv_connections := removeAll o' (sv_connections s)\<rparr>"

definition countConnection :: "server \<Rightarrow> nat" where
  "countConnection s = length (sv_connections s)"

text \<open>The loops of \<open>Close\<close> and \<open>closeIdleConns\<close>: close the chosen connections and forget them.\<close>

definition close_where :: "(sconn \<Rightarrow> bool) \<Rightarrow> server \<Rightarrow> server" where
  "close_where P s =
     s\<lparr>sv_conns := map (\<lambda>o'. if o' \<in> set (sv_connections s) \<and> P (sv_conns s ! o')
                          then conn_close (sv_conns s ! o') else sv_conns s ! o') [0..<length (sv_conns s)],
       sv_connections := filter (\<lambda>o'. \<not> P (sv_conns s ! o')) (sv_connections s)\<rparr>"

definition closeIdleConns :: "server \<Rightarrow> server" where
  "closeIdleConns s = close_where (\<lambda>c. c_state c \<noteq> connStateActive) s"

definition server_Close :: "(nat \<Rightarrow> go_error option) \<Rightarrow> nat list \<Rightarrow> server \<Rightarrow> go_error option \<times> server" where
  "server_Close cl ord s =
     (case closeListeners cl ord None (close_done s) of (err, t) \<Rightarrow> (err, close_where (\<lambda>c. True) t))"

section \<open>The accept loop\<close>

definition millisecond :: int where
  "millisecond = 1000000"

definition second :: int where
  "second = 1000000000"

text \<open>The pause after a temporary error of \<open>Accept\<close>.\<close>

definition next_backoff :: "int \<Rightarrow> int" where
  "next_backoff b = min second (if b = 0 then millisecond else b * 2)"

definition set_serve :: "nat \<Rightarrow> serve \<Rightarrow> server \<Rightarrow> server" where
  "set_serve i v s = s\<lparr>sv_serves := (sv_serves s)[i := v]\<rparr>"

text \<open>
  After an error: \<open>r\<close> is the random pause, for which \<open>rand.Int63n\<close> panics when its bound is not
  positive and else returns a number below it.
\<close>

definition serve_failed :: "go_error \<Rightarrow> bool \<Rightarrow> int \<Rightarrow> bool \<Rightarrow> serve \<Rightarrow> serve option" where
  "serve_failed e temporary r closed v =
     (if closed then Some (v\<lparr>v_pc := SvDefer ErrServerClosed\<rparr>)
      else if temporary
      then (let b = next_backoff (v_backoff v)
            in if b \<le> 0 then Some (v\<lparr>v_backoff := b, v_pc := SvPanic\<rparr>)
               else if 0 \<le> r \<and> r < b
               then Some (v\<lparr>v_backoff := b, v_pc := SvAccept, v_fails := Suc (v_fails v),
                              v_sleeps := v_sleeps v @ [(Suc (v_fails v), r)]\<rparr>)
               else None)
      else Some (v\<lparr>v_pc := SvDefer e\<rparr>))"

text \<open>\<open>newConn\<close> for goroutine \<open>i\<close>; the connection of a refused one is closed.\<close>

definition newConn :: "nat \<Rightarrow> net_conn \<Rightarrow> net_conn \<Rightarrow> server \<Rightarrow> server" where
  "newConn i raw c s =
     (let v = (sv_serves s ! i)\<lparr>v_pc := SvAccept\<rparr>
      in case addConnection c s of
           (Some e, t) \<Rightarrow> (set_serve i v t)\<lparr>sv_refused := sv_refused t @ [raw]\<rparr>
         | (None, t) \<Rightarrow> set_serve i v t)"

section \<open>Steps\<close>

datatype server_event =
    ServeCall nat
  | ServeStart nat
  | Accepted nat "net_conn + (go_error \<times> bool)"
  | ServeRetry nat int
  | Handshaken nat
  | ServeNew nat
  | ServeClosed nat
  | ShutdownCall
  | ShutdownStart nat "nat \<Rightarrow> go_error option" "nat list"
  | ShutdownClose nat
  | ShutdownCount nat
  | ShutdownTick nat
  | ShutdownCtx nat go_error
  | ServerClose "nat \<Rightarrow> go_error option" "nat list"
  | ConnStep nat conn_event
  | ConnDel nat

definition serve_at :: "server \<Rightarrow> nat \<Rightarrow> serve_pc option" where
  "serve_at s i = (if i < length (sv_serves s) then Some (v_pc (sv_serves s ! i)) else None)"

definition down_at :: "server \<Rightarrow> nat \<Rightarrow> down_pc option" where
  "down_at s d = (if d < length (sv_downs s) then Some (sv_downs s ! d) else None)"

definition set_down :: "nat \<Rightarrow> down_pc \<Rightarrow> server \<Rightarrow> server" where
  "set_down d pc s = s\<lparr>sv_downs := (sv_downs s)[d := pc]\<rparr>"

text \<open>
  A connection closes only through the server, and closes \<open>done\<close> only after \<open>delConnection\<close>.
\<close>

definition conn_may :: "server \<Rightarrow> nat \<Rightarrow> conn_event \<Rightarrow> bool" where
  "conn_may s o' e \<longleftrightarrow>
     o' < length (sv_conns s) \<and> e \<noteq> CloseConn \<and> (e = MReturn \<longrightarrow> o' \<notin> set (sv_connections s))"

fun server_step ::
    "'a Handshaker \<Rightarrow> ('c, 'f, 'g, 'i, 'j, 'm) conn_env \<Rightarrow> server \<Rightarrow> server_event \<Rightarrow> server option" where
  "server_step H E s (ServeCall l) =
     Some (s\<lparr>sv_serves := sv_serves s @
        [\<lparr>v_listener = l, v_backoff = 0, v_pc = SvStart, v_fails = 0, v_sleeps = []\<rparr>]\<rparr>)"
| "server_step H E s (ServeStart i) =
     (if serve_at s i = Some SvStart
      then (let v = sv_serves s ! i
            in Some (set_serve i (v\<lparr>v_pc := (if sv_done s then SvDefer ErrServerClosed else SvAccept)\<rparr>)
                 (addListenerLocked (v_listener v) s)))
      else None)"
| "server_step H E s (Accepted i r) =
     (if serve_at s i = Some SvAccept
      then (let v = sv_serves s ! i
            in case r of
                 Inl c \<Rightarrow> Some (set_serve i (v\<lparr>v_backoff := 0, v_fails := 0, v_pc := SvHandshake c\<rparr>) s)
               | Inr (e, temporary) \<Rightarrow> Some (set_serve i (v\<lparr>v_pc := SvFailed e temporary\<rparr>) s))
      else None)"
| "server_step H E s (ServeRetry i r) =
     (case serve_at s i of
        Some (SvFailed e temporary) \<Rightarrow>
          (case serve_failed e temporary r (sv_done s) (sv_serves s ! i) of
             None \<Rightarrow> None
           | Some v \<Rightarrow> Some (set_serve i v s))
      | _ \<Rightarrow> None)"
| "server_step H E s (Handshaken i) =
     (case serve_at s i of
        Some (SvHandshake c) \<Rightarrow>
          (let v = sv_serves s ! i
           in case H c of
                Inl e \<Rightarrow> Some ((set_serve i (v\<lparr>v_pc := SvAccept\<rparr>) s)\<lparr>sv_refused := sv_refused s @ [c]\<rparr>)
              | Inr (c', a) \<Rightarrow> Some (set_serve i (v\<lparr>v_pc := SvNew c c'\<rparr>) s))
      | _ \<Rightarrow> None)"
| "server_step H E s (ServeNew i) =
     (case serve_at s i of Some (SvNew raw c) \<Rightarrow> Some (newConn i raw c s) | _ \<Rightarrow> None)"
| "server_step H E s (ServeClosed i) =
     (case serve_at s i of
        Some (SvDefer e) \<Rightarrow>
          (let v = sv_serves s ! i
           in Some (set_serve i (v\<lparr>v_pc := SvDone e\<rparr>) (snd (closeListenerLocked (\<lambda>_. None) (v_listener v) s))))
      | _ \<Rightarrow> None)"
| "server_step H E s ShutdownCall = Some (s\<lparr>sv_downs := sv_downs s @ [DnStart]\<rparr>)"
| "server_step H E s (ShutdownStart d cl ord) =
     (if down_at s d = Some DnStart \<and> distinct ord \<and> set ord = set (sv_listeners s)
      then (case closeListeners cl ord None (close_done s) of (err, t) \<Rightarrow> Some (set_down d (DnClose err) t))
      else None)"
| "server_step H E s (ShutdownClose d) =
     (case down_at s d of
        Some (DnClose err) \<Rightarrow> Some (set_down d (DnCount err) (closeIdleConns s))
      | _ \<Rightarrow> None)"
| "server_step H E s (ShutdownCount d) =
     (case down_at s d of
        Some (DnCount err) \<Rightarrow> Some (set_down d (if countConnection s = 0 then DnDone err else DnWait err) s)
      | _ \<Rightarrow> None)"
| "server_step H E s (ShutdownTick d) =
     (case down_at s d of Some (DnWait err) \<Rightarrow> Some (set_down d (DnClose err) s) | _ \<Rightarrow> None)"
| "server_step H E s (ShutdownCtx d e) =
     (case down_at s d of Some (DnWait err) \<Rightarrow> Some (set_down d (DnCanceled e) s) | _ \<Rightarrow> None)"
| "server_step H E s (ServerClose cl ord) =
     (if distinct ord \<and> set ord = set (sv_listeners s) then Some (snd (server_Close cl ord s)) else None)"
| "server_step H E s (ConnStep o' e) =
     (if conn_may s o' e
      then (case conn_step E (sv_conns s ! o') e of
          None \<Rightarrow> None
        | Some c \<Rightarrow> Some (s\<lparr>sv_conns := (sv_conns s)[o' := c]\<rparr>))
      else None)"
| "server_step H E s (ConnDel o') =
     (if o' < length (sv_conns s) \<and> mpc (sv_conns s ! o') = MLeft then Some (delConnection o' s) else None)"

end
