(* ===== verification/ServerRuns.thy ===== *)
theory ServerRuns
  imports Server
begin

text \<open>
  The runs of the server of theory \<open>Server\<close>: the backoff of the accept loop, the table of
  connections, what closing the server leaves to the goroutines of \<open>Serve\<close> and \<open>Shutdown\<close>, the
  connections the handshake approved, and the listeners.
\<close>

section \<open>The pauses of the accept loop\<close>

text \<open>The backoff after \<open>n\<close> temporary errors in a row.\<close>

definition backoff_after :: "nat \<Rightarrow> int" where
  "backoff_after n = (if n = 0 then 0 else min second (millisecond * 2 ^ (n - 1)))"

lemma next_backoff_after: "next_backoff (backoff_after n) = backoff_after (Suc n)"
proof (cases n)
  case (Suc m)
  have "(1::int) \<le> 2 ^ m" by simp
  then have "backoff_after n \<noteq> 0" by (simp add: backoff_after_def Suc second_def millisecond_def min_def)
  then show ?thesis by (simp add: next_backoff_def backoff_after_def Suc min_def second_def millisecond_def)
qed (simp add: next_backoff_def backoff_after_def)

lemma backoff_after_pos: "0 < backoff_after (Suc n)" "backoff_after n \<le> second"
  by (simp_all add: backoff_after_def second_def millisecond_def min_def)

text \<open>
  The pauses: each below the backoff of its failure, the failures counted from one without a gap,
  and the last of them the \<open>n\<close> since the last connection.
\<close>

definition sleeps_ok :: "nat \<Rightarrow> (nat \<times> int) list \<Rightarrow> bool" where
  "sleeps_ok n xs \<longleftrightarrow> (\<forall>(m, r) \<in> set xs. 0 < m \<and> 0 \<le> r \<and> r < backoff_after m) \<and>
     (\<forall>i < length xs. fst (xs ! i) = 1 \<or> (0 < i \<and> fst (xs ! i) = Suc (fst (xs ! (i - 1))))) \<and>
     (n = 0 \<or> (xs \<noteq> [] \<and> fst (last xs) = n))"

lemma sleeps_ok_snoc:
  assumes "sleeps_ok n xs" "0 \<le> r" "r < backoff_after (Suc n)"
  shows "sleeps_ok (Suc n) (xs @ [(Suc n, r)])"
proof -
  have "fst ((xs @ [(Suc n, r)]) ! i) = 1 \<or> (0 < i \<and> fst ((xs @ [(Suc n, r)]) ! i) = Suc (fst ((xs @ [(Suc n, r)]) ! (i - 1))))"
    if i: "i < Suc (length xs)" for i
  proof (cases "i = length xs")
    case True
    with assms(1) show ?thesis by (cases "xs = []") (auto simp: sleeps_ok_def nth_append last_conv_nth)
  next
    case False
    with i assms(1) show ?thesis by (auto simp: sleeps_ok_def nth_append)
  qed
  with assms show ?thesis by (auto simp: sleeps_ok_def)
qed

lemma sleeps_ok_reset: "sleeps_ok n xs \<Longrightarrow> sleeps_ok 0 xs"
  by (simp add: sleeps_ok_def)

definition serve_ok :: "serve \<Rightarrow> bool" where
  "serve_ok v \<longleftrightarrow> v_pc v \<noteq> SvPanic \<and> v_backoff v = backoff_after (v_fails v) \<and> sleeps_ok (v_fails v) (v_sleeps v)"

definition backoff_inv :: "server \<Rightarrow> bool" where [inv_defs]:
  "backoff_inv s \<longleftrightarrow> (\<forall>v \<in> set (sv_serves s). serve_ok v)"

lemma backoff_inv_init: "backoff_inv server0"
  by (simp add: backoff_inv_def server0_def)

lemma serve_failed_ok:
  assumes "serve_failed e temporary r closed v = Some v'" "serve_ok v"
  shows "serve_ok v'"
proof -
  have b: "next_backoff (v_backoff v) = backoff_after (Suc (v_fails v))"
    using assms(2) by (simp add: serve_ok_def next_backoff_after)
  show ?thesis
    using assms backoff_after_pos(1) [of "v_fails v"] sleeps_ok_snoc [of "v_fails v" "v_sleeps v" r]
    unfolding serve_failed_def b Let_def by (auto simp: serve_ok_def split: if_splits)
qed

text \<open>What the operations on other parts leave alone.\<close>

lemma serves_fun [simp]:
  "sv_serves (close_done s) = sv_serves s" "sv_serves (addListenerLocked l s) = sv_serves s"
  "sv_serves (close_where P s) = sv_serves s" "sv_serves (closeIdleConns s) = sv_serves s"
  "sv_serves (delConnection o' s) = sv_serves s" "sv_serves (set_down d pc s) = sv_serves s"
  "sv_serves (snd (closeListenerLocked cl l s)) = sv_serves s"
  "sv_serves (set_serve i v s) = (sv_serves s)[i := v]"
  by (simp_all add: close_done_def addListenerLocked_def close_where_def closeIdleConns_def delConnection_def
      set_down_def closeListenerLocked_def set_serve_def)

lemma closeListeners_same:
  "closeListeners cl ls err s = (err', t) \<Longrightarrow>
   sv_serves t = sv_serves s \<and> sv_conns t = sv_conns s \<and> sv_connections t = sv_connections s \<and> sv_done t = sv_done s \<and>
   sv_downs t = sv_downs s \<and> sv_net t = sv_net s \<and> sv_refused t = sv_refused s \<and>
   sv_listeners t = filter (\<lambda>l. l \<notin> set ls) (sv_listeners s) \<and> sv_listener_closes t = sv_listener_closes s @ ls"
proof (induction ls arbitrary: err s)
  case (Cons l ls)
  from Cons.prems obtain e where "closeListeners cl ls e (snd (closeListenerLocked cl l s)) = (err', t)"
    by (auto simp: closeListenerLocked_def split: if_splits)
  from Cons.IH [OF this] show ?case
    by (auto simp: closeListenerLocked_def removeAll_filter_not_eq intro: filter_cong)
qed simp

lemma newConn_serves: "sv_serves (newConn i raw c s) = (sv_serves s)[i := (sv_serves s ! i)\<lparr>v_pc := SvAccept\<rparr>]"
  by (auto simp: newConn_def addConnection_def set_serve_def Let_def)

lemma newConn_done [simp]: "sv_done (newConn i raw c s) = sv_done s" "sv_downs (newConn i raw c s) = sv_downs s"
  by (auto simp: newConn_def addConnection_def set_serve_def Let_def)

lemma done_fun [simp]:
  "sv_done (close_done s)" "sv_done (set_serve i v s) = sv_done s" "sv_done (set_down d pc s) = sv_done s"
  "sv_done (addListenerLocked l s) = sv_done s" "sv_done (close_where P s) = sv_done s"
  "sv_done (closeIdleConns s) = sv_done s" "sv_done (delConnection o' s) = sv_done s"
  "sv_done (snd (closeListenerLocked cl l s)) = sv_done s"
  by (simp_all add: close_done_def set_serve_def set_down_def addListenerLocked_def close_where_def
      closeIdleConns_def delConnection_def closeListenerLocked_def)

section \<open>Moves of the goroutines in \<open>Serve\<close>\<close>

text \<open>
  One that may still call \<open>Accept\<close>; what the handshake approved. A move keeps the listener, the
  bounds of the pauses, and starts serving only what was approved.
\<close>

definition accepting :: "serve_pc \<Rightarrow> bool" where
  "accepting pc \<longleftrightarrow> (case pc of SvAccept \<Rightarrow> True | SvFailed _ _ \<Rightarrow> True | SvHandshake _ \<Rightarrow> True | SvNew _ _ \<Rightarrow> True | _ \<Rightarrow> False)"

definition approved_as :: "'a Handshaker \<Rightarrow> net_conn \<Rightarrow> net_conn \<Rightarrow> bool" where
  "approved_as H raw c \<longleftrightarrow> (\<exists>a. H raw = Inr (c, a))"

definition approved :: "'a Handshaker \<Rightarrow> net_conn \<Rightarrow> bool" where
  "approved H c \<longleftrightarrow> (\<exists>raw. approved_as H raw c)"

lemma newConn_listeners [simp]:
  "sv_listeners (newConn i raw c s) = sv_listeners s" "sv_listener_closes (newConn i raw c s) = sv_listener_closes s"
  by (auto simp: newConn_def addConnection_def set_serve_def Let_def)

lemma listeners_fun [simp]:
  "sv_listeners (close_done s) = sv_listeners s" "sv_listener_closes (close_done s) = sv_listener_closes s"
  "sv_listeners (set_serve i v s) = sv_listeners s" "sv_listener_closes (set_serve i v s) = sv_listener_closes s"
  "sv_listeners (set_down d pc s) = sv_listeners s" "sv_listener_closes (set_down d pc s) = sv_listener_closes s"
  "sv_listeners (close_where P s) = sv_listeners s" "sv_listener_closes (close_where P s) = sv_listener_closes s"
  "sv_listeners (closeIdleConns s) = sv_listeners s" "sv_listener_closes (closeIdleConns s) = sv_listener_closes s"
  "sv_listeners (delConnection o' s) = sv_listeners s" "sv_listener_closes (delConnection o' s) = sv_listener_closes s"
  "sv_listeners (snd (closeListenerLocked cl l s)) = removeAll l (sv_listeners s)"
  "sv_listener_closes (snd (closeListenerLocked cl l s)) = sv_listener_closes s @ [l]"
  "set (sv_listeners (addListenerLocked l s)) = insert l (set (sv_listeners s))"
  "sv_listener_closes (addListenerLocked l s) = sv_listener_closes s"
  by (simp_all add: close_done_def set_serve_def set_down_def addListenerLocked_def close_where_def
      closeIdleConns_def delConnection_def closeListenerLocked_def)

lemma serve_step_ok:
  assumes "serve_ok v"
  shows "serve_ok (v\<lparr>v_pc := SvAccept\<rparr>)" "serve_ok (v\<lparr>v_pc := SvDefer e\<rparr>)" "serve_ok (v\<lparr>v_pc := SvFailed e b\<rparr>)"
    "serve_ok (v\<lparr>v_pc := SvNew c c'\<rparr>)" "serve_ok (v\<lparr>v_pc := SvDone e\<rparr>)"
    "serve_ok (v\<lparr>v_backoff := 0, v_fails := 0, v_pc := SvHandshake c\<rparr>)"
  using assms by (auto simp: serve_ok_def backoff_after_def dest: sleeps_ok_reset)

lemma serve_at_Some: "serve_at s i = Some pc \<longleftrightarrow> i < length (sv_serves s) \<and> v_pc (sv_serves s ! i) = pc"
  by (auto simp: serve_at_def)

definition serve_move :: "'a Handshaker \<Rightarrow> server \<Rightarrow> server \<Rightarrow> serve \<Rightarrow> serve \<Rightarrow> bool" where
  "serve_move H s t w v \<longleftrightarrow> v_listener v = v_listener w \<and> (serve_ok w \<longrightarrow> serve_ok v) \<and>
     (\<forall>raw c. v_pc v = SvNew raw c \<longrightarrow> approved_as H raw c) \<and>
     ((v_pc w = SvStart \<and> v_listener w \<in> set (sv_listeners t) \<and> sv_done t = sv_done s \<and>
         v_pc v = (if sv_done s then SvDefer ErrServerClosed else SvAccept)) \<or>
      (accepting (v_pc w) \<and> (accepting (v_pc v) \<or> v_pc v = SvPanic \<or> (\<exists>e. v_pc v = SvDefer e \<and> (sv_done s \<longrightarrow> e = ErrServerClosed)))) \<or>
      (\<exists>e. v_pc w = SvDefer e \<and> v_pc v = SvDone e \<and> v_listener w \<in> set (sv_listener_closes t)))"

lemma accepting_simps [simp]:
  "accepting SvAccept" "accepting (SvFailed e b)" "accepting (SvHandshake c)" "accepting (SvNew raw c)"
  "\<not> accepting SvStart" "\<not> accepting (SvDefer e)" "\<not> accepting (SvDone e)" "\<not> accepting SvPanic"
  by (simp_all add: accepting_def)

lemma server_step_serve:
  assumes "server_step H E s e = Some t" "v \<in> set (sv_serves t)"
  shows "v \<in> set (sv_serves s) \<or> (v_pc v = SvStart \<and> serve_ok v) \<or> (\<exists>w \<in> set (sv_serves s). serve_move H s t w v)"
proof -
  have upd: "v \<in> set (sv_serves s) \<or> (\<exists>w \<in> set (sv_serves s). serve_move H s t w v)"
    if "sv_serves t = (sv_serves s)[i := v']" "i < length (sv_serves s)" "serve_move H s t (sv_serves s ! i) v'" for i v'
  proof -
    have "v \<in> set (sv_serves s) \<or> v = v'"
      using assms(2) set_update_subset_insert [of "sv_serves s" i v'] that(1) by auto
    with that(2,3) show ?thesis by auto
  qed
  show ?thesis
  proof (cases e)
    case (ServeStart i)
    then have "v \<in> set (sv_serves s) \<or> (\<exists>w \<in> set (sv_serves s). serve_move H s t w v)" using assms(1)
      by (intro upd [of i "(sv_serves s ! i)\<lparr>v_pc := (if sv_done s then SvDefer ErrServerClosed else SvAccept)\<rparr>"])
        (auto simp: serve_move_def serve_at_Some serve_step_ok Let_def split: if_splits)
    then show ?thesis by blast
  next
    case (Accepted i r)
    have "v \<in> set (sv_serves s) \<or> (\<exists>w \<in> set (sv_serves s). serve_move H s t w v)"
    proof (cases r)
      case (Inl c)
      with Accepted assms(1) show ?thesis
        by (intro upd [of i "(sv_serves s ! i)\<lparr>v_backoff := 0, v_fails := 0, v_pc := SvHandshake c\<rparr>"])
          (auto simp: serve_move_def serve_at_Some serve_step_ok Let_def split: if_splits)
    next
      case (Inr p)
      with Accepted assms(1) show ?thesis
        by (intro upd [of i "(sv_serves s ! i)\<lparr>v_pc := SvFailed (fst p) (snd p)\<rparr>"])
          (auto simp: serve_move_def serve_at_Some serve_step_ok Let_def split: if_splits prod.splits)
    qed
    then show ?thesis by blast
  next
    case (ServeRetry i r)
    then obtain f b v' where v': "serve_at s i = Some (SvFailed f b)"
      "serve_failed f b r (sv_done s) (sv_serves s ! i) = Some v'" "t = set_serve i v' s"
      using assms(1) by (auto split: option.splits serve_pc.splits)
    then have "serve_move H s t (sv_serves s ! i) v'"
      using serve_failed_ok [OF v'(2)]
      by (auto simp: serve_move_def serve_failed_def serve_at_Some Let_def split: if_splits)
    with upd [of i v'] v' show ?thesis by (auto simp: serve_at_Some)
  next
    case (Handshaken i)
    then obtain c where h: "serve_at s i = Some (SvHandshake c)"
      using assms(1) by (auto split: option.splits serve_pc.splits)
    let ?pc = "case H c of Inl _ \<Rightarrow> SvAccept | Inr (y, _) \<Rightarrow> SvNew c y"
    have "accepting ?pc" "\<forall>raw y. ?pc = SvNew raw y \<longrightarrow> approved_as H raw y"
      by (auto simp: approved_as_def split: sum.split prod.split)
    moreover have "sv_serves t = (sv_serves s)[i := (sv_serves s ! i)\<lparr>v_pc := ?pc\<rparr>]"
      using Handshaken h assms(1) by (auto simp: Let_def split: sum.splits prod.splits)
    ultimately obtain pc where c: "serve_at s i = Some (SvHandshake c)" "accepting pc" "\<forall>raw y. pc = SvNew raw y \<longrightarrow> approved_as H raw y"
      "sv_serves t = (sv_serves s)[i := (sv_serves s ! i)\<lparr>v_pc := pc\<rparr>]"
      using h by blast
    then have "serve_move H s t (sv_serves s ! i) ((sv_serves s ! i)\<lparr>v_pc := pc\<rparr>)"
      by (auto simp: serve_move_def serve_at_Some serve_ok_def)
    with upd [OF c(4)] c(1) show ?thesis by (auto simp: serve_at_Some)
  next
    case (ServeNew i)
    then obtain raw c where c: "serve_at s i = Some (SvNew raw c)" "t = newConn i raw c s"
      using assms(1) by (auto split: option.splits serve_pc.splits)
    then have "serve_move H s t (sv_serves s ! i) ((sv_serves s ! i)\<lparr>v_pc := SvAccept\<rparr>)"
      by (simp add: serve_move_def serve_at_Some serve_step_ok)
    with upd [of i "(sv_serves s ! i)\<lparr>v_pc := SvAccept\<rparr>"] c show ?thesis by (auto simp: serve_at_Some newConn_serves)
  next
    case (ServeClosed i)
    then obtain x where x: "serve_at s i = Some (SvDefer x)"
      "t = set_serve i ((sv_serves s ! i)\<lparr>v_pc := SvDone x\<rparr>) (snd (closeListenerLocked (\<lambda>_. None) (v_listener (sv_serves s ! i)) s))"
      using assms(1) by (auto simp: Let_def split: option.splits serve_pc.splits)
    then have "serve_move H s t (sv_serves s ! i) ((sv_serves s ! i)\<lparr>v_pc := SvDone x\<rparr>)"
      by (simp add: serve_move_def serve_at_Some serve_step_ok)
    with upd [of i "(sv_serves s ! i)\<lparr>v_pc := SvDone x\<rparr>"] x show ?thesis by (auto simp: serve_at_Some)
  next
    case (ShutdownStart d cl ord)
    with assms show ?thesis by (auto dest!: closeListeners_same split: if_splits prod.splits)
  next
    case (ServerClose cl ord)
    with assms show ?thesis by (auto simp: server_Close_def dest!: closeListeners_same split: if_splits prod.splits)
  qed (use assms in \<open>auto simp: serve_ok_def backoff_after_def sleeps_ok_def split: if_splits option.splits down_pc.splits\<close>)
qed

lemma backoff_inv_step:
  assumes inv: "backoff_inv s" and st: "server_step H E s e = Some t"
  shows "backoff_inv t"
  using inv server_step_serve [OF st] unfolding backoff_inv_def serve_move_def by blast

interpretation server_backoff: step_invariant "server_step H E" backoff_inv for H E
  by unfold_locales (rule backoff_inv_step)

section \<open>Connections\<close>

text \<open>Five ways in which a step changes the connections.\<close>

lemma server_step_conns:
  assumes "server_step H E s e = Some t"
  obtains (same) "sv_conns t = sv_conns s" "sv_connections t = sv_connections s" "sv_net t = sv_net s"
  | (new) i raw c where "e = ServeNew i" "serve_at s i = Some (SvNew raw c)" "\<not> sv_done s" "sv_conns t = sv_conns s @ [conn0]"
      "sv_connections t = sv_connections s @ [length (sv_conns s)]" "sv_net t = sv_net s @ [c]"
  | (close) P where "sv_conns t = sv_conns (close_where P s)" "sv_connections t = sv_connections (close_where P s)"
      "sv_net t = sv_net s"
  | (step) o' ce c where "e = ConnStep o' ce" "conn_may s o' ce" "conn_step E (sv_conns s ! o') ce = Some c" "sv_conns t = (sv_conns s)[o' := c]"
      "sv_connections t = sv_connections s" "sv_net t = sv_net s"
  | (del) o' where "o' < length (sv_conns s)" "mpc (sv_conns s ! o') = MLeft" "sv_conns t = sv_conns s"
      "sv_connections t = removeAll o' (sv_connections s)" "sv_net t = sv_net s"
proof (cases e)
  case (ServeNew i)
  then obtain raw c where c: "serve_at s i = Some (SvNew raw c)" "t = newConn i raw c s"
    using assms by (auto split: option.splits serve_pc.splits)
  show ?thesis
  proof (cases "sv_done s")
    case True
    with c show ?thesis by (intro same) (simp_all add: newConn_def addConnection_def set_serve_def Let_def)
  next
    case False
    with c show ?thesis by (intro new [OF ServeNew c(1)]) (simp_all add: newConn_def addConnection_def set_serve_def Let_def)
  qed
next
  case (ShutdownStart d cl ord)
  with assms show ?thesis
    by (intro same) (auto dest!: closeListeners_same simp: set_down_def close_done_def split: if_splits prod.splits)
next
  case (ShutdownClose d)
  with assms show ?thesis
    by (intro close [of "\<lambda>c. c_state c \<noteq> connStateActive"])
      (auto simp: set_down_def closeIdleConns_def close_where_def split: option.splits down_pc.splits)
next
  case (ServerClose cl ord)
  then obtain err u where u: "closeListeners cl ord None (close_done s) = (err, u)" "t = close_where (\<lambda>c. True) u"
    using assms by (auto simp: server_Close_def split: if_splits prod.splits)
  from closeListeners_same [OF u(1)] u(2) show ?thesis
    by (intro close [of "\<lambda>c. True"]) (auto simp: close_where_def close_done_def)
next
  case (ConnStep o' ce)
  with assms show ?thesis by (auto intro: step split: if_splits option.splits)
next
  case (ConnDel o')
  with assms show ?thesis by (intro del) (auto simp: delConnection_def split: if_splits)
next
  case (Accepted i r)
  with assms show ?thesis
    by (cases r) (auto intro!: same simp: set_serve_def Let_def split: if_splits prod.splits)
qed (rule same; use assms in \<open>auto simp: set_serve_def set_down_def addListenerLocked_def closeListenerLocked_def Let_def
    split: if_splits option.splits serve_pc.splits down_pc.splits sum.splits prod.splits\<close>)+

text \<open>A connection that has been told to stop, or whose main loop has ended, stays so.\<close>

definition conn_leaving :: "sconn \<Rightarrow> bool" where
  "conn_leaving c \<longleftrightarrow> c_shutdown c \<or> mpc c = MLeft \<or> mpc c = MExit"

lemma conn_leaving_close [simp]: "conn_leaving (conn_close c)"
  by (simp add: conn_leaving_def conn_close_def)

lemma conn_leaving_step:
  assumes "conn_step E c e = Some c'" "conn_leaving c"
  shows "conn_leaving c'"
proof (cases e)
  case (RMessage mh p err ctx_err pick)
  with assms show ?thesis
    by (auto simp: conn_leaving_def recv_frame_eq_def dest!: recv_body_eq split: if_splits)
next
  case (RWaitData ctx_err pick)
  with assms show ?thesis
    by (auto simp: conn_leaving_def recv_frame_eq_def dest!: recv_data_eq split: recv_pc.splits)
next
  case (MTakeErr)
  with assms show ?thesis
    by (auto simp: conn_leaving_def conn_exit_def Let_def split: main_pc.splits if_splits outcome.splits option.splits)
qed (use assms in \<open>auto simp: conn_leaving_def conn_close_def conn_exit_def conn_return_def main_guard_def set_worker_def
    split: if_splits recv_pc.splits main_pc.splits option.splits outcome.splits worker_pc.splits bool.splits\<close>)

definition table_inv :: "server \<Rightarrow> bool" where [inv_defs]:
  "table_inv s \<longleftrightarrow> distinct (sv_connections s) \<and> set (sv_connections s) \<subseteq> {..<length (sv_conns s)} \<and>
     length (sv_net s) = length (sv_conns s) \<and>
     (\<forall>o' < length (sv_conns s). o' \<notin> set (sv_connections s) \<longrightarrow> conn_leaving (sv_conns s ! o'))"

lemma table_inv_init: "table_inv server0"
  by (simp add: table_inv_def server0_def)

lemma nth_close_where [simp]:
  "o' < length (sv_conns s) \<Longrightarrow> sv_conns (close_where P s) ! o' =
     (if o' \<in> set (sv_connections s) \<and> P (sv_conns s ! o') then conn_close (sv_conns s ! o') else sv_conns s ! o')"
  "length (sv_conns (close_where P s)) = length (sv_conns s)"
  "set (sv_connections (close_where P s)) = {o' \<in> set (sv_connections s). \<not> P (sv_conns s ! o')}"
  "distinct (sv_connections s) \<Longrightarrow> distinct (sv_connections (close_where P s))"
  by (auto simp: close_where_def)

lemma table_inv_step:
  assumes inv: "table_inv s" and st: "server_step H E s e = Some t"
  shows "table_inv t"
  using st
proof (cases rule: server_step_conns)
  case same
  with inv show ?thesis by (simp add: table_inv_def)
next
  case (new i raw c)
  with inv show ?thesis by (auto simp: table_inv_def nth_append)
next
  case (close P)
  with inv show ?thesis by (auto simp: table_inv_def)
next
  case (step o' ce c)
  with inv show ?thesis by (auto simp: table_inv_def nth_list_update conn_may_def dest: conn_leaving_step)
next
  case (del o')
  with inv show ?thesis by (auto simp: table_inv_def conn_leaving_def distinct_removeAll)
qed

interpretation server_table: step_invariant "server_step H E" table_inv for H E
  by unfold_locales (rule table_inv_step)

text \<open>Every connection of the server is a run of the connection's own steps.\<close>

definition conns_run :: "('c, 'f, 'g, 'i, 'j, 'm) conn_env \<Rightarrow> server \<Rightarrow> bool" where [inv_defs]:
  "conns_run E s \<longleftrightarrow> (\<forall>c \<in> set (sv_conns s). \<exists>es. run (conn_step E) conn0 es = Some c)"

lemma conns_run_init: "conns_run E server0"
  by (simp add: conns_run_def server0_def)

lemma conns_run_more:
  assumes "\<exists>es. run (conn_step E) conn0 es = Some c" "conn_step E c e = Some c'"
  shows "\<exists>es. run (conn_step E) conn0 es = Some c'"
  using assms by (metis run_snoc_Some)

lemma conns_run_step:
  assumes inv: "conns_run E s" and st: "server_step H E s e = Some t"
  shows "conns_run E t"
  using st
proof (cases rule: server_step_conns)
  case (new i raw c)
  have "run (conn_step E) conn0 [] = Some conn0" by simp
  with new inv show ?thesis unfolding conns_run_def by (metis UnE empty_iff insert_iff list.set set_append)
next
  case (close P)
  have "\<exists>es. run (conn_step E) conn0 es = Some (sv_conns t ! o')" if "o' < length (sv_conns s)" for o'
  proof -
    have "\<exists>es. run (conn_step E) conn0 es = Some (sv_conns s ! o')" using inv that by (simp add: conns_run_def)
    moreover from this have "\<exists>es. run (conn_step E) conn0 es = Some (conn_close (sv_conns s ! o'))"
      by (rule conns_run_more) (rule conn_step.simps(1))
    ultimately show ?thesis using that close by simp
  qed
  with close show ?thesis by (auto simp: conns_run_def all_set_conv_all_nth)
next
  case (step o' ce c)
  have "\<exists>es. run (conn_step E) conn0 es = Some c"
    using conns_run_more [OF _ step(3)] inv step(2) by (simp add: conns_run_def conn_may_def)
  with inv step(4) show ?thesis
    unfolding conns_run_def by (metis insert_iff set_update_subset_insert subsetD)
qed (use inv in \<open>simp_all add: conns_run_def\<close>)

interpretation server_conns: step_invariant "server_step H E" "conns_run E" for H E
  by unfold_locales (rule conns_run_step)

section \<open>Closing the server\<close>

text \<open>After \<open>done\<close> no connection is made and none comes back into the map.\<close>

definition server_le :: "server \<Rightarrow> server \<Rightarrow> bool" where
  "server_le s t \<longleftrightarrow> length (sv_conns s) \<le> length (sv_conns t) \<and>
     (sv_done s \<longrightarrow> sv_done t \<and> length (sv_conns t) = length (sv_conns s) \<and>
        set (sv_connections t) \<subseteq> set (sv_connections s))"

lemma server_step_done: "server_step H E s e = Some t \<Longrightarrow> sv_done s \<Longrightarrow> sv_done t"
  by (cases e) (auto dest!: closeListeners_same simp: server_Close_def Let_def
    split: if_splits option.splits serve_pc.splits down_pc.splits sum.splits prod.splits)

lemma server_le_step: "server_step H E s e = Some t \<Longrightarrow> server_le s t"
proof -
  assume st: "server_step H E s e = Some t"
  note d = server_step_done [OF st]
  from st show "server_le s t"
    by (cases rule: server_step_conns) (auto simp: server_le_def d)
qed

interpretation server_mono: step_monotone "server_step H E" server_le for H E
proof unfold_locales
  show "server_le s s" for s by (simp add: server_le_def)
  show "server_le s u" if "server_le s t" "server_le t u" for s t u
    using that by (auto simp: server_le_def)
  show "server_le s t" if "server_step H E s e = Some t" for s e t
    by (rule server_le_step [OF that])
qed

definition down_ok :: "server \<Rightarrow> down_pc \<Rightarrow> bool" where
  "down_ok s pc \<longleftrightarrow> (case pc of DnStart \<Rightarrow> True | DnDone err \<Rightarrow> sv_done s \<and> sv_connections s = [] | _ \<Rightarrow> sv_done s)"

definition down_inv :: "server \<Rightarrow> bool" where [inv_defs]:
  "down_inv s \<longleftrightarrow> (\<forall>pc \<in> set (sv_downs s). down_ok s pc)"

lemma down_inv_init: "down_inv server0"
  by (simp add: down_inv_def server0_def)

lemma down_ok_le: "down_ok s pc \<Longrightarrow> server_le s t \<Longrightarrow> down_ok t pc"
  by (auto simp: down_ok_def server_le_def split: down_pc.splits)

lemma down_at_Some: "down_at s d = Some pc \<longleftrightarrow> d < length (sv_downs s) \<and> sv_downs s ! d = pc"
  by (auto simp: down_at_def)

lemma downs_fun [simp]:
  "sv_downs (close_done s) = sv_downs s" "sv_downs (set_serve i v s) = sv_downs s"
  "sv_downs (addListenerLocked l s) = sv_downs s" "sv_downs (close_where P s) = sv_downs s"
  "sv_downs (closeIdleConns s) = sv_downs s" "sv_downs (delConnection o' s) = sv_downs s"
  "sv_downs (snd (closeListenerLocked cl l s)) = sv_downs s" "sv_downs (set_down d pc s) = (sv_downs s)[d := pc]"
  by (simp_all add: close_done_def set_serve_def set_down_def addListenerLocked_def close_where_def
      closeIdleConns_def delConnection_def closeListenerLocked_def)

lemma down_inv_step:
  assumes inv: "down_inv s" and st: "server_step H E s e = Some t"
  shows "down_inv t"
proof -
  have le: "server_le s t" by (rule server_le_step [OF st])
  have old: "down_ok t pc" if "pc \<in> set (sv_downs s)" for pc
    using inv that down_ok_le [OF _ le] by (simp add: down_inv_def)
  have same: "down_inv t" if "sv_downs t = sv_downs s"
    using old by (simp add: down_inv_def that)
  have one: "down_inv t" if "sv_downs t = (sv_downs s)[d := pc]" "down_ok t pc" for d pc
    using old that set_update_subset_insert [of "sv_downs s" d pc] by (auto simp: down_inv_def)
  have closed: "sv_done s" if "down_at s d = Some pc" "pc \<noteq> DnStart" for d pc
  proof -
    have "down_ok s pc" using inv that(1) by (auto simp: down_inv_def down_at_Some)
    with that(2) show ?thesis by (cases pc) (simp_all add: down_ok_def)
  qed
  show ?thesis
  proof (cases e)
    case ShutdownCall
    with st old show ?thesis by (auto simp: down_inv_def down_ok_def)
  next
    case (ShutdownStart d cl ord)
    then obtain err u where u: "closeListeners cl ord None (close_done s) = (err, u)" "t = set_down d (DnClose err) u"
      using st by (auto split: if_splits prod.splits)
    then show ?thesis
      using closeListeners_same [OF u(1)] by (intro one [of d "DnClose err"]) (simp_all add: down_ok_def)
  next
    case (ShutdownClose d)
    then obtain err where d: "down_at s d = Some (DnClose err)" "t = set_down d (DnCount err) (closeIdleConns s)"
      using st by (auto split: option.splits down_pc.splits)
    with closed [OF d(1)] show ?thesis by (intro one [of d "DnCount err"]) (simp_all add: down_ok_def)
  next
    case (ShutdownCount d)
    then obtain err where d: "down_at s d = Some (DnCount err)"
      "t = set_down d (if countConnection s = 0 then DnDone err else DnWait err) s"
      using st by (auto split: option.splits down_pc.splits)
    with closed [OF d(1)] show ?thesis
      by (intro one [of d "if countConnection s = 0 then DnDone err else DnWait err"])
        (simp_all add: down_ok_def countConnection_def set_down_def)
  next
    case (ShutdownTick d)
    then obtain err where d: "down_at s d = Some (DnWait err)" "t = set_down d (DnClose err) s"
      using st by (auto split: option.splits down_pc.splits)
    with closed [OF d(1)] show ?thesis by (intro one [of d "DnClose err"]) (simp_all add: down_ok_def)
  next
    case (ShutdownCtx d x)
    then obtain err where d: "down_at s d = Some (DnWait err)" "t = set_down d (DnCanceled x) s"
      using st by (auto split: option.splits down_pc.splits)
    with closed [OF d(1)] show ?thesis by (intro one [of d "DnCanceled x"]) (simp_all add: down_ok_def)
  next
    case (ServerClose cl ord)
    with st show ?thesis
      by (intro same) (auto simp: server_Close_def dest: closeListeners_same split: if_splits prod.splits)
  next
    case (ServeNew i)
    with st show ?thesis by (intro same) (auto split: option.splits serve_pc.splits)
  next
    case (Accepted i r)
    with st show ?thesis by (intro same) (cases r; auto simp: Let_def split: if_splits prod.splits)
  qed (rule same; use st in \<open>auto simp: Let_def split: if_splits option.splits serve_pc.splits sum.splits prod.splits\<close>)+
qed

interpretation server_down: step_invariant "server_step H E" down_inv for H E
  by unfold_locales (rule down_inv_step)

text \<open>The server serves what the handshake approved.\<close>

definition approved_inv :: "'a Handshaker \<Rightarrow> server \<Rightarrow> bool" where [inv_defs]:
  "approved_inv H s \<longleftrightarrow> (\<forall>c \<in> set (sv_net s). approved H c) \<and>
     (\<forall>v \<in> set (sv_serves s). \<forall>raw c. v_pc v = SvNew raw c \<longrightarrow> approved_as H raw c)"

lemma approved_inv_init: "approved_inv H server0"
  by (simp add: approved_inv_def server0_def)

lemma approved_inv_step:
  assumes inv: "approved_inv H s" and st: "server_step H E s e = Some t"
  shows "approved_inv H t"
proof -
  have "approved_as H raw c" if "v \<in> set (sv_serves t)" "v_pc v = SvNew raw c" for v raw c
    using server_step_serve [OF st that(1)] that(2) inv by (auto simp: approved_inv_def serve_move_def)
  moreover have "\<forall>c \<in> set (sv_net t). approved H c"
    using st
  proof (cases rule: server_step_conns)
    case (new i raw c)
    then have "v_pc (sv_serves s ! i) = SvNew raw c" "sv_serves s ! i \<in> set (sv_serves s)"
      by (simp_all add: serve_at_Some)
    with inv have "approved_as H raw c" by (simp add: approved_inv_def)
    with inv new show ?thesis by (auto simp: approved_inv_def approved_def)
  qed (use inv in \<open>simp_all add: approved_inv_def\<close>)
  ultimately show ?thesis by (auto simp: approved_inv_def)
qed

interpretation server_approved: step_invariant "server_step H E" "approved_inv H" for H E
  by unfold_locales (rule approved_inv_step)

section \<open>Listeners\<close>

text \<open>
  A goroutine of \<open>Serve\<close> past its start: its listener is in the map or was closed. When \<open>done\<close> is
  closed, one that may still call \<open>Accept\<close> has a closed listener.
\<close>

definition listener_ok :: "server \<Rightarrow> serve \<Rightarrow> bool" where
  "listener_ok s v \<longleftrightarrow>
     (accepting (v_pc v) \<longrightarrow> (v_listener v \<in> set (sv_listeners s) \<and> \<not> sv_done s) \<or> v_listener v \<in> set (sv_listener_closes s)) \<and>
     (\<forall>e. v_pc v = SvDone e \<longrightarrow> v_listener v \<in> set (sv_listener_closes s))"

definition listener_inv :: "server \<Rightarrow> bool" where [inv_defs]:
  "listener_inv s \<longleftrightarrow> (\<forall>v \<in> set (sv_serves s). listener_ok s v)"

lemma listener_inv_init: "listener_inv server0"
  by (simp add: listener_inv_def server0_def)

text \<open>The listeners that leave the map are closed, and closing \<open>done\<close> closes them all.\<close>

definition listeners_le :: "server \<Rightarrow> server \<Rightarrow> bool" where
  "listeners_le s t \<longleftrightarrow> set (sv_listener_closes s) \<subseteq> set (sv_listener_closes t) \<and>
     (if sv_done t \<and> \<not> sv_done s then set (sv_listeners s) \<subseteq> set (sv_listener_closes t)
      else set (sv_listeners s) \<subseteq> set (sv_listeners t) \<union> set (sv_listener_closes t))"

lemma listener_ok_le: "listener_ok s v \<Longrightarrow> listeners_le s t \<Longrightarrow> (sv_done s \<Longrightarrow> sv_done t) \<Longrightarrow> listener_ok t v"
  by (auto simp: listener_ok_def listeners_le_def split: if_splits)

lemma server_step_listeners:
  assumes "server_step H E s e = Some t"
  shows "listeners_le s t"
proof (cases e)
  case (ShutdownStart d cl ord)
  then obtain err u where u: "closeListeners cl ord None (close_done s) = (err, u)" "t = set_down d (DnClose err) u"
    "set ord = set (sv_listeners s)"
    using assms by (auto split: if_splits prod.splits)
  from closeListeners_same [OF u(1)] u(2,3) show ?thesis by (auto simp: listeners_le_def)
next
  case (ServerClose cl ord)
  then obtain err u where u: "closeListeners cl ord None (close_done s) = (err, u)" "t = close_where (\<lambda>c. True) u"
    "set ord = set (sv_listeners s)"
    using assms by (auto simp: server_Close_def split: if_splits prod.splits)
  from closeListeners_same [OF u(1)] u(2,3) show ?thesis by (auto simp: listeners_le_def)
next
  case (Accepted i r)
  with assms show ?thesis
    by (cases r) (auto simp: listeners_le_def Let_def split: if_splits prod.splits)
next
  case (Handshaken i)
  with assms show ?thesis
    by (auto simp: listeners_le_def Let_def split: option.splits serve_pc.splits sum.splits prod.splits)
qed (use assms in \<open>auto simp: listeners_le_def Let_def split: if_splits option.splits serve_pc.splits down_pc.splits\<close>)

lemma listener_inv_step:
  assumes inv: "listener_inv s" and st: "server_step H E s e = Some t"
  shows "listener_inv t"
  unfolding listener_inv_def
proof
  fix v assume v: "v \<in> set (sv_serves t)"
  have old: "listener_ok t w" if "w \<in> set (sv_serves s)" for w
    using listener_ok_le [OF _ server_step_listeners [OF st] server_step_done [OF st]] inv that
    by (simp add: listener_inv_def)
  from server_step_serve [OF st v] show "listener_ok t v"
  proof (elim disjE bexE)
    fix w assume w: "w \<in> set (sv_serves s)" "serve_move H s t w v"
    from old [OF w(1)] w(2) show "listener_ok t v"
      by (auto simp: listener_ok_def serve_move_def split: if_splits)
  qed (rule old, assumption, simp add: listener_ok_def)
qed

interpretation server_listener: step_invariant "server_step H E" listener_inv for H E
  by unfold_locales (rule listener_inv_step)

section \<open>A concrete server\<close>

definition root_config :: "(unit, unit, unit, Ucred) serverConfig" where
  "root_config = \<lparr>handshaker = Some (UnixCredentialsFunc_Handshake example_status_lib UnixSocketRequireRoot),
     interceptor = Some defaultServerInterceptor\<rparr>"

lemmas server_eval = server0_def serve_at_def down_at_def set_serve_def set_down_def addListenerLocked_def
  closeListenerLocked_def close_done_def addConnection_def newConn_def serve_failed_def next_backoff_def millisecond_def
  second_def closeIdleConns_def close_where_def countConnection_def delConnection_def conn_may_def Let_def conn0_def conn_close_def
  main_guard_def conn_exit_def conn_return_def serve_handshaker_def root_config_def root_conn_def handshake_Inr_iff
  UnixCredentialsFunc_Handshake_def requireUnixSocket_def UnixSocketRequireRoot_def UnixSocketRequireUidGid_def requireUidGid_def

text \<open>Three failures to accept, then a connection of root, then a shutdown while the connection is idle.\<close>

definition server_run1 :: "server_event list" where
  "server_run1 = [ServeCall 5, ServeStart 0, Accepted 0 (Inr (Errno ECONNRESET, True)), ServeRetry 0 999999,
     Accepted 0 (Inr (Errno ECONNRESET, True)), ServeRetry 0 0, Accepted 0 (Inr (Errno ECONNRESET, True)), ServeRetry 0 3999999]"

definition server_run2 :: "server_event list" where
  "server_run2 = [ServeCall 5, ServeStart 0, Accepted 0 (Inl root_conn), Handshaken 0, ServeNew 0, ConnStep 0 MGuard,
     ConnStep 0 (RGuard False), Accepted 0 (Inl root_conn), Handshaken 0, ShutdownCall, ShutdownStart 0 (\<lambda>_. None) [5]]"

definition server_run3 :: "server_event list" where
  "server_run3 = [ShutdownClose 0, ConnStep 0 MShutdown, ShutdownCount 0, ConnStep 0 MReturn, ServeNew 0,
     Accepted 0 (Inr (NetErrClosed, False)), ServeRetry 0 0, ServeClosed 0]"

lemma server_run1_result:
  "\<exists>s. run (server_step (serve_handshaker root_config) demo_env) server0 server_run1 = Some s \<and>
     (\<exists>v. sv_serves s = [v] \<and> v_backoff v = 4000000 \<and> v_sleeps v = [(1, 999999), (2, 0), (3, 3999999)])"
  by (simp add: server_run1_def server_eval)

lemma server_run2_result:
  "\<exists>s t. run (server_step (serve_handshaker root_config) demo_env) server0 server_run2 = Some s \<and>
     sv_done s \<and> sv_connections s = [0] \<and> length (sv_conns s) = 1 \<and> down_at s 0 = Some (DnClose None) \<and>
     (\<forall>o' \<in> set (sv_connections s). c_state (sv_conns s ! o') \<noteq> connStateActive) \<and>
     run (server_step (serve_handshaker root_config) demo_env) s server_run3 = Some t \<and>
     down_at t 0 = Some (DnDone None) \<and> map v_pc (sv_serves t) = [SvDone ErrServerClosed] \<and> sv_refused t = [root_conn] \<and>
     map c_done (sv_conns t) = [True]"
  by (simp add: server_run2_def server_run3_def server_eval)

section \<open>Properties\<close>

text \<open>
  C16: The pauses of the accept loop. Every pause of a goroutine in \<open>Serve\<close> after the \<open>n\<close>-th temporary
  failure in a row is random below \<open>2 ^ (n - 1)\<close> milliseconds, but below a second: the bound doubles
  with each failure and starts again at a millisecond after a call of \<open>Accept\<close> that succeeded. The
  backoff is the bound of the last failure, and \<open>rand.Int63n\<close> is never called with a bound that
  makes it panic.
\<close>

theorem serve_backoff_bounded:
  assumes "run (server_step H E) server0 es = Some s" "v \<in> set (sv_serves s)"
  shows "v_backoff v = (if v_fails v = 0 then 0 else min 1000000000 (1000000 * 2 ^ (v_fails v - 1))) \<and>
    (\<forall>i < length (v_sleeps v). \<exists>n r. v_sleeps v ! i = (n, r) \<and>
       0 < n \<and> 0 \<le> r \<and> r < min 1000000000 (1000000 * 2 ^ (n - 1)) \<and>
       (n = 1 \<or> (0 < i \<and> n = Suc (fst (v_sleeps v ! (i - 1)))))) \<and>
    (0 < v_fails v \<longrightarrow> v_sleeps v \<noteq> [] \<and> fst (last (v_sleeps v)) = v_fails v) \<and> v_pc v \<noteq> SvPanic"
proof -
  have "serve_ok v"
    using server_backoff.inv_run [OF backoff_inv_init assms(1)] assms(2) by (simp add: backoff_inv_def)
  then have ok: "v_pc v \<noteq> SvPanic" "v_backoff v = backoff_after (v_fails v)" "sleeps_ok (v_fails v) (v_sleeps v)"
    by (simp_all add: serve_ok_def)
  have "\<exists>n r. v_sleeps v ! i = (n, r) \<and> 0 < n \<and> 0 \<le> r \<and> r < min 1000000000 (1000000 * 2 ^ (n - 1)) \<and>
      (n = 1 \<or> (0 < i \<and> n = Suc (fst (v_sleeps v ! (i - 1)))))" if i: "i < length (v_sleeps v)" for i
  proof -
    obtain n r where nr: "v_sleeps v ! i = (n, r)" by fastforce
    then have "(n, r) \<in> set (v_sleeps v)" using i nth_mem by fastforce
    then have "0 < n" "0 \<le> r" "r < backoff_after n" using ok(3) by (auto simp: sleeps_ok_def)
    moreover have "n = 1 \<or> (0 < i \<and> n = Suc (fst (v_sleeps v ! (i - 1))))"
      using ok(3) i nr by (auto simp: sleeps_ok_def)
    ultimately show ?thesis using nr by (simp add: backoff_after_def second_def millisecond_def)
  qed
  with ok show ?thesis by (auto simp: sleeps_ok_def backoff_after_def second_def millisecond_def)
qed

theorem serve_backoff_bounded_witness:
  "\<exists>s v. run (server_step (serve_handshaker root_config) demo_env) server0 server_run1 = Some s \<and>
     sv_serves s = [v] \<and> v_backoff v = 4000000 \<and> v_pc v \<noteq> SvPanic"
proof -
  obtain s v where s: "run (server_step (serve_handshaker root_config) demo_env) server0 server_run1 = Some s"
    and v: "sv_serves s = [v]" "v_backoff v = 4000000"
    using server_run1_result by (elim exE conjE) (rule that; assumption)
  have "v \<in> set (sv_serves s)" by (simp add: v(1))
  from serve_backoff_bounded [OF s this] v s show ?thesis by blast
qed

text \<open>
  C15: A closed server. Once \<open>done\<close> is closed, by \<open>Shutdown\<close> or \<open>Close\<close>, no connection is made or
  comes back into the map, whatever was being accepted; and the goroutines of \<open>Serve\<close> end: each
  one that can still call \<open>Accept\<close> or already returned has had its listener closed, and the next
  error of \<open>Accept\<close> makes it return \<open>ErrServerClosed\<close>, as does a new call at once.
\<close>

theorem closed_server:
  assumes "run (server_step H E) server0 es = Some s" "sv_done s" "run (server_step H E) s fs = Some t"
  shows "length (sv_conns t) = length (sv_conns s) \<and> set (sv_connections t) \<subseteq> set (sv_connections s) \<and>
    (\<forall>v \<in> set (sv_serves t). accepting (v_pc v) \<or> (\<exists>e. v_pc v = SvDone e) \<longrightarrow> v_listener v \<in> set (sv_listener_closes t)) \<and>
    (\<forall>i r u v. server_step H E t (ServeRetry i r) = Some u \<and> v = sv_serves u ! i \<longrightarrow> v_pc v = SvDefer ErrServerClosed) \<and>
    (\<forall>i u v. server_step H E t (ServeStart i) = Some u \<and> v = sv_serves u ! i \<longrightarrow> v_pc v = SvDefer ErrServerClosed)"
proof -
  have le: "server_le s t" by (rule server_mono.le_run [OF assms(3)])
  have dn: "sv_done t" using le assms(2) by (simp add: server_le_def)
  have "listener_inv t"
    using server_listener.inv_run [OF server_listener.inv_run [OF listener_inv_init assms(1)] assms(3)] .
  then have "\<forall>v \<in> set (sv_serves t). accepting (v_pc v) \<or> (\<exists>e. v_pc v = SvDone e) \<longrightarrow> v_listener v \<in> set (sv_listener_closes t)"
    using dn by (auto simp: listener_inv_def listener_ok_def)
  moreover have "v_pc (sv_serves u ! i) = SvDefer ErrServerClosed" if "server_step H E t (ServeRetry i r) = Some u" for i r u
    using that dn by (auto simp: serve_failed_def serve_at_Some split: option.splits serve_pc.splits)
  moreover have "v_pc (sv_serves u ! i) = SvDefer ErrServerClosed" if "server_step H E t (ServeStart i) = Some u" for i u
    using that dn by (auto simp: serve_at_Some Let_def split: if_splits)
  ultimately show ?thesis using le assms(2) unfolding server_le_def by blast
qed

theorem closed_server_witness:
  "\<exists>s t. run (server_step (serve_handshaker root_config) demo_env) server0 server_run2 = Some s \<and> sv_done s \<and>
     run (server_step (serve_handshaker root_config) demo_env) s server_run3 = Some t \<and>
     length (sv_conns t) = length (sv_conns s) \<and> sv_refused t = [root_conn]"
proof -
  obtain s t where r: "run (server_step (serve_handshaker root_config) demo_env) server0 server_run2 = Some s" "sv_done s"
    "run (server_step (serve_handshaker root_config) demo_env) s server_run3 = Some t" "sv_refused t = [root_conn]"
    using server_run2_result by (elim exE conjE) (rule that; assumption)
  from closed_server [OF r(1-3)] r show ?thesis by blast
qed

text \<open>
  C13: What a return of \<open>Shutdown\<close> means. When it returns other than by its context, and ever after,
  the server is closed, no connection is in its map, and every connection it ever made has been
  told to shut down or has left its main loop.
\<close>

theorem shutdown_returns_empty:
  assumes "run (server_step H E) server0 es = Some s" "down_at s d = Some (DnDone err)"
    and "run (server_step H E) s fs = Some t"
  shows "sv_done t \<and> sv_connections t = [] \<and> length (sv_conns t) = length (sv_conns s) \<and>
    (\<forall>c \<in> set (sv_conns t). c_shutdown c \<or> mpc c = MLeft \<or> mpc c = MExit)"
proof -
  have le: "server_le s t" by (rule server_mono.le_run [OF assms(3)])
  have "DnDone err \<in> set (sv_downs s)"
    using assms(2) nth_mem [of d "sv_downs s"] by (simp add: down_at_Some)
  then have "down_ok s (DnDone err)"
    using server_down.inv_run [OF down_inv_init assms(1)] by (simp add: down_inv_def)
  then have s: "sv_done s" "sv_connections s = []" by (simp_all add: down_ok_def)
  with le have t: "sv_done t" "sv_connections t = []" "length (sv_conns t) = length (sv_conns s)"
    by (simp_all add: server_le_def)
  have "table_inv t"
    using server_table.inv_run [OF server_table.inv_run [OF table_inv_init assms(1)] assms(3)] .
  with t(2) have "\<forall>c \<in> set (sv_conns t). conn_leaving c"
    by (simp add: table_inv_def all_set_conv_all_nth)
  with t show ?thesis by (simp add: conn_leaving_def)
qed

theorem shutdown_returns_empty_witness:
  "\<exists>t. run (server_step (serve_handshaker root_config) demo_env) server0 (server_run2 @ server_run3) = Some t \<and>
     down_at t 0 = Some (DnDone None) \<and> sv_connections t = [] \<and> length (sv_conns t) = 1"
proof -
  obtain s t where r: "run (server_step (serve_handshaker root_config) demo_env) server0 server_run2 = Some s"
    "run (server_step (serve_handshaker root_config) demo_env) s server_run3 = Some t"
    "down_at t 0 = Some (DnDone None)" "map c_done (sv_conns t) = [True]"
    using server_run2_result by (elim exE conjE) (rule that; assumption)
  have t: "run (server_step (serve_handshaker root_config) demo_env) server0 (server_run2 @ server_run3) = Some t"
    using r(1,2) by (simp add: run_append)
  have "run (server_step (serve_handshaker root_config) demo_env) t [] = Some t" by simp
  from shutdown_returns_empty [OF t r(3) this] t r(3) arg_cong [OF r(4), of length] show ?thesis by simp
qed

text \<open>
  C14: \<open>Shutdown\<close> ends when no connection is active: from the head of its loop its next two steps
  close every connection in the map and return the error of \<open>closeListeners\<close>; each of these
  connections, waiting in its \<open>select\<close> with nothing in progress, then leaves its main loop and
  returns in two more steps.
\<close>

theorem shutdown_completes:
  assumes "run (server_step H E) server0 es = Some s" "down_at s d = Some (DnClose err)"
    and "\<forall>o' \<in> set (sv_connections s). c_state (sv_conns s ! o') \<noteq> connStateActive"
  shows "\<exists>t. run (server_step H E) s [ShutdownClose d, ShutdownCount d] = Some t \<and> down_at t d = Some (DnDone err) \<and>
    (\<forall>o' \<in> set (sv_connections s). c_shutdown (sv_conns t ! o') \<and>
       (mpc (sv_conns s ! o') = MSelect True \<longrightarrow>
          (\<exists>u. run (server_step H E) t [ConnStep o' MShutdown, ConnStep o' MReturn] = Some u \<and>
             c_done (sv_conns u ! o') \<and> mpc (sv_conns u ! o') = MExit)))"
proof -
  have tab: "table_inv s" by (rule server_table.inv_run [OF table_inv_init assms(1)])
  have d: "d < length (sv_downs s)" using assms(2) by (simp add: down_at_Some)
  let ?u = "closeIdleConns s"
  let ?t = "set_down d (DnDone err) (set_down d (DnCount err) ?u)"
  have empty: "sv_connections ?u = []"
    using assms(3) by (simp add: closeIdleConns_def close_where_def filter_empty_conv)
  have "server_step H E s (ShutdownClose d) = Some (set_down d (DnCount err) ?u)" using assms(2) by simp
  moreover have "server_step H E (set_down d (DnCount err) ?u) (ShutdownCount d) = Some ?t"
  proof -
    have "down_at (set_down d (DnCount err) ?u) d = Some (DnCount err)" using d by (simp add: down_at_Some)
    moreover have "countConnection (set_down d (DnCount err) ?u) = 0" using empty by (simp add: countConnection_def set_down_def)
    ultimately show ?thesis by simp
  qed
  ultimately have "run (server_step H E) s [ShutdownClose d, ShutdownCount d] = Some ?t"
    by (simp only: run.simps option.case)
  moreover have "down_at ?t d = Some (DnDone err)" using d by (simp add: down_at_Some)
  moreover have "c_shutdown (sv_conns ?t ! o') \<and> (mpc (sv_conns s ! o') = MSelect True \<longrightarrow>
      (\<exists>u. run (server_step H E) ?t [ConnStep o' MShutdown, ConnStep o' MReturn] = Some u \<and>
         c_done (sv_conns u ! o') \<and> mpc (sv_conns u ! o') = MExit))" if o': "o' \<in> set (sv_connections s)" for o'
  proof -
    have len: "o' < length (sv_conns s)" using tab o' by (auto simp: table_inv_def)
    have c: "sv_conns ?t ! o' = conn_close (sv_conns s ! o')"
      using o' len assms(3) by (simp add: set_down_def closeIdleConns_def)
    have t: "length (sv_conns ?t) = length (sv_conns s)" "sv_connections ?t = []"
      using empty by (simp_all add: set_down_def closeIdleConns_def)
    have sh: "c_shutdown (conn_close (sv_conns s ! o'))" by (simp add: conn_close_def)
    have m: "mpc (conn_close (sv_conns s ! o')) = mpc (sv_conns s ! o')" by (simp add: conn_close_def)
    show ?thesis using len t c sh m by (auto simp: conn_may_def conn_exit_def conn_return_def)
  qed
  ultimately show ?thesis by blast
qed

theorem shutdown_completes_witness:
  "\<exists>s t. run (server_step (serve_handshaker root_config) demo_env) server0 server_run2 = Some s \<and>
     run (server_step (serve_handshaker root_config) demo_env) s [ShutdownClose 0, ShutdownCount 0] = Some t \<and>
     down_at t 0 = Some (DnDone None) \<and> c_shutdown (sv_conns t ! 0)"
proof -
  obtain s where r: "run (server_step (serve_handshaker root_config) demo_env) server0 server_run2 = Some s"
    "down_at s 0 = Some (DnClose None)" "\<forall>o' \<in> set (sv_connections s). c_state (sv_conns s ! o') \<noteq> connStateActive"
    "sv_connections s = [0]"
    using server_run2_result by (elim exE conjE) (rule that; assumption)
  from shutdown_completes [OF r(1-3)] r(1,4) show ?thesis by auto
qed

text \<open>
  C17: A server whose only option is the handshake with \<open>UnixSocketRequireRoot\<close> serves root only:
  whoever connects and whatever happens, every connection it ever serves came from a Unix socket
  whose peer has user and group 0.
\<close>

theorem root_server_serves_root:
  assumes "NewServer [WithServerHandshaker (Some (UnixCredentialsFunc_Handshake L UnixSocketRequireRoot))] = Inr (cfg, sset)"
    and "run (server_step (serve_handshaker cfg) E) server0 es = Some s" "o' < length (sv_conns s)"
  shows "conn_is_unix (sv_net s ! o') \<and>
    (\<exists>ucred. conn_ucred (sv_net s ! o') = Inr ucred \<and> Uid ucred = 0 \<and> Gid ucred = 0)"
proof -
  have cfg: "serve_handshaker cfg = UnixCredentialsFunc_Handshake L UnixSocketRequireRoot"
    using assms(1)
    by (auto simp: NewServer_def NewServer_config_def WithServerHandshaker_def emptyConfig_def serve_handshaker_def
        split: option.splits)
  have "table_inv s" by (rule server_table.inv_run [OF table_inv_init assms(2)])
  then have len: "o' < length (sv_net s)" using assms(3) by (simp add: table_inv_def)
  have "approved_inv (serve_handshaker cfg) s" by (rule server_approved.inv_run [OF approved_inv_init assms(2)])
  then have "approved (serve_handshaker cfg) (sv_net s ! o')" using len by (simp add: approved_inv_def)
  then show ?thesis
    by (auto simp: approved_def approved_as_def cfg handshake_Inr_iff UnixSocketRequireRoot_def UnixSocketRequireUidGid_def requireUidGid_None_iff)
qed

theorem root_server_serves_root_witness:
  "\<exists>s. run (server_step (serve_handshaker root_config) demo_env) server0 server_run2 = Some s \<and>
     0 < length (sv_conns s) \<and> conn_is_unix (sv_net s ! 0)"
proof -
  have n: "NewServer [WithServerHandshaker (Some (UnixCredentialsFunc_Handshake example_status_lib UnixSocketRequireRoot))] =
      Inr (root_config, newServiceSet defaultServerInterceptor)"
    by (simp add: NewServer_def NewServer_config_def WithServerHandshaker_def emptyConfig_def root_config_def)
  obtain s where r: "run (server_step (serve_handshaker root_config) demo_env) server0 server_run2 = Some s"
    "length (sv_conns s) = 1"
    using server_run2_result by (elim exE conjE) (rule that; assumption)
  have len: "0 < length (sv_conns s)" by (simp add: r(2))
  from root_server_serves_root [OF n r(1) len] r(1) len show ?thesis by blast
qed

text \<open>
  The server is made of its connections: each one it ever made, however the goroutines of the
  server and of the other connections interleave with it, is in a state that the steps of a
  single connection reach from the initial one. So everything proved of a connection holds of
  each; for instance the ids of the requests it took are odd and increase.
\<close>

theorem server_connections_refine:
  assumes "run (server_step H E) server0 es = Some s" "c \<in> set (sv_conns s)"
  shows "(\<exists>cs. run (conn_step E) conn0 cs = Some c) \<and>
    sorted_wrt (<) (requests c) \<and> (\<forall>i \<in> set (requests c). i mod 2 = 1)"
proof -
  obtain cs where cs: "run (conn_step E) conn0 cs = Some c"
    using server_conns.inv_run [OF conns_run_init assms(1)] assms(2) by (auto simp: conns_run_def)
  have "ids_inv c" by (rule conn_ids.inv_run [OF ids_inv_init cs])
  with cs show ?thesis by (auto simp: ids_inv_def)
qed

theorem server_connections_refine_witness:
  "\<exists>s cs. run (server_step (serve_handshaker root_config) demo_env) server0 server_run2 = Some s \<and>
     run (conn_step demo_env) conn0 cs = Some (sv_conns s ! 0)"
proof -
  obtain s where r: "run (server_step (serve_handshaker root_config) demo_env) server0 server_run2 = Some s"
    "length (sv_conns s) = 1"
    using server_run2_result by (elim exE conjE) (rule that; assumption)
  have "sv_conns s ! 0 \<in> set (sv_conns s)" by (rule nth_mem) (simp add: r(2))
  from server_connections_refine [OF r(1) this] r(1) show ?thesis by blast
qed

text \<open>
  A call that starts while the main loop waits is not seen by a graceful shutdown: the loop set the
  state of the connection and chose its branches before the call started. \<open>Shutdown\<close> takes the
  connection for idle, closes it and returns nil, while the call is running and counted.
\<close>

definition race_run :: "server_event list" where
  "race_run = [ServeCall 5, ServeStart 0, Accepted 0 (Inl root_conn), Handshaken 0, ServeNew 0, ConnStep 0 MGuard] @
     map (ConnStep 0) (take_call 1 [0]) @
     [ShutdownCall, ShutdownStart 0 (\<lambda>_. None) [5], ShutdownClose 0, ShutdownCount 0, ConnStep 0 MShutdown, ConnStep 0 MReturn]"

theorem shutdown_drops_running_call:
  "\<exists>s. run (server_step (serve_handshaker root_config) demo_env) server0 race_run = Some s \<and>
     down_at s 0 = Some (DnDone None) \<and>
     (\<exists>c w. sv_conns s = [c] \<and> c_done c \<and> active c = 1 \<and> workers c = [w] \<and> w_pc w = WRun)"
  by (simp add: race_run_def server_eval conn_eval)

end
