(* ===== verification/EndToEnd.thy ===== *)
theory EndToEnd
  imports ClientRuns ServerRuns
begin

text \<open>
  Client and server together: a unary call from the client's \<open>Call\<close> to the method and back, the
  ids of the client's requests at the server, and what the context of a call becomes. The frames are
  taken as arrived; that the connection delivers them is shown in theories \<open>LinkRuns\<close> and \<open>LinkCalls\<close>.
\<close>

section \<open>A unary call from end to end\<close>

text \<open>
  What stands between the client's interceptor and its response when the frames arrive: the
  request is encoded (\<open>dispatch\<close>), decoded and handled by the server, the response is framed by the
  main loop and taken by \<open>dispatch\<close>. \<open>i\<close> is the stream.
\<close>

definition answer_frame :: "'m proto_lib \<Rightarrow> response \<Rightarrow> Response \<Rightarrow> go_error option \<times> Response" where
  "answer_frame P r resp =
     (case response_frame P r of
        Inl e \<Rightarrow> (Some e, resp)
      | Inr (i, t, fl, p) \<Rightarrow>
          dispatch_message P
            \<lparr>header = \<lparr>Length = of_nat (length (bytes_of p)), StreamID = i, Type = t, Flags = fl\<rparr>, payload = p\<rparr> resp)"

text \<open>
  \<open>call\<close> is the goroutine of the call, which may crash the server. For a stream method the caller
  waits for more than this exchange.
\<close>

definition wire_call ::
    "status_lib \<Rightarrow> 'm proto_lib \<Rightarrow>
     ('c go_context \<Rightarrow> 'f \<Rightarrow> UnaryServerInfo \<Rightarrow> bytes \<Rightarrow> (bytes \<times> status option) outcome) \<Rightarrow> nat \<Rightarrow> heap \<Rightarrow>
     (('f, 'g Stream) ServiceDesc, 'i, 'j) serviceSet \<Rightarrow> 'c go_context \<Rightarrow> u32 \<Rightarrow>
     Request \<Rightarrow> Response \<Rightarrow> (go_error option \<times> Response) outcome" where
  "wire_call L P call extra h S ctx i req resp =
     (case mRequest P req of
        Inl e \<Rightarrow> Ok (Some e, resp)
      | Inr b \<Rightarrow>
          (case uRequest P b of
             Inl e \<Rightarrow>
               Ok (answer_frame P
                 (status_response i (Some (Status CodeInvalidArgument (''unmarshal request error: '' @ error_text L e)))) resp)
           | Inr r \<Rightarrow>
               (case handle extra h S ctx r None DataSend of
                  Ok (h', UnaryWork ctx' fin m info dat, Inr None) \<Rightarrow>
                    map_outcome (\<lambda>(p, st).
                        answer_frame P (final_response \<lparr>w_id = i, w_handler = None, w_streaming = False, w_pc = WRun\<rparr> st p) resp)
                      (call ctx' m info dat)
                | Ok (h', w, Inl e) \<Rightarrow> Ok (answer_frame P (status_response i (fst (FromError L (Some e)))) resp)
                | Panic \<Rightarrow> Panic
                | _ \<Rightarrow> Blocks)))"

definition over_the_wire ::
    "status_lib \<Rightarrow> 'm proto_lib \<Rightarrow> ('c go_context, 'm Unmarshaler, 'm reply) UnaryServerInterceptor \<Rightarrow> nat \<Rightarrow> heap \<Rightarrow>
     ((('c go_context, 'm) MethodFn, 'g Stream) ServiceDesc, 'i, 'j) serviceSet \<Rightarrow> 'c go_context \<Rightarrow> u32 \<Rightarrow>
     Request \<Rightarrow> Response \<Rightarrow> go_error option \<times> Response" where
  "over_the_wire L P icpt extra h S ctx i req resp =
     (case wire_call L P (\<lambda>c m info dat. Ok (unaryCall L P icpt c m info dat)) extra h S ctx i req resp of
        Ok r \<Rightarrow> r
      | _ \<Rightarrow> (None, resp))"

lemma msg_payload_whole:
  assumes "length (bytes_of p) \<le> messageLengthMax"
  shows "msg_payload \<lparr>header = \<lparr>Length = of_nat (length (bytes_of p)), StreamID = i, Type = t, Flags = fl\<rparr>, payload = p\<rparr> = p"
proof (cases p)
  case (Some bs)
  have "length bs < 2 ^ 32" using assms Some by (simp add: messageLengthMax_def)
  then have "unat (of_nat (length bs) :: u32) = length bs" by (simp add: unat_of_nat)
  with Some show ?thesis by (simp add: msg_payload_def)
qed (simp add: msg_payload_def)

text \<open>The response of a call, or of \<open>sendStatus\<close>, as the client gets it.\<close>

lemma answer_frame_response:
  assumes "proto_ok P" "mResponse P \<lparr>rs_status = resp_status r, rs_payload = resp_data r\<rparr> = Inr p"
    and "length (bytes_of p) \<le> messageLengthMax" "\<not> streaming r \<or> status_code (resp_status r) \<noteq> CodeOK"
  shows "answer_frame P r resp = (None, \<lparr>rs_status = resp_status r, rs_payload = norm_bytes (resp_data r)\<rparr>)"
proof -
  have "response_frame P r = Inr (resp_id r, messageTypeResponse, 0, p)"
    using assms(2,4) by (auto simp: response_frame_def)
  moreover have "uResponse P p = Inr \<lparr>rs_status = resp_status r, rs_payload = norm_bytes (resp_data r)\<rparr>"
    using proto_response [OF assms(1,2)] by simp
  ultimately show ?thesis
    by (simp add: answer_frame_def dispatch_message_def msg_payload_whole [OF assms(3)])
qed

lemma wire_call_unary:
  assumes "proto_ok P" "mRequest P req = Inr rb"
    and "services S (Service req) = Some srv" "Methods srv (req_Method req) = Some m"
    and "getRequestContext extra h ctx (req\<lparr>Payload := norm_bytes (Payload req)\<rparr>) = (h', ctx', fin)"
    and "call ctx' m \<lparr>us_FullMethod = fullPath (Service req) (req_Method req)\<rparr> (norm_bytes (Payload req)) = Ok (p, st)"
    and "mResponse P \<lparr>rs_status = st, rs_payload = p\<rparr> = Inr fb" "length (bytes_of fb) \<le> messageLengthMax"
  shows "wire_call L P call extra h S ctx i req resp = Ok (None, \<lparr>rs_status = st, rs_payload = norm_bytes p\<rparr>)"
proof -
  let ?r = "final_response \<lparr>w_id = i, w_handler = None, w_streaming = False, w_pc = WRun\<rparr> st p"
  have "answer_frame P ?r resp = (None, \<lparr>rs_status = st, rs_payload = norm_bytes p\<rparr>)"
    using answer_frame_response [OF assms(1) _ assms(8), of ?r resp] assms(7) by (simp add: final_response_def)
  then show ?thesis
    using assms(2-6) proto_request [OF assms(1,2)] by (simp add: wire_call_def handle_def)
qed

lemma over_the_wire_call:
  assumes "proto_ok P" "mRequest P req = Inr rb"
    and "services S (Service req) = Some srv" "Methods srv (req_Method req) = Some m"
    and "getRequestContext extra h ctx (req\<lparr>Payload := norm_bytes (Payload req)\<rparr>) = (h', ctx', fin)"
    and "unaryCall L P icpt ctx' m \<lparr>us_FullMethod = fullPath (Service req) (req_Method req)\<rparr> (norm_bytes (Payload req)) = (p, st)"
    and "mResponse P \<lparr>rs_status = st, rs_payload = p\<rparr> = Inr fb" "length (bytes_of fb) \<le> messageLengthMax"
  shows "over_the_wire L P icpt extra h S ctx i req resp = (None, \<lparr>rs_status = st, rs_payload = norm_bytes p\<rparr>)"
  using wire_call_unary [OF assms(1-5) _ assms(7,8), where call = "\<lambda>c m info dat. Ok (unaryCall L P icpt c m info dat)"]
    assms(6) by (simp add: over_the_wire_def)

section \<open>Properties\<close>

text \<open>
  C3: A unary call is the method. If the frames of a call arrive, the generated or hand-written
  client that calls a method of a registered service gets what the server's method makes of the
  payload: \<open>Call\<close> decodes the reply \<open>unaryCall\<close> encoded into the caller's response, and returns nil
  when the method succeeded, and else exactly the code and message of the status that
  \<open>unaryCall\<close> computed from the method's error. The interceptors of both sides see the same full
  method name. (The payload loses only the difference between empty and nil.)
\<close>

theorem unary_call_end_to_end:
  assumes "proto_ok P" "codec_Marshal P req = Inr b"
    and "r = Call_request ks h0 cctx deadline service meth b" "mRequest P r = Inr rb"
    and "services S service = Some srv" "Methods srv meth = Some m"
    and "getRequestContext extra h ctx (r\<lparr>Payload := norm_bytes b\<rparr>) = (h', ctx', fin)"
    and "unaryCall L P icpt ctx' m \<lparr>us_FullMethod = fullPath service meth\<rparr> (norm_bytes b) = (p, st)"
    and "mResponse P \<lparr>rs_status = st, rs_payload = p\<rparr> = Inr fb" "length (bytes_of fb) \<le> messageLengthMax"
    and "codec_Unmarshal P (norm_bytes p) resp = (None, resp')"
  shows "Call P defaultClientInterceptor (\<lambda>c q a. over_the_wire L P icpt extra h S ctx i q a)
       ks h0 cctx deadline service meth req resp =
     ((if status_code st = CodeOK then None else map_option (\<lambda>x. StatusErr (Code x) (Message x)) st), resp')"
proof -
  have r: "Service r = service" "req_Method r = meth" "Payload r = b" by (simp_all add: assms(3) Call_request_def)
  have "over_the_wire L P icpt extra h S ctx i r empty_response = (None, \<lparr>rs_status = st, rs_payload = norm_bytes p\<rparr>)"
    using assms(5-8) by (intro over_the_wire_call [OF assms(1,4) _ _ _ _ assms(9,10)]) (simp_all add: r)
  moreover have "response_failed \<lparr>rs_status = st, rs_payload = norm_bytes p\<rparr> =
      (if status_code st = CodeOK then None else map_option (\<lambda>x. StatusErr (Code x) (Message x)) st)"
    by (cases st) (auto simp: response_failed_def ErrorProto_def)
  ultimately show ?thesis
    using assms(2,11) by (simp add: Call_def Call_result_def defaultClientInterceptor_def assms(3) [symmetric])
qed

text \<open>A library that writes lengths and bytes, and a method that answers with a status.\<close>

definition wire_proto :: "string proto_lib" where
  "wire_proto = example_proto
     \<lparr>mRequest := (\<lambda>r. if r = \<lparr>Service = ''s'', req_Method = ''m'', Payload = Some [65], TimeoutNano = 0, req_Metadata = []\<rparr>
        then Inr (Some [1]) else Inl (ErrString ''too much'')),
      uRequest := (\<lambda>p. Inr \<lparr>Service = ''s'', req_Method = ''m'', Payload = Some [65], TimeoutNano = 0, req_Metadata = []\<rparr>),
      mResponse := (\<lambda>r. if r = \<lparr>rs_status = Some (Status CodeNotFound ''no''), rs_payload = None\<rparr>
        then Inr (Some [2]) else Inl (ErrString ''too much'')),
      uResponse := (\<lambda>p. Inr \<lparr>rs_status = Some (Status CodeNotFound ''no''), rs_payload = None\<rparr>)\<rparr>"

lemma wire_proto_ok: "proto_ok wire_proto"
  by (simp add: proto_ok_def wire_proto_def)

definition wire_services ::
    "((unit go_context \<Rightarrow> string Unmarshaler \<Rightarrow> string reply, nat Stream) ServiceDesc, unit, unit) serviceSet" where
  "wire_services =
     \<lparr>services = [''s'' \<mapsto> \<lparr>Methods = [''m'' \<mapsto> (\<lambda>c u. (NilAny, Some (StatusErr CodeNotFound ''no'')))], Streams = Map.empty\<rparr>],
      unaryInterceptor = (), streamInterceptor = ()\<rparr>"

theorem unary_call_end_to_end_witness:
  "fst (Call wire_proto defaultClientInterceptor
      (\<lambda>c q a. over_the_wire example_status_lib wire_proto defaultServerInterceptor 0 [] wire_services \<lparr>md_value = None, ctx_rest = ()\<rparr> 1 q a)
      [] [] \<lparr>md_value = None, ctx_rest = ()\<rparr> None ''s'' ''m'' (ProtoMsg ''T'' (Some ''A'')) (ProtoMsg ''T'' None)) =
   Some (StatusErr CodeNotFound ''no'')"
proof -
  let ?ctx = "\<lparr>md_value = None, ctx_rest = ()\<rparr> :: unit go_context"
  let ?r = "Call_request [] [] ?ctx None ''s'' ''m'' (Some [65])"
  let ?m = "(\<lambda>c u. (NilAny, Some (StatusErr CodeNotFound ''no''))) :: (unit go_context, string) MethodFn"
  have r: "?r = \<lparr>Service = ''s'', req_Method = ''m'', Payload = Some [65], TimeoutNano = 0, req_Metadata = []\<rparr>"
    by (simp add: Call_request_def GetMetadata_def)
  have b: "codec_Marshal wire_proto (ProtoMsg ''T'' (Some ''A'')) = Inr (Some [65])"
    by (simp add: codec_Marshal_def wire_proto_def example_proto_def)
  have q: "mRequest wire_proto ?r = Inr (Some [1])" unfolding r by (simp add: wire_proto_def)
  have s: "services wire_services ''s'' = Some \<lparr>Methods = [''m'' \<mapsto> ?m], Streams = Map.empty\<rparr>"
    "Methods \<lparr>Methods = [''m'' \<mapsto> ?m], Streams = Map.empty\<rparr> ''m'' = Some ?m"
    by (simp_all add: wire_services_def)
  have g: "getRequestContext 0 [] ?ctx (?r\<lparr>Payload := norm_bytes (Some [65])\<rparr>) = ([], ?ctx, CtxWithCancel)"
    unfolding r by (simp add: getRequestContext_def)
  have u: "unaryCall example_status_lib wire_proto defaultServerInterceptor ?ctx ?m
      \<lparr>us_FullMethod = fullPath ''s'' ''m''\<rparr> (norm_bytes (Some [65])) = (None, Some (Status CodeNotFound ''no''))"
    using error_status_StatusErr [OF example_status_lib_ok, of CodeNotFound "''no''"]
    by (simp add: unaryCall_def unaryCall_reply_def defaultServerInterceptor_def)
  have p: "mResponse wire_proto \<lparr>rs_status = Some (Status CodeNotFound ''no''), rs_payload = None\<rparr> = Inr (Some [2])"
    by (simp add: wire_proto_def)
  have d: "codec_Unmarshal wire_proto (norm_bytes None) (ProtoMsg ''T'' None) = (None, ProtoMsg ''T'' (Some ''''))"
    by (simp add: codec_Unmarshal_def wire_proto_def example_proto_def)
  have l: "length (bytes_of (Some [2])) \<le> messageLengthMax" by (simp add: messageLengthMax_def)
  show ?thesis
    unfolding unary_call_end_to_end [OF wire_proto_ok b refl q s g u p l d] by simp
qed

text \<open>A request with a new id that decodes is recorded with its id.\<close>

lemma start_work_ids:
  "start_work i w sh s = (s', x) \<Longrightarrow> requests s' = requests s \<and> lastStreamID s' = lastStreamID s"
  by (auto simp: start_work_def split: work.splits)

lemma taken_request:
  assumes "recv_request E mh p ctx_err pick c = Some t" "(StreamID mh \<le> lastStreamID c) = False"
    and "uRequest (e_proto E) p = Inr req"
  shows "requests t = requests c @ [StreamID mh] \<and> lastStreamID t = StreamID mh"
  using assms(1) unfolding recv_request_def assms(2,3) Let_def
  by (auto dest: start_work_ids split: outcome.splits prod.splits sum.splits)

text \<open>
  The ids of the client pass the server. In every run of the client with at most \<open>2 ^ 31\<close>
  streams, the requests it wrote, delivered in order, are never refused for their ids: whatever
  the connection did before, if \<open>lastStreamID\<close> is the id of the request before (or zero), the next
  one is taken and becomes \<open>lastStreamID\<close>, provided its bytes decode.
\<close>

theorem client_requests_accepted:
  assumes "run (client_step L) client0 es = Some s" "length (cl_objs s) \<le> 2 ^ 31"
    and "filter (\<lambda>f. fst (snd f) = messageTypeRequest) (cl_sent s) = pre @ f # post"
    and "rpc c = RRecv" "lastStreamID c = (if pre = [] then 0 else fst (last pre))"
    and "StreamID mh = fst f" "Type mh = messageTypeRequest" "uRequest (e_proto E) p = Inr req"
    and "conn_step E c (RMessage mh p None ctx_err pick) = Some t"
  shows "requests t = requests c @ [fst f] \<and> lastStreamID t = fst f"
proof -
  let ?reqs = "filter (\<lambda>f. fst (snd f) = messageTypeRequest) (cl_sent s)"
  have ids: "sorted_wrt (<) (map (\<lambda>f. unat (fst f)) ?reqs)" "\<forall>f \<in> set ?reqs. odd (unat (fst f))"
    using request_ids_sorted [OF client_req.inv_run [OF req_inv_init assms(1)] assms(2)] by blast+
  have odd: "fst f mod 2 = 1"
  proof -
    have "odd (unat (fst f))" using ids(2) unfolding assms(3) by simp
    then have "unat (fst f mod 2) = unat (1 :: u32)" by (simp add: unat_mod odd_iff_mod_2_eq_one)
    then show ?thesis by (rule unsigned_word_eqI)
  qed
  have less: "lastStreamID c < fst f"
  proof (cases "pre = []")
    case True
    have "fst f \<noteq> 0" using odd by auto
    with True assms(5) show ?thesis by (simp add: word_greater_zero_iff)
  next
    case False
    then have "last pre \<in> set pre" by simp
    then have "unat (fst (last pre)) < unat (fst f)"
      using ids(1) unfolding assms(3) by (simp add: sorted_wrt_append)
    with False assms(5) show ?thesis by (simp add: word_less_nat_alt)
  qed
  have "recv_request E mh p ctx_err pick c = Some t"
    using assms(4,6,7,9) odd by (simp add: recv_body_def messageTypeRequest_def messageTypeData_def)
  moreover have "(StreamID mh \<le> lastStreamID c) = False" using less assms(6) by simp
  ultimately show ?thesis
    using taken_request [of E mh p ctx_err pick c t req] assms(6,8) by simp
qed

theorem client_requests_accepted_witness:
  "\<exists>s f t. run (client_step example_status_lib) client0 client_run1 = Some s \<and> f \<in> set (cl_sent s) \<and>
     conn_step demo_env (conn0\<lparr>rpc := RRecv, lastStreamID := 1\<rparr>)
       (RMessage (hdr (fst f) messageTypeRequest 0) (Some [0]) None None DataSend) = Some t \<and> requests t = [fst f]"
proof -
  let ?c = "conn0\<lparr>rpc := RRecv, lastStreamID := 1\<rparr>"
  let ?f = "(3, messageTypeRequest, 0, None) :: u32 \<times> byte \<times> byte \<times> bytes" and ?f1 = "(1, messageTypeRequest, flagRemoteOpen, None)"
  obtain s where s: "run (client_step example_status_lib) client0 client_run1 = Some s" "length (cl_objs s) = 2"
    "cl_sent s = [?f1, ?f]"
    using client_run1_result by (elim exE conjE) (rule that; assumption)
  obtain t where t: "conn_step demo_env ?c (RMessage (hdr (fst ?f) messageTypeRequest 0) (Some [0]) None None DataSend) = Some t"
    by (simp add: conn_eval word_le_nat_alt)
  have len: "length (cl_objs s) \<le> 2 ^ 31" by (simp add: s(2))
  have reqs: "filter (\<lambda>f. fst (snd f) = messageTypeRequest) (cl_sent s) = [?f1] @ ?f # []" by (simp add: s(3))
  have c: "rpc ?c = RRecv" "lastStreamID ?c = (if [?f1] = [] then 0 else fst (last [?f1]))" by simp_all
  have m: "StreamID (hdr (fst ?f) messageTypeRequest 0) = fst ?f" "Type (hdr (fst ?f) messageTypeRequest 0) = messageTypeRequest"
    by (simp_all add: hdr_def)
  have "\<exists>req. uRequest (e_proto demo_env) (Some [0]) = Inr req" by (simp add: demo_env_def demo_proto_def)
  then obtain req where q: "uRequest (e_proto demo_env) (Some [0]) = Inr req" ..
  from client_requests_accepted [OF s(1) len reqs c m q t] have "requests t = [fst ?f]" by (simp add: conn0_def)
  moreover have "?f \<in> set (cl_sent s)" by (simp add: s(3))
  ultimately show ?thesis using s(1) t by blast
qed

section \<open>The context of a call\<close>

text \<open>The request context of a request with metadata, and of one without.\<close>

lemma getRequestContext_cases:
  assumes "getRequestContext extra h ctx req = (h', ctx', fin)"
  shows "fin = (if TimeoutNano req = 0 then CtxWithCancel else CtxWithTimeout (TimeoutNano req)) \<and>
    (if req_Metadata req = [] then ctx' = ctx \<and> h' = h
     else \<exists>f. md_fromRequest extra (req_Metadata req) h Map.empty = (h', f) \<and> ctx' = WithMetadata ctx (Some f))"
  using assms by (auto simp: getRequestContext_def split: if_splits prod.splits)

text \<open>
  C25: A method sees the metadata and the deadline of its caller. The context a unary method is
  called with has, for a caller with metadata, under every key the caller's values in order (keys
  without values are lost), and a caller without values leaves the server's context as it is; it
  ends after the time that was left to the caller, except that a caller whose time left is exactly
  zero gives the method no deadline at all. What \<open>NewStream\<close> sends carries neither: it has no
  context, so that the method runs in the server's.
\<close>

theorem context_reaches_method:
  assumes "md_value cctx = Some (Some f)" "distinct ks" "set ks = dom f"
    and "getRequestContext extra h0 ctx ((Call_request ks h cctx deadline service meth b)\<lparr>Payload := q\<rparr>) = (h1, ctx', fin)"
    and "proto_ok P"
  shows "(if \<exists>k v vs. md_abs h f k = Some (v # vs)
          then \<exists>f1. ctx' = WithMetadata ctx (Some f1) \<and> (\<forall>k. md_abs h1 f1 k = (if md_abs h f k = Some [] then None else md_abs h f k))
          else ctx' = ctx) \<and>
    fin = (case deadline of Some d \<Rightarrow> if d = 0 then CtxWithCancel else CtxWithTimeout d | None \<Rightarrow> CtxWithCancel) \<and>
    (NewStream_request P desc service meth req = Inr (flags, body) \<longrightarrow>
       (\<exists>sreq. uRequest P body = Inr sreq \<and> getRequestContext extra h0 ctx sreq = (h0, ctx, CtxWithCancel)))"
proof -
  let ?kvs = "md_setRequest ks h f []"
  let ?r = "(Call_request ks h cctx deadline service meth b)\<lparr>Payload := q\<rparr>"
  have r: "req_Metadata ?r = ?kvs" "TimeoutNano ?r = (case deadline of Some d \<Rightarrow> d | None \<Rightarrow> 0)"
    using assms(1) by (simp_all add: Call_request_def GetMetadata_def)
  note G = getRequestContext_cases [OF assms(4)]
  have empty: "?kvs = [] \<longleftrightarrow> \<not> (\<exists>k v vs. md_abs h f k = Some (v # vs))"
  proof -
    have "?kvs = [] \<longleftrightarrow> (\<forall>k \<in> set ks. vals_at (md_abs h f) k = [])"
      by (simp add: md_setRequest_concat key_values_def)
    also have "\<dots> \<longleftrightarrow> (\<forall>k. vals_at (md_abs h f) k = [])"
      using assms(3) by (auto simp: vals_at_def md_abs_def dom_def split: option.splits)
    also have "\<dots> \<longleftrightarrow> \<not> (\<exists>k v vs. md_abs h f k = Some (v # vs))"
      by (auto simp: vals_at_def split: option.splits) (metis neq_Nil_conv)
    finally show ?thesis .
  qed
  have "fin = (case deadline of Some d \<Rightarrow> if d = 0 then CtxWithCancel else CtxWithTimeout d | None \<Rightarrow> CtxWithCancel)"
    using G r(2) by (auto split: option.splits)
  moreover have "NewStream_request P desc service meth req = Inr (flags, body) \<longrightarrow>
      (\<exists>sreq. uRequest P body = Inr sreq \<and> getRequestContext extra h0 ctx sreq = (h0, ctx, CtxWithCancel))"
    by (auto simp: NewStream_request_def getRequestContext_def proto_request [OF assms(5)] split: sum.splits if_splits)
  moreover have "if \<exists>k v vs. md_abs h f k = Some (v # vs)
      then \<exists>f1. ctx' = WithMetadata ctx (Some f1) \<and> (\<forall>k. md_abs h1 f1 k = (if md_abs h f k = Some [] then None else md_abs h f k))
      else ctx' = ctx"
  proof (cases "?kvs = []")
    case True
    with G r(1) have "ctx' = ctx" by simp
    with True empty show ?thesis by simp
  next
    case False
    with G r(1) obtain f1 where f1: "md_fromRequest extra ?kvs h0 Map.empty = (h1, f1)" "ctx' = WithMetadata ctx (Some f1)"
      by auto
    from md_request_roundtrip [OF assms(2,3) f1(1)] f1(2) False empty show ?thesis by auto
  qed
  ultimately show ?thesis by blast
qed

theorem context_reaches_method_witness:
  "\<exists>h1 f1. getRequestContext 0 [] \<lparr>md_value = None, ctx_rest = ()\<rparr>
     (Call_request [''y'', ''x''] shared_heap \<lparr>md_value = Some (Some example_md), ctx_rest = ()\<rparr> (Some 5) ''s'' ''m'' None)
     = (h1, WithMetadata \<lparr>md_value = None, ctx_rest = ()\<rparr> (Some f1), CtxWithTimeout 5) \<and> md_abs h1 f1 ''x'' = Some [''a'']"
proof -
  let ?c = "\<lparr>md_value = None, ctx_rest = ()\<rparr>" and ?cc = "\<lparr>md_value = Some (Some example_md), ctx_rest = ()\<rparr>"
  let ?r = "Call_request [''y'', ''x''] shared_heap ?cc (Some 5) ''s'' ''m'' None"
  obtain h1 ctx' fin where g: "getRequestContext 0 [] ?c (?r\<lparr>Payload := None\<rparr>) = (h1, ctx', fin)"
    by (cases "getRequestContext 0 [] ?c (?r\<lparr>Payload := None\<rparr>)")
  have d: "set [''y'', ''x''] = dom example_md" by (auto simp: example_md_def split: if_splits)
  have v: "md_abs shared_heap example_md ''x'' = Some [''a'']" by (simp add: md_abs_def example_md_def shared_heap_def read_slice_def)
  have "md_value ?cc = Some (Some example_md)" by simp
  note T = context_reaches_method [OF this _ d g wire_proto_ok]
  have ex: "\<exists>k v vs. md_abs shared_heap example_md k = Some (v # vs)" using v by blast
  from T [THEN conjunct1] T [THEN conjunct2, THEN conjunct1] ex obtain f1 where f1: "ctx' = WithMetadata ?c (Some f1)" "fin = CtxWithTimeout 5"
    "\<forall>k. md_abs h1 f1 k = (if md_abs shared_heap example_md k = Some [] then None else md_abs shared_heap example_md k)"
    by auto
  have "md_abs h1 f1 ''x'' = Some [''a'']" using f1(3) v by simp
  moreover have "?r\<lparr>Payload := None\<rparr> = ?r" by (simp add: Call_request_def)
  ultimately show ?thesis using g f1 by auto
qed

end
