(* ===== verification/Pipe.thy ===== *)
theory Pipe
  imports Channel
begin

text \<open>
  One direction of a connection: what one end's channel has written and how far the other end's
  channel has read (\<open>src/channel.go\<close>). \<open>pipe_ok\<close> relates its bytes to the messages sent and
  received; the laws of the locale \<open>transport\<close>, which client and server rely on, follow from the
  framing.
\<close>

section \<open>The interface\<close>

text \<open>
  What the two ends of a connection rely on: with \<open>ok ins outs q\<close> that \<open>ins\<close> were sent and \<open>outs\<close>
  received, a send that succeeds adds its message, one that fails adds none, and what is received
  is the next message that was sent.
\<close>

locale transport =
  fixes ok :: "'m list \<Rightarrow> 'm list \<Rightarrow> 'q \<Rightarrow> bool" and put :: "'m \<Rightarrow> 'q \<Rightarrow> 'e option \<times> 'q"
    and get :: "'w \<Rightarrow> 'q \<Rightarrow> 'm option \<times> 'q"
  assumes put_done: "ok ins outs q \<Longrightarrow> put m q = (None, q') \<Longrightarrow> ok (ins @ [m]) outs q'"
    and put_failed: "ok ins outs q \<Longrightarrow> put m q = (Some e, q') \<Longrightarrow> ok ins outs q'"
    and get_next: "ok ins outs q \<Longrightarrow> get w q = (Some m, q') \<Longrightarrow> ok ins (outs @ [m]) q'"
    and ok_prefix: "ok ins outs q \<Longrightarrow> prefix outs ins"
begin

lemma ok_subset: "ok ins outs q \<Longrightarrow> set outs \<subseteq> set ins"
  by (drule ok_prefix) (rule set_mono_prefix)

lemma get_sent: "ok ins outs q \<Longrightarrow> get w q = (Some m, q') \<Longrightarrow> m \<in> set ins"
  using ok_subset [OF get_next, of ins outs q w m q'] by simp

lemma get_order:
  assumes "ok ins outs q" "get w q = (Some m, q')"
  shows "ins ! length outs = m \<and> length outs < length ins"
  using ok_prefix [OF get_next [OF assms]] by (auto simp: prefix_def nth_append)

end

section \<open>Pipes\<close>

record pipe =
  p_out :: writer
  p_read :: nat

definition pipe_send :: "u32 \<Rightarrow> byte \<Rightarrow> byte \<Rightarrow> bytes \<Rightarrow> pipe \<Rightarrow> go_error option \<times> pipe" where
  "pipe_send streamID t flags p q =
     (case send streamID t flags p (p_out q) of (e, w) \<Rightarrow> (e, q\<lparr>p_out := w\<rparr>))"

text \<open>\<open>e\<close> is the error with which the connection fails if what has arrived is not enough.\<close>

definition pipe_recv :: "status_lib \<Rightarrow> go_error \<Rightarrow> pipe \<Rightarrow> (messageHeader \<times> bytes \<times> go_error option) \<times> pipe" where
  "pipe_recv L e q =
     (case recv L \<lparr>rbytes = drop (p_read q) (sent (p_out q)), rerr = e\<rparr> of
        (r, r') \<Rightarrow> (r, q\<lparr>p_read := length (sent (p_out q)) - length (rbytes r')\<rparr>))"

definition wire_bytes :: "message list \<Rightarrow> byte list" where
  "wire_bytes ms = concat (map frame_of ms)"

lemma wire_bytes_simps [simp]:
  "wire_bytes [] = []" "wire_bytes (m # ms) = frame_of m @ wire_bytes ms" "wire_bytes (ms @ ns) = wire_bytes ms @ wire_bytes ns"
  by (simp_all add: wire_bytes_def)

text \<open>The writer has put the frames of \<open>ms\<close> on the wire, and after a failure a part of one more.\<close>

definition out_ok :: "message list \<Rightarrow> writer \<Rightarrow> bool" where
  "out_ok ms w \<longleftrightarrow> (\<forall>m \<in> set ms. valid_message m) \<and>
     ((writer_clean w \<and> sent w = wire_bytes ms) \<or>
      (werr w \<noteq> None \<and> (\<exists>torn m. valid_message m \<and> strict_prefix torn (frame_of m) \<and> sent w = wire_bytes ms @ torn)))"

definition pipe_ok :: "message list \<Rightarrow> message list \<Rightarrow> pipe \<Rightarrow> bool" where
  "pipe_ok ms got q \<longleftrightarrow> out_ok ms (p_out q) \<and> prefix got ms \<and> p_read q = length (wire_bytes got)"

lemma out_ok_send:
  assumes ok: "out_ok ms w" and s: "send streamID t flags p w = (e, w')"
  shows "out_ok (if e = None then ms @ [(streamID, t, flags, bytes_of p)] else ms) w'"
proof (cases "length (bytes_of p) \<le> messageLengthMax")
  case False
  with s have "e \<noteq> None" "w' = w" by (auto simp: send_too_long OversizedMessageError_def)
  then show ?thesis using ok by auto
next
  case len: True
  show ?thesis
  proof (cases "werr w")
    case (Some x)
    with s len have "e = Some x" "w' = w" by (simp_all add: send_sticky)
    with ok show ?thesis by simp
  next
    case None
    with ok have w: "writer_clean w" "sent w = wire_bytes ms" "\<forall>m \<in> set ms. valid_message m"
      by (auto simp: out_ok_def)
    show ?thesis
    proof (cases e)
      case None
      with send_ok [OF w(1)] s w len show ?thesis by (simp add: out_ok_def)
    next
      case (Some x)
      with send_fail [OF w(1) _ len] s have f: "werr w' = Some x" "prefix (sent w) (sent w')"
        "strict_prefix (sent w') (sent w @ frame streamID t flags (bytes_of p))" by auto
      then obtain torn where "sent w' = wire_bytes ms @ torn" using w(2) by (auto elim: prefixE)
      moreover from this f(3) w(2) have "strict_prefix torn (frame_of (streamID, t, flags, bytes_of p))" by simp
      moreover have "valid_message (streamID, t, flags, bytes_of p)" using len by simp
      ultimately have "\<exists>torn m. valid_message m \<and> strict_prefix torn (frame_of m) \<and> sent w' = wire_bytes ms @ torn"
        by blast
      then show ?thesis using f(1) w(3) Some by (simp add: out_ok_def)
    qed
  qed
qed

lemma encode_header_inject: "encode_header x = encode_header y \<Longrightarrow> x = y"
  using decode_encode_header [of x "[]"] decode_encode_header [of y "[]"] by simp

text \<open>A torn frame is never received as a message.\<close>

lemma recv_torn:
  assumes "strict_prefix (rbytes r) (frame_of m)" "valid_message m"
  shows "recv L r \<noteq> ((mh, p, None), r')"
proof
  assume "recv L r = ((mh, p, None), r')"
  note D = recv_okD [OF this]
  obtain streamID t flags q where m: "m = (streamID, t, flags, q)" by (cases m)
  let ?h = "\<lparr>Length = of_nat (length q), StreamID = streamID, Type = t, Flags = flags\<rparr>"
  obtain zs where zs: "encode_header ?h @ q = encode_header mh @ bytes_of p @ rbytes r' @ zs" "zs \<noteq> []"
    using assms(1) D by (auto simp: m frame_def elim!: strict_prefixE')
  have "encode_header ?h = encode_header mh \<and> q = bytes_of p @ rbytes r' @ zs"
    by (rule append_eq_append_conv [THEN iffD1, OF disjI1 zs(1)]) simp
  then have h: "encode_header ?h = encode_header mh" "q = bytes_of p @ rbytes r' @ zs" by blast+
  have "?h = mh" by (rule encode_header_inject [OF h(1)])
  then have "unat (Length mh) = length q" using assms(2) m by auto
  with D h(2) zs(2) show False by simp
qed

lemma pipe_ok_recv:
  assumes ok: "pipe_ok ms got q" and r: "pipe_recv L e q = ((mh, p, None), q')"
  obtains m where "(mh, p, None) = received m" "pipe_ok ms (got @ [m]) q'" "valid_message m"
proof -
  obtain rest where ms: "ms = got @ rest" using ok by (auto simp: pipe_ok_def elim: prefixE)
  obtain torn where out: "sent (p_out q) = wire_bytes ms @ torn"
    "torn = [] \<or> (\<exists>m. valid_message m \<and> strict_prefix torn (frame_of m))"
    using ok unfolding pipe_ok_def out_ok_def by (metis append.right_neutral)
  let ?r = "\<lparr>rbytes = wire_bytes rest @ torn, rerr = e\<rparr>"
  have rd: "drop (p_read q) (sent (p_out q)) = rbytes ?r"
    using ok by (simp add: out ms pipe_ok_def)
  obtain r' where rr: "recv L ?r = ((mh, p, None), r')" "q' = q\<lparr>p_read := length (sent (p_out q)) - length (rbytes r')\<rparr>"
    using r unfolding pipe_recv_def rd by (auto split: prod.splits)
  show ?thesis
  proof (cases rest)
    case Nil
    then have "torn \<noteq> []" using rr(1) by (auto simp: recv_empty)
    then obtain m where "valid_message m" "strict_prefix (rbytes ?r) (frame_of m)" using out(2) Nil by auto
    with recv_torn [of ?r m L mh p r'] rr(1) show ?thesis by blast
  next
    case (Cons m rest')
    obtain streamID t flags b where m: "m = (streamID, t, flags, b)" by (cases m)
    have valid: "valid_message m" using ok by (simp add: pipe_ok_def out_ok_def ms Cons)
    then have "recv L ?r = (received m, ?r\<lparr>rbytes := wire_bytes rest' @ torn\<rparr>)"
      using recv_frame [of b ?r streamID t flags "wire_bytes rest' @ torn" L] by (simp add: Cons m)
    with rr have "(mh, p, None) = received m" "p_read q' = length (wire_bytes (got @ [m]))" "p_out q' = p_out q"
      by (simp_all add: out ms Cons)
    with ok valid show ?thesis
      by (intro that [of m]) (auto simp: pipe_ok_def ms Cons prefix_def)
  qed
qed

text \<open>What a pipe delivers, as a message.\<close>

definition pipe_get :: "status_lib \<times> go_error \<Rightarrow> pipe \<Rightarrow> message option \<times> pipe" where
  "pipe_get w q =
     (case pipe_recv (fst w) (snd w) q of
        ((mh, p, None), q') \<Rightarrow> (Some (StreamID mh, Type mh, Flags mh, bytes_of p), q')
      | ((mh, p, Some e), q') \<Rightarrow> (None, q))"

definition pipe_put :: "message \<Rightarrow> pipe \<Rightarrow> go_error option \<times> pipe" where
  "pipe_put m q = (case m of (streamID, t, flags, p) \<Rightarrow> pipe_send streamID t flags (Some p) q)"

lemma received_inverse: "(mh, p, oe) = received m \<Longrightarrow> (StreamID mh, Type mh, Flags mh, bytes_of p) = m"
  by (cases m) auto

interpretation pipe: transport pipe_ok pipe_put pipe_get
proof
  fix ms got and q q' :: pipe and m :: message
  assume ok: "pipe_ok ms got q"
  obtain streamID t flags p where m: "m = (streamID, t, flags, p)" by (cases m)
  show "pipe_ok (ms @ [m]) got q'" if "pipe_put m q = (None, q')"
    using out_ok_send [of ms "p_out q" streamID t flags "Some p" None] ok that
    by (auto simp: pipe_ok_def pipe_put_def pipe_send_def m prefix_def split: prod.splits)
  show "pipe_ok ms got q'" if "pipe_put m q = (Some e, q')" for e
    using out_ok_send [of ms "p_out q" streamID t flags "Some p" "Some e"] ok that
    by (auto simp: pipe_ok_def pipe_put_def pipe_send_def m split: prod.splits)
  show "pipe_ok ms (got @ [m]) q'" if g: "pipe_get w q = (Some m, q')" for w
  proof -
    obtain mh b where r: "pipe_recv (fst w) (snd w) q = ((mh, b, None), q')" "m = (StreamID mh, Type mh, Flags mh, bytes_of b)"
      using g by (auto simp: pipe_get_def split: prod.splits option.split_asm)
    from pipe_ok_recv [OF ok r(1)] r(2) received_inverse show ?thesis by metis
  qed
  show "prefix got ms" using ok by (simp add: pipe_ok_def)
qed

end
