(* ===== verification/Link.thy ===== *)
theory Link
  imports EndToEnd Pipe
begin

text \<open>
  A client and a server connection over one network connection: the state machines of theories
  \<open>Client\<close> and \<open>ServerConn\<close>, each writing with its channel's \<open>send\<close> into one pipe of bytes and
  reading with its channel's \<open>recv\<close> from the other. The network may accept only part of what is
  written and may fail a read at any time; it neither loses nor reorders bytes.
\<close>

section \<open>State\<close>

text \<open>
  \<open>ln_up_got\<close> and \<open>ln_down_got\<close> record the messages the server and the client received, \<open>ln_reads\<close>
  what the handlers of the server's streams took from their queues, with the stream, and \<open>ln_took\<close>
  what the callers of the client took from theirs.
\<close>

record link =
  ln_client :: client
  ln_conn :: sconn
  ln_up :: pipe
  ln_down :: pipe
  ln_up_got :: "message list"
  ln_down_got :: "message list"
  ln_reads :: "(u32 \<times> bytes) list"
  ln_took :: "(nat \<times> streamMessage) list"

definition link0 :: "writer \<Rightarrow> writer \<Rightarrow> link" where
  "link0 wu wd =
     \<lparr>ln_client = client0, ln_conn = conn0, ln_up = \<lparr>p_out = wu, p_read = 0\<rparr>, ln_down = \<lparr>p_out = wd, p_read = 0\<rparr>,
      ln_up_got = [], ln_down_got = [], ln_reads = [], ln_took = []\<rparr>"

text \<open>A connection on which nothing was written yet.\<close>

definition fresh_writer :: "writer \<Rightarrow> bool" where
  "fresh_writer w \<longleftrightarrow> writer_clean w \<and> sent w = []"

section \<open>Steps\<close>

datatype link_event =
    ClientAct client_event
  | ClientRequest nat
  | ClientData nat byte bytes
  | ClientRecv go_error
  | ServerAct conn_event
  | ServerSend
  | ServerRecv go_error "go_error option" data_pick

text \<open>The steps of an end that do not touch the network.\<close>

definition client_local :: "client_event \<Rightarrow> bool" where
  "client_local e \<longleftrightarrow> (case e of Sent _ _ \<Rightarrow> False | UserSend _ _ _ _ \<Rightarrow> False | LoopRecv _ _ _ \<Rightarrow> False | _ \<Rightarrow> True)"

definition server_local :: "conn_event \<Rightarrow> bool" where
  "server_local e \<longleftrightarrow> (case e of MSent _ \<Rightarrow> False | RMessage _ _ _ _ _ \<Rightarrow> False | _ \<Rightarrow> True)"

text \<open>The errors of a network connection are not gRPC statuses.\<close>

definition conn_error :: "go_error \<Rightarrow> bool" where
  "conn_error e \<longleftrightarrow> list_all (\<lambda>x. \<not> is_status_error x) (err_chain e)"

definition got_message :: "messageHeader \<times> bytes \<times> go_error option \<Rightarrow> message list" where
  "got_message r = (case r of (mh, p, None) \<Rightarrow> [(StreamID mh, Type mh, Flags mh, bytes_of p)] | (mh, p, Some e) \<Rightarrow> [])"

definition handler_read :: "conn_event \<Rightarrow> sconn \<Rightarrow> (u32 \<times> bytes) list" where
  "handler_read e c =
     (case e of
        WRecv i \<Rightarrow>
          (case w_handler (workers c ! i) of
             Some h \<Rightarrow> map (\<lambda>u. (w_id (workers c ! i), u)) (take 1 (buf (h_recv (handlers c ! h))))
           | None \<Rightarrow> [])
      | _ \<Rightarrow> [])"

definition took :: "client_event \<Rightarrow> client \<Rightarrow> (nat \<times> streamMessage) list" where
  "took e c =
     (case e of
        Wait k p \<Rightarrow>
          (case caller_at c k of
             Some (KWait o') \<Rightarrow> (case wait_select p c (cl_objs c ! o') of Some (GotMsg m, st) \<Rightarrow> [(o', m)] | _ \<Rightarrow> [])
           | _ \<Rightarrow> [])
      | UserRead k ctx p del \<Rightarrow>
          (case caller_at c k of
             Some (KOpen o') \<Rightarrow> (case read_select ctx p (cl_objs c ! o') of Some (GotMsg m, st) \<Rightarrow> [(o', m)] | _ \<Rightarrow> [])
           | _ \<Rightarrow> [])
      | _ \<Rightarrow> [])"

definition client_sends :: "u32 \<Rightarrow> byte \<Rightarrow> byte \<Rightarrow> bytes \<Rightarrow> (go_error option \<Rightarrow> client option) \<Rightarrow> link \<Rightarrow> link option" where
  "client_sends i t flags p step s =
     (case pipe_send i t flags p (ln_up s) of
        (e, q) \<Rightarrow> (case step e of None \<Rightarrow> None | Some c \<Rightarrow> Some (s\<lparr>ln_client := c, ln_up := q\<rparr>)))"

fun link_step :: "('c, 'f, 'g, 'i, 'j, 'm) conn_env \<Rightarrow> link \<Rightarrow> link_event \<Rightarrow> link option" where
  "link_step E s (ClientAct e) =
     (if client_local e
      then (case client_step (e_lib E) (ln_client s) e of None \<Rightarrow> None
        | Some c \<Rightarrow> Some (s\<lparr>ln_client := c, ln_took := ln_took s @ took e (ln_client s)\<rparr>))
      else None)"
| "link_step E s (ClientRequest k) =
     (case caller_at (ln_client s) k of
        Some (KSend o') \<Rightarrow>
          client_sends (sid (cl_objs (ln_client s) ! o')) messageTypeRequest (k_flags (cl_callers (ln_client s) ! k))
            (k_data (cl_callers (ln_client s) ! k)) (\<lambda>e. client_step (e_lib E) (ln_client s) (Sent k e)) s
      | _ \<Rightarrow> None)"
| "link_step E s (ClientData k flags p) =
     (case caller_at (ln_client s) k of
        Some (KOpen o') \<Rightarrow>
          client_sends (sid (cl_objs (ln_client s) ! o')) messageTypeData flags p
            (\<lambda>e. client_step (e_lib E) (ln_client s) (UserSend k flags p e)) s
      | _ \<Rightarrow> None)"
| "link_step E s (ClientRecv e) =
     (if conn_error e
      then (case pipe_recv (e_lib E) e (ln_down s) of
          ((mh, p, err), q) \<Rightarrow>
            (case client_step (e_lib E) (ln_client s) (LoopRecv mh p err) of
               None \<Rightarrow> None
             | Some c \<Rightarrow> Some (s\<lparr>ln_client := c, ln_down := q, ln_down_got := ln_down_got s @ got_message (mh, p, err)\<rparr>)))
      else None)"
| "link_step E s (ServerAct e) =
     (if server_local e
      then (case conn_step E (ln_conn s) e of
          None \<Rightarrow> None
        | Some c \<Rightarrow> Some (s\<lparr>ln_conn := c, ln_reads := ln_reads s @ handler_read e (ln_conn s)\<rparr>))
      else None)"
| "link_step E s ServerSend =
     (case mpc (ln_conn s) of
        MSend r b \<Rightarrow>
          (case response_frame (e_proto E) r of
             Inl x \<Rightarrow> Some (s\<lparr>ln_conn := main_send (e_proto E) r b None (ln_conn s)\<rparr>)
           | Inr (i, t, flags, p) \<Rightarrow>
               (case pipe_send i t flags p (ln_down s) of
                  (e, q) \<Rightarrow> Some (s\<lparr>ln_conn := main_send (e_proto E) r b e (ln_conn s), ln_down := q\<rparr>)))
      | _ \<Rightarrow> None)"
| "link_step E s (ServerRecv e ctx_err pick) =
     (if conn_error e
      then (case pipe_recv (e_lib E) e (ln_up s) of
          ((mh, p, err), q) \<Rightarrow>
            (case conn_step E (ln_conn s) (RMessage mh p err ctx_err pick) of
               None \<Rightarrow> None
             | Some c \<Rightarrow> Some (s\<lparr>ln_conn := c, ln_up := q, ln_up_got := ln_up_got s @ got_message (mh, p, err)\<rparr>)))
      else None)"

end
