(* ===== verification/LinkRuns.thy ===== *)
theory LinkRuns
  imports Link
begin

text \<open>
  Runs of a client and a server connection over one network connection: each end runs as it does
  alone, and the messages received are those sent, in order, up to what was torn by a failure.
\<close>

section \<open>The ends of a link run as they do alone\<close>

lemma link_client_step:
  "link_step E s ev = Some t \<Longrightarrow> ln_client t = ln_client s \<or> (\<exists>e. client_step (e_lib E) (ln_client s) e = Some (ln_client t))"
  by (cases ev)
     (auto simp: client_sends_def simp del: client_step.simps
       split: if_splits option.splits caller_pc.splits main_pc.splits sum.splits prod.splits)

lemma link_conn_step:
  assumes "link_step E s ev = Some t"
  shows "ln_conn t = ln_conn s \<or> (\<exists>e. conn_step E (ln_conn s) e = Some (ln_conn t))"
proof (cases ev)
  case ServerSend
  with assms obtain r b where m: "mpc (ln_conn s) = MSend r b" by (auto split: main_pc.splits)
  then have "ln_conn t \<in> range (\<lambda>e. main_send (e_proto E) r b e (ln_conn s))"
    using assms ServerSend by (auto split: sum.splits prod.splits)
  then obtain e where "conn_step E (ln_conn s) (MSent e) = Some (ln_conn t)" using m by (auto simp: image_iff)
  then show ?thesis by blast
qed (use assms in \<open>auto simp: client_sends_def simp del: conn_step.simps
    split: if_splits option.splits caller_pc.splits prod.splits\<close>)

definition link_reach :: "('c, 'f, 'g, 'i, 'j, 'm) conn_env \<Rightarrow> link \<Rightarrow> bool" where
  "link_reach E s \<longleftrightarrow> (\<exists>es. run (client_step (e_lib E)) client0 es = Some (ln_client s)) \<and>
     (\<exists>es. run (conn_step E) conn0 es = Some (ln_conn s))"

lemma link_reach_init: "link_reach E (link0 wu wd)"
  unfolding link_reach_def link0_def by (auto intro: exI [of _ "[]"])

lemma link_reach_step:
  assumes "link_reach E s" "link_step E s ev = Some t"
  shows "link_reach E t"
proof -
  obtain es fs where r: "run (client_step (e_lib E)) client0 es = Some (ln_client s)" "run (conn_step E) conn0 fs = Some (ln_conn s)"
    using assms(1) by (auto simp: link_reach_def)
  have "\<exists>es. run (client_step (e_lib E)) client0 es = Some (ln_client t)"
    using link_client_step [OF assms(2)] r(1) by (metis run_snoc_Some)
  moreover have "\<exists>fs. run (conn_step E) conn0 fs = Some (ln_conn t)"
    using link_conn_step [OF assms(2)] r(2) by (metis run_snoc_Some)
  ultimately show ?thesis by (simp add: link_reach_def)
qed

section \<open>What is on the wire\<close>

definition wire_msg :: "u32 \<times> byte \<times> byte \<times> bytes \<Rightarrow> message" where
  "wire_msg f = (case f of (i, t, flags, p) \<Rightarrow> (i, t, flags, bytes_of p))"

definition client_msgs :: "client \<Rightarrow> message list" where
  "client_msgs c = map wire_msg (cl_sent c)"

definition server_msgs :: "'m proto_lib \<Rightarrow> sconn \<Rightarrow> message list" where
  "server_msgs P c = map (\<lambda>x. wire_msg (projr (response_frame P (fst x)))) (responses_sent c)"

definition client_reading :: "client \<Rightarrow> bool" where
  "client_reading c \<longleftrightarrow> (case cl_run c of LTop \<Rightarrow> True | LRecv \<Rightarrow> True | LReceive _ _ _ \<Rightarrow> True | _ \<Rightarrow> False)"

text \<open>One direction: the bytes are the messages sent, and those received a prefix, exactly read while the receiver runs.\<close>

definition way_ok :: "message list \<Rightarrow> message list \<Rightarrow> bool \<Rightarrow> pipe \<Rightarrow> bool" where
  "way_ok ms rcvd reading q \<longleftrightarrow> out_ok ms (p_out q) \<and> prefix rcvd ms \<and> (reading \<longrightarrow> pipe_ok ms rcvd q)"

definition link_inv :: "('c, 'f, 'g, 'i, 'j, 'm) conn_env \<Rightarrow> link \<Rightarrow> bool" where [inv_defs]:
  "link_inv E s \<longleftrightarrow>
     way_ok (client_msgs (ln_client s)) (ln_up_got s) (rpc (ln_conn s) \<noteq> RExit) (ln_up s) \<and>
     way_ok (server_msgs (e_proto E) (ln_conn s)) (ln_down_got s) (client_reading (ln_client s)) (ln_down s)"

lemma way_ok_mono: "way_ok ms rcvd reading q \<Longrightarrow> (reading' \<Longrightarrow> reading) \<Longrightarrow> way_ok ms rcvd reading' q"
  by (auto simp: way_ok_def)

lemma way_ok_send:
  assumes "way_ok ms rcvd reading q" "pipe_send i t flags p q = (e, q')"
  shows "way_ok (if e = None then ms @ [wire_msg (i, t, flags, p)] else ms) rcvd reading q'"
  using assms out_ok_send [of ms "p_out q" i t flags p e]
  by (auto simp: way_ok_def pipe_ok_def pipe_send_def wire_msg_def split: prod.splits)

lemma way_ok_recv:
  assumes "way_ok ms rcvd reading q" reading "pipe_recv L e q = (r, q')" "snd (snd r) = None \<or> \<not> reading'"
  shows "way_ok ms (rcvd @ got_message r) reading' q'"
proof -
  obtain mh p err where r: "r = (mh, p, err)" by (cases r)
  have out: "p_out q' = p_out q" using assms(3) by (auto simp: pipe_recv_def split: prod.splits)
  have ok: "pipe_ok ms rcvd q" using assms(1,2) by (simp add: way_ok_def)
  show ?thesis
  proof (cases err)
    case None
    with assms(3) r have "pipe_recv L e q = ((mh, p, None), q')" by simp
    from pipe_ok_recv [OF ok this] obtain m where m: "(mh, p, None) = received m" "pipe_ok ms (rcvd @ [m]) q'"
      by blast
    from received_inverse [OF m(1)] have "got_message r = [m]" by (simp add: r None got_message_def)
    with m(2) show ?thesis by (simp add: way_ok_def pipe_ok_def)
  next
    case (Some x)
    with assms(1,4) r out show ?thesis by (simp add: way_ok_def got_message_def)
  qed
qed

text \<open>Nothing oversized is ever on the wire, so a failed receive has an error of the connection.\<close>

lemma conn_error_simps [simp]: "conn_error (WrapErr t e) = conn_error e" "conn_error IoUnexpectedEOF" "conn_error IoEOF"
  by (simp_all add: conn_error_def is_status_error_def)

lemma recv_conn_error:
  assumes "recv L r = ((mh, p, Some x), r')" "conn_error (rerr r)"
    and "\<And>hdr1 rst. rbytes r = encode_header hdr1 @ rst \<Longrightarrow> unat (Length hdr1) \<le> messageLengthMax"
  shows "conn_error x"
proof (cases "readMessageHeader r")
  case (Pair h r1)
  show ?thesis
  proof (cases h)
    case (Inl e1)
    with Pair assms(1) have "e1 = x" by (simp add: recv_def)
    moreover from Pair Inl have "read_full messageHeaderLength r = (Inl e1, r1)"
      by (auto simp: readMessageHeader_def split: prod.splits sum.splits)
    ultimately show ?thesis using read_full_errorD [of messageHeaderLength r x r1] assms(2) by auto
  next
    case (Inr hdr1)
    note D = readMessageHeader_okD [OF Pair [unfolded Inr]]
    have "\<not> Length hdr1 > of_nat messageLengthMax" using assms(3) D not_oversized_iff by blast
    with assms(1) Pair Inr D read_full_errorD [of "unat (Length hdr1)" r1] assms(2) show ?thesis
      by (auto simp: recv_def split: if_splits prod.splits sum.splits)
  qed
qed

lemma header_of_frame:
  assumes "encode_header hdr1 @ rst = frame_of m @ zs" "valid_message m"
  shows "unat (Length hdr1) \<le> messageLengthMax"
proof -
  obtain i t flags b where m: "m = (i, t, flags, b)" by (cases m)
  let ?h = "\<lparr>Length = of_nat (length b), StreamID = i, Type = t, Flags = flags\<rparr>"
  have eq: "encode_header hdr1 @ rst = encode_header ?h @ b @ zs" using assms(1) by (simp add: m frame_def)
  have "encode_header hdr1 = encode_header ?h \<and> rst = b @ zs"
    by (rule append_eq_append_conv [THEN iffD1, OF disjI1 eq]) simp
  then have "encode_header hdr1 = encode_header ?h" ..
  then have "hdr1 = ?h" by (rule encode_header_inject)
  with assms(2) m show ?thesis by simp
qed

lemma pipe_recv_error:
  assumes "pipe_ok ms rcvd q" "pipe_recv L e q = ((mh, p, Some x), q')" "conn_error e"
  shows "conn_error x"
proof -
  obtain rst torn where out: "sent (p_out q) = wire_bytes rcvd @ wire_bytes rst @ torn" "\<forall>m \<in> set rst. valid_message m"
    "torn = [] \<or> (\<exists>m. valid_message m \<and> strict_prefix torn (frame_of m))"
  proof -
    obtain rst where ms: "ms = rcvd @ rst" using assms(1) by (auto simp: pipe_ok_def elim: prefixE)
    obtain torn where "sent (p_out q) = wire_bytes ms @ torn"
      "torn = [] \<or> (\<exists>m. valid_message m \<and> strict_prefix torn (frame_of m))"
      using assms(1) unfolding pipe_ok_def out_ok_def by (metis append.right_neutral)
    moreover have "\<forall>m \<in> set rst. valid_message m" using assms(1) by (simp add: pipe_ok_def out_ok_def ms)
    ultimately show ?thesis by (intro that [of rst torn]) (simp_all add: ms)
  qed
  let ?r = "\<lparr>rbytes = wire_bytes rst @ torn, rerr = e\<rparr>"
  have "drop (p_read q) (sent (p_out q)) = rbytes ?r" using assms(1) out(1) by (simp add: pipe_ok_def)
  with assms(2) obtain r' where rr: "recv L ?r = ((mh, p, Some x), r')"
    by (auto simp: pipe_recv_def split: prod.splits)
  show ?thesis
  proof (rule recv_conn_error [OF rr])
    fix hdr1 rst'
    assume h: "rbytes ?r = encode_header hdr1 @ rst'"
    obtain m zs ws where "valid_message m" "encode_header hdr1 @ ws = frame_of m @ zs"
    proof (cases rst)
      case Nil
      with h have "torn \<noteq> []" by (auto simp: messageHeaderLength_def dest: arg_cong [of _ _ length])
      with out(3) obtain m zs where "valid_message m" "frame_of m = torn @ zs" by (auto elim!: strict_prefixE')
      with h Nil that [of m "rst' @ zs" "[]"] show ?thesis by simp
    next
      case (Cons m ms')
      with h out(2) that [of m rst' "wire_bytes ms' @ torn"] show ?thesis by simp
    qed
    then show "unat (Length hdr1) \<le> messageLengthMax" by (rule header_of_frame [rotated])
  qed (use assms(3) in simp)
qed

section \<open>The wire carries what the ends sent\<close>

lemma client_step_sent:
  assumes "client_step L s e = Some t" "client_local e \<or> (\<exists>mh p err. e = LoopRecv mh p err)"
  shows "cl_sent t = cl_sent s"
  using assms
  by (cases e)
     (auto simp: client_local_def k_failed_def client_Close_def close_obj_def loop_message_def add_stream_def
       delete_entry_def cleanupStreams_def Let_def
       split: if_splits option.splits caller_pc.splits run_pc.splits prod.splits)

lemma client_step_reading:
  assumes "client_step L s e = Some t" "client_reading t"
  shows "client_reading s"
  using assms
  by (cases e)
     (auto simp: client_reading_def k_failed_def client_Close_def close_obj_def loop_message_def add_stream_def
       delete_entry_def cleanupStreams_def Let_def
       split: if_splits option.splits caller_pc.splits run_pc.splits prod.splits)

lemma from_error_conn_error: "status_lib_ok L \<Longrightarrow> conn_error e \<Longrightarrow> \<not> snd (FromError L (Some e))"
  using from_error_plain [of L e] by (simp add: conn_error_def list_all_iff)

lemma client_recv_failed:
  assumes "client_step L s (LoopRecv mh p (Some x)) = Some t" "status_lib_ok L" "conn_error x"
  shows "\<not> client_reading t"
  using assms from_error_conn_error [OF assms(2,3)]
  by (auto simp: client_reading_def loop_message_def split: if_splits)

text \<open>A send adds its frame exactly when it succeeds.\<close>

lemma client_sent_request:
  assumes "client_step L s (Sent k e) = Some t" "caller_at s k = Some (KSend o')"
    and "pipe_send i messageTypeRequest fl (k_data (cl_callers s ! k)) q = (e, q')"
  shows "cl_sent t = (if e = None then cl_sent s @ [(sid (cl_objs s ! o'), messageTypeRequest, k_flags (cl_callers s ! k), k_data (cl_callers s ! k))]
      else cl_sent s) \<and> (client_reading t \<longrightarrow> client_reading s)"
proof -
  have "OversizedMessageError (int (length (bytes_of (k_data (cl_callers s ! k))))) \<noteq> None \<longrightarrow> e \<noteq> None"
    using assms(3) by (auto simp: pipe_send_def send_def OversizedMessageError_def split: if_splits prod.splits)
  with assms(1,2) client_step_reading [OF assms(1)] show ?thesis
    by (auto simp: k_failed_def Let_def split: option.splits)
qed

lemma client_sent_data:
  assumes "client_step L s (UserSend k fl p e) = Some t" "caller_at s k = Some (KOpen o')"
    and "pipe_send i messageTypeData fl p q = (e, q')"
  shows "cl_sent t = (if e = None then cl_sent s @ [(sid (cl_objs s ! o'), messageTypeData, fl, p)] else cl_sent s)"
proof -
  have "OversizedMessageError (int (length (bytes_of p))) \<noteq> None \<longrightarrow> e \<noteq> None"
    using assms(3) by (auto simp: pipe_send_def send_def OversizedMessageError_def split: if_splits prod.splits)
  with assms(1,2) show ?thesis by (auto split: option.splits if_splits)
qed

lemma server_sent:
  assumes "response_frame P r = Inr (i, t, fl, p)" "pipe_send i t fl p q = (e, q')"
  shows "responses_sent (main_send P r b e c) = (if e = None then responses_sent c @ [(r, b)] else responses_sent c)"
proof -
  have "OversizedMessageError (int (length (bytes_of p))) \<noteq> None \<longrightarrow> e \<noteq> None"
    using assms(2) by (auto simp: pipe_send_def send_def OversizedMessageError_def split: if_splits prod.splits)
  with assms(1) show ?thesis by (auto simp: main_send_def send_outcome_def conn_exit_def split: option.splits)
qed

lemma recv_body_sent: "recv_body E mh p err ctx_err pick s = Some t \<Longrightarrow> responses_sent t = responses_sent s"
  by (drule recv_body_eq) (simp add: recv_frame_eq_def)

lemma conn_step_sent:
  assumes "conn_step E s e = Some t" "\<And>x. e \<noteq> MSent x"
  shows "responses_sent t = responses_sent s"
proof (cases e)
  case (RMessage mh p err ctx_err pick)
  with assms recv_body_sent show ?thesis by (auto split: if_splits)
next
  case (RWaitData ctx_err pick)
  with assms(1) have "recv_frame_eq s t" by (auto dest!: recv_data_eq split: recv_pc.splits)
  then show ?thesis by (simp add: recv_frame_eq_def)
qed (use assms in \<open>auto simp: conn_close_def conn_exit_def conn_return_def main_guard_def set_worker_def Let_def
    split: if_splits bool.splits main_pc.splits recv_pc.splits worker_pc.splits option.splits outcome.splits prod.splits\<close>)

lemma conn_step_running:
  assumes "conn_step E s e = Some t" "rpc t \<noteq> RExit"
  shows "rpc s \<noteq> RExit"
  using assms
  by (cases e) (auto simp: conn_close_def conn_exit_def conn_return_def main_guard_def set_worker_def Let_def
    split: if_splits bool.splits main_pc.splits recv_pc.splits worker_pc.splits option.splits outcome.splits prod.splits)

lemma conn_recv_failed:
  assumes "conn_step E s (RMessage mh p (Some x) ctx_err pick) = Some t" "status_lib_ok (e_lib E)" "conn_error x"
  shows "rpc t = RExit"
  using assms from_error_conn_error [OF assms(2,3)]
  by (auto simp: recv_body_def split: if_splits prod.splits outcome.splits)

lemma client_way_step:
  assumes "link_step E s ev = Some t" "link_inv E s" "\<And>e. ev \<noteq> ClientRecv e" "\<And>e c p. ev \<noteq> ServerRecv e c p"
  shows "way_ok (client_msgs (ln_client t)) (ln_up_got t) (rpc (ln_conn t) \<noteq> RExit) (ln_up t)"
proof -
  have way: "way_ok (client_msgs (ln_client s)) (ln_up_got s) (rpc (ln_conn s) \<noteq> RExit) (ln_up s)"
    using assms(2) by (simp add: link_inv_def)
  show ?thesis
  proof (cases ev)
    case (ClientAct e)
    with assms(1) way show ?thesis
      by (auto simp: client_msgs_def dest: client_step_sent simp del: client_step.simps split: if_splits option.splits)
  next
    case (ClientRequest k)
    then obtain o' e q where k: "caller_at (ln_client s) k = Some (KSend o')"
      "pipe_send (sid (cl_objs (ln_client s) ! o')) messageTypeRequest (k_flags (cl_callers (ln_client s) ! k))
            (k_data (cl_callers (ln_client s) ! k)) (ln_up s) = (e, q)"
      "client_step (e_lib E) (ln_client s) (Sent k e) = Some (ln_client t)" "ln_up t = q" "ln_conn t = ln_conn s"
      "ln_up_got t = ln_up_got s"
      using assms(1) by (auto simp: client_sends_def simp del: client_step.simps split: option.splits caller_pc.splits prod.splits)
    from way_ok_send [OF way k(2)] client_sent_request [OF k(3,1,2)] k show ?thesis
      by (auto simp: client_msgs_def split: if_splits)
  next
    case (ClientData k fl p)
    then obtain o' e q where k: "caller_at (ln_client s) k = Some (KOpen o')"
      "pipe_send (sid (cl_objs (ln_client s) ! o')) messageTypeData fl p (ln_up s) = (e, q)"
      "client_step (e_lib E) (ln_client s) (UserSend k fl p e) = Some (ln_client t)" "ln_up t = q" "ln_conn t = ln_conn s"
      "ln_up_got t = ln_up_got s"
      using assms(1) by (auto simp: client_sends_def simp del: client_step.simps split: option.splits caller_pc.splits prod.splits)
    from way_ok_send [OF way k(2)] client_sent_data [OF k(3,1,2)] k show ?thesis
      by (auto simp: client_msgs_def split: if_splits)
  next
    case (ServerAct e)
    with assms(1) obtain c where c: "conn_step E (ln_conn s) e = Some c" "t = s\<lparr>ln_conn := c, ln_reads := ln_reads s @ handler_read e (ln_conn s)\<rparr>"
      by (auto simp del: conn_step.simps split: if_splits option.splits)
    with conn_step_running [OF c(1)] way show ?thesis by (auto intro: way_ok_mono)
  next
    case ServerSend
    with assms(1) way show ?thesis
      by (auto split: main_pc.splits sum.splits prod.splits)
  qed (use assms(3,4) in auto)
qed

lemma server_way_step:
  assumes "link_step E s ev = Some t" "link_inv E s" "\<And>e. ev \<noteq> ClientRecv e" "\<And>e c p. ev \<noteq> ServerRecv e c p"
  shows "way_ok (server_msgs (e_proto E) (ln_conn t)) (ln_down_got t) (client_reading (ln_client t)) (ln_down t)"
proof -
  have way: "way_ok (server_msgs (e_proto E) (ln_conn s)) (ln_down_got s) (client_reading (ln_client s)) (ln_down s)"
    using assms(2) by (simp add: link_inv_def)
  have client: ?thesis if "client_step (e_lib E) (ln_client s) e = Some (ln_client t)" "ln_conn t = ln_conn s"
    "ln_down t = ln_down s" "ln_down_got t = ln_down_got s" for e
    using way_ok_mono [OF way] client_step_reading [OF that(1)] that by simp
  show ?thesis
  proof (cases ev)
    case (ServerAct e)
    with assms(1) obtain c where c: "conn_step E (ln_conn s) e = Some c" "t = s\<lparr>ln_conn := c, ln_reads := ln_reads s @ handler_read e (ln_conn s)\<rparr>" "server_local e"
      by (auto simp del: conn_step.simps split: if_splits option.splits)
    have "responses_sent c = responses_sent (ln_conn s)"
      by (rule conn_step_sent [OF c(1)]) (use c(3) in \<open>auto simp: server_local_def\<close>)
    with way c show ?thesis by (simp add: server_msgs_def)
  next
    case ServerSend
    then obtain r b where m: "mpc (ln_conn s) = MSend r b" using assms(1) by (auto split: main_pc.splits)
    show ?thesis
    proof (cases "response_frame (e_proto E) r")
      case (Inl x)
      with m ServerSend assms(1) have "t = s\<lparr>ln_conn := main_send (e_proto E) r b None (ln_conn s)\<rparr>" by auto
      with way Inl show ?thesis by (simp add: server_msgs_def main_send_def conn_exit_def)
    next
      case (Inr f)
      obtain i ty fl p where f: "f = (i, ty, fl, p)" by (cases f)
      obtain e q where p: "pipe_send i ty fl p (ln_down s) = (e, q)" by fastforce
      with m Inr f ServerSend assms(1) have t: "t = s\<lparr>ln_conn := main_send (e_proto E) r b e (ln_conn s), ln_down := q\<rparr>" by auto
      from way_ok_send [OF way p] server_sent [OF Inr [unfolded f] p, of b "ln_conn s"] show ?thesis
        by (auto simp: t server_msgs_def Inr f split: if_splits)
    qed
  next
    case (ClientAct e)
    with assms(1) have "client_step (e_lib E) (ln_client s) e = Some (ln_client t)"
      "ln_conn t = ln_conn s" "ln_down t = ln_down s" "ln_down_got t = ln_down_got s"
      by (auto simp del: client_step.simps split: if_splits option.splits)
    then show ?thesis by (rule client)
  next
    case (ClientRequest k)
    with assms(1) obtain e where "client_step (e_lib E) (ln_client s) (Sent k e) = Some (ln_client t)"
      "ln_conn t = ln_conn s" "ln_down t = ln_down s" "ln_down_got t = ln_down_got s"
      by (auto simp: client_sends_def simp del: client_step.simps split: option.splits caller_pc.splits prod.splits)
    then show ?thesis by (rule client)
  next
    case (ClientData k fl p)
    with assms(1) obtain e where "client_step (e_lib E) (ln_client s) (UserSend k fl p e) = Some (ln_client t)"
      "ln_conn t = ln_conn s" "ln_down t = ln_down s" "ln_down_got t = ln_down_got s"
      by (auto simp: client_sends_def simp del: client_step.simps split: option.splits caller_pc.splits prod.splits)
    then show ?thesis by (rule client)
  qed (use assms(3,4) in auto)
qed

lemma link_inv_step:
  assumes lib: "status_lib_ok (e_lib E)" and inv: "link_inv E s" and st: "link_step E s ev = Some t"
  shows "link_inv E t"
proof -
  have up: "way_ok (client_msgs (ln_client s)) (ln_up_got s) (rpc (ln_conn s) \<noteq> RExit) (ln_up s)"
    and down: "way_ok (server_msgs (e_proto E) (ln_conn s)) (ln_down_got s) (client_reading (ln_client s)) (ln_down s)"
    using inv by (simp_all add: link_inv_def)
  consider (crecv) e where "ev = ClientRecv e" | (srecv) e ctx_err pick where "ev = ServerRecv e ctx_err pick"
    | (other) "\<And>e. ev \<noteq> ClientRecv e" "\<And>e c p. ev \<noteq> ServerRecv e c p"
    by (cases ev) auto
  then show ?thesis
  proof cases
    case crecv
    then obtain mh p err q c where r: "conn_error e" "pipe_recv (e_lib E) e (ln_down s) = ((mh, p, err), q)"
      "client_step (e_lib E) (ln_client s) (LoopRecv mh p err) = Some c"
      "t = s\<lparr>ln_client := c, ln_down := q, ln_down_got := ln_down_got s @ got_message (mh, p, err)\<rparr>"
      using st by (auto simp del: client_step.simps split: if_splits option.splits prod.splits)
    have rd: "client_reading (ln_client s)" using r(3) by (auto simp: client_reading_def split: if_splits)
    have "err = None \<or> \<not> client_reading c"
      using client_recv_failed [OF _ lib] pipe_recv_error [OF _ _ r(1)] down rd r(2,3) unfolding way_ok_def
      by (metis option.exhaust)
    from way_ok_recv [OF down rd r(2)] this have
      "way_ok (server_msgs (e_proto E) (ln_conn t)) (ln_down_got t) (client_reading (ln_client t)) (ln_down t)"
      by (simp add: r(4))
    moreover have "cl_sent c = cl_sent (ln_client s)" using client_step_sent [OF r(3)] by blast
    ultimately show ?thesis using up by (simp add: link_inv_def r(4) client_msgs_def)
  next
    case srecv
    then obtain mh p err q c where r: "conn_error e" "pipe_recv (e_lib E) e (ln_up s) = ((mh, p, err), q)"
      "conn_step E (ln_conn s) (RMessage mh p err ctx_err pick) = Some c"
      "t = s\<lparr>ln_conn := c, ln_up := q, ln_up_got := ln_up_got s @ got_message (mh, p, err)\<rparr>"
      using st by (auto simp del: conn_step.simps split: if_splits option.splits prod.splits)
    have rd: "rpc (ln_conn s) \<noteq> RExit" using r(3) by (auto split: if_splits)
    have "err = None \<or> \<not> rpc c \<noteq> RExit"
      using conn_recv_failed [OF _ lib] pipe_recv_error [OF _ _ r(1)] up rd r(2,3) unfolding way_ok_def
      by (metis option.exhaust)
    from way_ok_recv [OF up rd r(2)] this have
      "way_ok (client_msgs (ln_client t)) (ln_up_got t) (rpc (ln_conn t) \<noteq> RExit) (ln_up t)"
      by (simp add: r(4))
    moreover have "responses_sent c = responses_sent (ln_conn s)" using conn_step_sent [OF r(3)] by blast
    ultimately show ?thesis using down by (simp add: link_inv_def r(4) server_msgs_def)
  next
    case other
    with client_way_step [OF st inv] server_way_step [OF st inv] show ?thesis by (simp add: link_inv_def)
  qed
qed

interpretation link_reach: step_invariant "link_step E" "link_reach E" for E
  by unfold_locales (rule link_reach_step)

interpretation link_wire: step_invariant "link_step E" "\<lambda>s. status_lib_ok (e_lib E) \<longrightarrow> link_inv E s" for E
  by unfold_locales (blast intro: link_inv_step)

lemma link_inv_init: "fresh_writer wu \<Longrightarrow> fresh_writer wd \<Longrightarrow> link_inv E (link0 wu wd)"
  by (simp add: link_inv_def link0_def way_ok_def pipe_ok_def out_ok_def fresh_writer_def client_msgs_def server_msgs_def conn0_def)

end
