(* ===== verification/LinkCalls.thy ===== *)
theory LinkCalls
  imports LinkRuns
begin

text \<open>
  What the runs of theory \<open>LinkRuns\<close> mean for calls: the server takes every request of the client, a
  caller gets the answer to its own request, and what it takes to crash the server.
\<close>

section \<open>Requests\<close>

text \<open>Sends made by a client go up in the order of the ids, so the server takes every request.\<close>

definition request_ids :: "message list \<Rightarrow> u32 list" where
  "request_ids ms = map fst (filter (\<lambda>m. fst (snd m) = messageTypeRequest) ms)"

lemma request_ids_simps [simp]:
  "request_ids [] = []" "request_ids (ms @ ns) = request_ids ms @ request_ids ns"
  "request_ids [m] = (if fst (snd m) = messageTypeRequest then [fst m] else [])"
  by (simp_all add: request_ids_def)

lemma request_ids_client: "request_ids (client_msgs c) = map fst (filter (\<lambda>f. fst (snd f) = messageTypeRequest) (cl_sent c))"
proof -
  have "fst (wire_msg f) = fst f \<and> fst (snd (wire_msg f)) = fst (snd f)" for f
    by (simp add: wire_msg_def split: prod.split)
  then show ?thesis by (simp add: request_ids_def client_msgs_def filter_map comp_def)
qed

lemma request_ids_order:
  assumes "req_inv c" "length (cl_objs c) \<le> 2 ^ 31" "prefix ms (client_msgs c)"
  shows "sorted_wrt (<) (request_ids ms) \<and> (\<forall>i \<in> set (request_ids ms). odd (unat i))"
proof -
  let ?reqs = "filter (\<lambda>f. fst (snd f) = messageTypeRequest) (cl_sent c)"
  obtain ns where ns: "client_msgs c = ms @ ns" using assms(3) by (auto elim: prefixE)
  have "sorted_wrt (\<lambda>f g. unat (fst f) < unat (fst g)) ?reqs"
    using request_ids_sorted [OF assms(1,2)] by (simp add: sorted_wrt_map)
  then have "sorted_wrt (<) (request_ids (ms @ ns))"
    unfolding ns [symmetric] request_ids_client by (simp add: sorted_wrt_map word_less_nat_alt)
  moreover have "\<forall>i \<in> set (request_ids (ms @ ns)). odd (unat i)"
    unfolding ns [symmetric] request_ids_client using request_ids_sorted [OF assms(1,2)] by auto
  ultimately show ?thesis by (simp add: sorted_wrt_append)
qed

lemma odd_word: "odd (unat (i :: u32)) \<Longrightarrow> i mod 2 = 1"
proof -
  assume "odd (unat i)"
  then have "unat (i mod 2) = unat (1 :: u32)" by (simp add: unat_mod odd_iff_mod_2_eq_one)
  then show ?thesis by (rule unsigned_word_eqI)
qed

lemma taken_new_request:
  assumes "recv_request E mh p ctx_err pick c = Some t" "lastStreamID c < StreamID mh"
  shows "requests t = requests c @ [StreamID mh] \<and> lastStreamID t = StreamID mh"
proof -
  have no: "(StreamID mh \<le> lastStreamID c) = False" using assms(2) by simp
  show ?thesis using assms(1) unfolding recv_request_def no if_False Let_def
    by (auto dest: start_work_ids simp: invalid_def split: outcome.splits prod.splits sum.splits)
qed

text \<open>What a received message does to the requests taken.\<close>

lemma recv_body_requests:
  assumes "recv_body E mh p None ctx_err pick c = Some t"
    and "Type mh = messageTypeRequest \<Longrightarrow> lastStreamID c < StreamID mh \<and> odd (unat (StreamID mh))"
  shows "requests t = requests c @ (if Type mh = messageTypeRequest then [StreamID mh] else []) \<and>
    lastStreamID t = (if Type mh = messageTypeRequest then StreamID mh else lastStreamID c)"
proof (cases "Type mh = messageTypeRequest")
  case True
  with assms odd_word have "recv_request E mh p ctx_err pick c = Some t"
    by (auto simp: recv_body_def messageType_defs)
  from taken_new_request [OF this] assms(2) True show ?thesis by simp
next
  case False
  with assms(1) have "calls_eq c t"
    using recv_data_message_eq [of "e_lib E" mh p ctx_err pick c t]
    by (auto simp: recv_body_def invalid_def calls_eq_def split: if_splits)
  with False show ?thesis by (simp add: calls_eq_def)
qed

lemma recv_body_failed: "recv_body E mh p (Some x) ctx_err pick c = Some t \<Longrightarrow> calls_eq c t"
  by (auto simp: recv_body_def calls_eq_def split: prod.splits if_splits outcome.splits)

definition link_requests :: "link \<Rightarrow> bool" where [inv_defs]:
  "link_requests s \<longleftrightarrow> length (cl_objs (ln_client s)) \<le> 2 ^ 31 \<longrightarrow>
     requests (ln_conn s) = request_ids (ln_up_got s) \<and>
     lastStreamID (ln_conn s) = (if request_ids (ln_up_got s) = [] then 0 else last (request_ids (ln_up_got s)))"

text \<open>The facts about the two ends on which the invariants of the link rest.\<close>

definition link_base :: "('c, 'f, 'g, 'i, 'j, 'm) conn_env \<Rightarrow> link \<Rightarrow> bool" where
  "link_base E s \<longleftrightarrow> link_reach E s \<and> status_lib_ok (e_lib E) \<and> link_inv E s"

lemma link_base_step: "link_base E s \<Longrightarrow> link_step E s ev = Some t \<Longrightarrow> link_base E t"
  unfolding link_base_def using link_reach_step link_inv_step by blast

lemma link_base_init: "status_lib_ok (e_lib E) \<Longrightarrow> fresh_writer wu \<Longrightarrow> fresh_writer wd \<Longrightarrow> link_base E (link0 wu wd)"
  by (simp add: link_base_def link_reach_init link_inv_init)

lemma link_baseD:
  assumes "link_base E s"
  shows "req_inv (ln_client s)" "prefix (ln_up_got s) (client_msgs (ln_client s))"
    "prefix (ln_down_got s) (server_msgs (e_proto E) (ln_conn s))" "hdl_inv (ln_conn s)" "ids_inv (ln_conn s)"
    "resp_inv (ln_conn s)"
proof -
  obtain es fs where r: "run (client_step (e_lib E)) client0 es = Some (ln_client s)" "run (conn_step E) conn0 fs = Some (ln_conn s)"
    using assms by (auto simp: link_base_def link_reach_def)
  show "req_inv (ln_client s)" by (rule client_req.inv_run [OF req_inv_init r(1)])
  show "hdl_inv (ln_conn s)" by (rule conn_hdl.inv_run [OF hdl_inv_init r(2)])
  show "ids_inv (ln_conn s)" by (rule conn_ids.inv_run [OF ids_inv_init r(2)])
  show "resp_inv (ln_conn s)" by (rule conn_resp.inv_run [OF resp_inv_init r(2)])
qed (use assms in \<open>simp_all add: link_base_def link_inv_def way_ok_def\<close>)

text \<open>The server's receive, and what every other step leaves alone.\<close>

lemma link_server_recv:
  assumes "link_step E s (ServerRecv e ctx_err pick) = Some t"
  obtains mh p err q where "conn_error e" "pipe_recv (e_lib E) e (ln_up s) = ((mh, p, err), q)"
    "conn_step E (ln_conn s) (RMessage mh p err ctx_err pick) = Some (ln_conn t)"
    "ln_up_got t = ln_up_got s @ got_message (mh, p, err)" "ln_client t = ln_client s"
  using assms by (auto simp del: conn_step.simps split: if_splits option.splits prod.splits)

lemma link_not_server_recv:
  assumes "link_step E s ev = Some t" "\<And>e c p. ev \<noteq> ServerRecv e c p"
  shows "ln_up_got t = ln_up_got s \<and>
    (ln_conn t = ln_conn s \<or> (\<exists>e. conn_step E (ln_conn s) e = Some (ln_conn t) \<and> (\<forall>mh p err c pk. e \<noteq> RMessage mh p err c pk)))"
proof (cases ev)
  case ServerSend
  with assms obtain r b where m: "mpc (ln_conn s) = MSend r b" by (auto split: main_pc.splits)
  then have "ln_conn t \<in> range (\<lambda>e. main_send (e_proto E) r b e (ln_conn s)) \<and> ln_up_got t = ln_up_got s"
    using assms ServerSend by (auto split: sum.splits prod.splits)
  then obtain e where "conn_step E (ln_conn s) (MSent e) = Some (ln_conn t)" "ln_up_got t = ln_up_got s"
    using m by (auto simp: image_iff)
  then show ?thesis by blast
qed (use assms in \<open>auto simp: client_sends_def server_local_def simp del: conn_step.simps client_step.simps
    split: if_splits option.splits caller_pc.splits prod.splits\<close>)

lemma link_objs: "link_step E s ev = Some t \<Longrightarrow> length (cl_objs (ln_client s)) \<le> length (cl_objs (ln_client t))"
  using link_client_step client_step_objs by (fastforce simp: objs_le_def)

lemma link_requests_step:
  assumes base: "link_base E s" and inv: "link_requests s" and st: "link_step E s ev = Some t"
  shows "link_requests t"
proof (cases "\<exists>e c p. ev = ServerRecv e c p")
  case False
  with link_not_server_recv [OF st] conn_step_ids have
    "ln_up_got t = ln_up_got s" "requests (ln_conn t) = requests (ln_conn s)" "lastStreamID (ln_conn t) = lastStreamID (ln_conn s)"
    by metis+
  with inv link_objs [OF st] show ?thesis by (simp add: link_requests_def)
next
  case True
  then obtain e ctx_err pick where ev: "ev = ServerRecv e ctx_err pick" by blast
  obtain mh p err q where r: "conn_step E (ln_conn s) (RMessage mh p err ctx_err pick) = Some (ln_conn t)"
    "ln_up_got t = ln_up_got s @ got_message (mh, p, err)" "ln_client t = ln_client s"
    by (rule link_server_recv [OF st [unfolded ev]])
  then have body: "recv_body E mh p err ctx_err pick (ln_conn s) = Some (ln_conn t)" by (auto split: if_splits)
  show ?thesis
  proof (cases err)
    case (Some x)
    with body recv_body_failed have "calls_eq (ln_conn s) (ln_conn t)" by blast
    with inv r Some show ?thesis by (simp add: link_requests_def calls_eq_def got_message_def)
  next
    case None
    show ?thesis unfolding link_requests_def
    proof
      assume few: "length (cl_objs (ln_client t)) \<le> 2 ^ 31"
      let ?last = "if request_ids (ln_up_got s) = [] then 0 else last (request_ids (ln_up_got s))"
      have old: "requests (ln_conn s) = request_ids (ln_up_got s)" "lastStreamID (ln_conn s) = ?last"
        using inv few r(3) by (simp_all add: link_requests_def)
      have ids: "request_ids (ln_up_got t) = request_ids (ln_up_got s) @ (if Type mh = messageTypeRequest then [StreamID mh] else [])"
        using r(2) None by (simp add: got_message_def)
      note base_t = link_baseD [OF link_base_step [OF base st]]
      note ord = request_ids_order [OF base_t(1) few base_t(2)]
      have "lastStreamID (ln_conn s) < StreamID mh \<and> odd (unat (StreamID mh))" if req: "Type mh = messageTypeRequest"
      proof
        show o: "odd (unat (StreamID mh))" using ord ids req by simp
        show "lastStreamID (ln_conn s) < StreamID mh"
        proof (cases "request_ids (ln_up_got s) = []")
          case True
          have "StreamID mh \<noteq> 0" using o by auto
          with True old show ?thesis by (simp add: word_greater_zero_iff)
        next
          case False
          with ord ids req old show ?thesis by (simp add: sorted_wrt_append)
        qed
      qed
      from recv_body_requests [OF body [unfolded None] this] old ids
      show "requests (ln_conn t) = request_ids (ln_up_got t) \<and>
        lastStreamID (ln_conn t) = (if request_ids (ln_up_got t) = [] then 0 else last (request_ids (ln_up_got t)))"
        by auto
    qed
  qed
qed


interpretation link_req: step_invariant "link_step E" "\<lambda>s. link_base E s \<and> link_requests s" for E
  by unfold_locales (blast intro: link_base_step link_requests_step)

lemma link_requests_init: "link_requests (link0 wu wd)"
  by (simp add: link_requests_def link0_def conn0_def)

section \<open>Answers\<close>

text \<open>A caller past its send has sent its request, with its own flags and data.\<close>

definition asked :: "client \<Rightarrow> nat \<Rightarrow> nat \<Rightarrow> bool" where
  "asked s k o' \<longleftrightarrow> (sid (cl_objs s ! o'), messageTypeRequest, k_flags (cl_callers s ! k), k_data (cl_callers s ! k)) \<in> set (cl_sent s)"

definition asked_inv :: "client \<Rightarrow> bool" where [inv_defs]:
  "asked_inv s \<longleftrightarrow> refs_ok s \<and>
     (\<forall>k o' r. caller_at s k = Some (KWait o') \<or> caller_at s k = Some (KOpen o') \<or> caller_at s k = Some (KDelete o' r) \<or>
        caller_at s k = Some (KClose o' r) \<longrightarrow> asked s k o')"

lemma asked_init: "asked_inv client0"
  using refs_ok_init by (simp add: asked_inv_def caller_at_def)

lemma set_caller_request [simp]:
  "k_flags (cl_callers (set_caller k pc s) ! j) = k_flags (cl_callers s ! j)"
  "k_data (cl_callers (set_caller k pc s) ! j) = k_data (cl_callers s ! j)"
  by (cases "j = k \<and> k < length (cl_callers s)"; force simp: set_caller_def nth_list_update list_update_beyond)+

text \<open>What a caller sends does not change, nor is anything sent taken back.\<close>

lemma client_step_asked:
  assumes "client_step L s e = Some t" "asked s k o'" "k < length (cl_callers s)" "o' < length (cl_objs s)"
  shows "asked t k o'"
proof -
  have "\<exists>fs. cl_sent t = cl_sent s @ fs" using client_le_step [OF assms(1)] by (simp add: client_le_def)
  moreover have "k_flags (cl_callers t ! k) = k_flags (cl_callers s ! k) \<and> k_data (cl_callers t ! k) = k_data (cl_callers s ! k)"
    using assms(1,3)
    by (cases e) (auto simp: nth_append k_failed_def client_Close_def close_obj_def
      loop_message_def add_stream_def delete_entry_def cleanupStreams_def Let_def
      split: if_splits option.splits caller_pc.splits run_pc.splits prod.splits)
  ultimately show ?thesis using assms(2) step_sid [OF assms(1,4)] by (auto simp: asked_def)
qed

text \<open>How a caller gets there.\<close>

lemma client_step_past_send:
  assumes st: "client_step L s e = Some t"
    and pc: "caller_at t k = Some pc" "pc \<in> {KWait o', KOpen o', KDelete o' r, KClose o' r}"
  shows "(\<exists>r'. caller_at s k \<in> Some ` {KWait o', KOpen o', KDelete o' r', KClose o' r'}) \<or>
    (\<exists>x. e = Sent k x \<and> caller_at s k = Some (KSend o') \<and> asked t k o')"
proof (cases e)
  case (NewCall u f d)
  with assms show ?thesis by (auto simp: caller_at_def nth_append split: if_splits)
next
  case (LoopRecv mh p err)
  with assms show ?thesis by (auto simp: loop_message_def close_obj_def split: if_splits option.splits)
next
  case (Sent j x)
  show ?thesis
  proof (cases "j = k")
    case True
    with Sent assms show ?thesis
      by (auto simp: asked_def k_failed_def Let_def split: if_splits option.splits caller_pc.splits dest: caller_at_Some_less)
  next
    case False
    with Sent assms show ?thesis by (auto simp: k_failed_def Let_def split: if_splits option.splits caller_pc.splits)
  qed
qed (use assms in \<open>auto simp: k_failed_def client_Close_def Let_def split: if_splits option.splits caller_pc.splits run_pc.splits prod.splits\<close>)

lemma asked_step:
  assumes inv: "asked_inv s" and st: "client_step L s e = Some t"
  shows "asked_inv t"
  unfolding asked_inv_def
proof (intro conjI allI impI)
  show "refs_ok t" using refs_ok_step [OF _ st] inv by (simp add: asked_inv_def)
next
  fix k o' r
  assume "caller_at t k = Some (KWait o') \<or> caller_at t k = Some (KOpen o') \<or> caller_at t k = Some (KDelete o' r) \<or> caller_at t k = Some (KClose o' r)"
  then obtain pc where "caller_at t k = Some pc" "pc \<in> {KWait o', KOpen o', KDelete o' r, KClose o' r}" by auto
  from client_step_past_send [OF st this] show "asked t k o'"
  proof (elim disjE exE conjE)
    fix r' assume old: "caller_at s k \<in> Some ` {KWait o', KOpen o', KDelete o' r', KClose o' r'}"
    then have "asked s k o'" using inv by (auto simp: asked_inv_def)
    moreover have "o' < length (cl_objs s)" using old inv refs_ok_callerD [of s k] by (auto simp: asked_inv_def)
    moreover have "k < length (cl_callers s)" using old caller_at_Some_less by blast
    ultimately show ?thesis using client_step_asked [OF st] by blast
  qed
qed

interpretation client_asked: step_invariant "client_step L" asked_inv for L
  by unfold_locales (rule asked_step)

text \<open>Every response written has a frame.\<close>

definition framed :: "'m proto_lib \<Rightarrow> sconn \<Rightarrow> bool" where [inv_defs]:
  "framed P c \<longleftrightarrow> (\<forall>x \<in> set (responses_sent c). \<exists>f. response_frame P (fst x) = Inr f)"

lemma framed_step:
  assumes "framed (e_proto E) c" "conn_step E c e = Some c'"
  shows "framed (e_proto E) c'"
proof (cases "\<exists>x. e = MSent x")
  case False
  with conn_step_sent [OF assms(2)] assms(1) show ?thesis by (simp add: framed_def)
next
  case True
  then obtain x r b where "c' = main_send (e_proto E) r b x c" using assms(2) by (auto split: main_pc.splits)
  with assms(1) show ?thesis
    by (auto simp: framed_def main_send_def conn_exit_def split: sum.splits prod.splits option.splits)
qed

interpretation conn_framed: step_invariant "conn_step E" "framed (e_proto E)" for E
  by unfold_locales (rule framed_step)

lemma response_frame_id: "response_frame P r = Inr (i, t, fl, p) \<Longrightarrow> i = resp_id r"
  by (auto simp: response_frame_def split: if_splits sum.splits)

text \<open>Every message inside the client is one that came down.\<close>

definition came_down :: "link \<Rightarrow> streamMessage \<Rightarrow> bool" where
  "came_down s m \<longleftrightarrow> (\<exists>x \<in> set (ln_down_got s). (header m, payload m, None) = received x)"

definition link_routed :: "link \<Rightarrow> bool" where [inv_defs]:
  "link_routed s \<longleftrightarrow> routed (came_down s) (ln_client s)"

lemma routed_mono: "routed Q c \<Longrightarrow> (\<And>m. Q m \<Longrightarrow> Q' m) \<Longrightarrow> routed Q' c"
  unfolding routed_def own_messages_def own_result_def
  by (auto split: caller_pc.splits read_result.splits)

lemma link_client_recv:
  assumes "link_step E s (ClientRecv e) = Some t"
  obtains mh p err q where "conn_error e" "pipe_recv (e_lib E) e (ln_down s) = ((mh, p, err), q)"
    "client_step (e_lib E) (ln_client s) (LoopRecv mh p err) = Some (ln_client t)"
    "ln_down_got t = ln_down_got s @ got_message (mh, p, err)" "client_reading (ln_client s)"
  using assms by (auto simp: client_reading_def split: if_splits option.splits prod.splits)

lemma link_not_client_recv:
  assumes "link_step E s ev = Some t" "\<And>e. ev \<noteq> ClientRecv e"
  shows "ln_down_got t = ln_down_got s \<and>
    (ln_client t = ln_client s \<or> (\<exists>e. client_step (e_lib E) (ln_client s) e = Some (ln_client t) \<and> (\<forall>mh p err. e \<noteq> LoopRecv mh p err)))"
proof (cases ev)
  case (ClientAct e)
  with assms(1) have "client_step (e_lib E) (ln_client s) e = Some (ln_client t)" "client_local e" "ln_down_got t = ln_down_got s"
    by (auto simp del: client_step.simps split: if_splits option.splits)
  moreover have "e \<noteq> LoopRecv mh p err" for mh p err using calculation(2) by (auto simp: client_local_def)
  ultimately show ?thesis by blast
next
  case (ClientRequest k)
  with assms(1) obtain x where "client_step (e_lib E) (ln_client s) (Sent k x) = Some (ln_client t)" "ln_down_got t = ln_down_got s"
    by (auto simp: client_sends_def simp del: client_step.simps split: option.splits caller_pc.splits prod.splits)
  then show ?thesis by blast
next
  case (ClientData k fl p)
  with assms(1) obtain x where "client_step (e_lib E) (ln_client s) (UserSend k fl p x) = Some (ln_client t)" "ln_down_got t = ln_down_got s"
    by (auto simp: client_sends_def simp del: client_step.simps split: option.splits caller_pc.splits prod.splits)
  then show ?thesis by blast
qed (use assms in \<open>auto simp del: conn_step.simps split: if_splits option.splits main_pc.splits sum.splits prod.splits\<close>)

lemma link_routed_step:
  assumes base: "link_base E s" and inv: "link_routed s" and st: "link_step E s ev = Some t"
  shows "link_routed t"
proof (cases "\<exists>e. ev = ClientRecv e")
  case False
  then have n: "\<And>e. ev \<noteq> ClientRecv e" by blast
  note D = link_not_client_recv [OF st n]
  then have eq: "came_down t = came_down s" by (simp add: came_down_def fun_eq_iff)
  from D show ?thesis
  proof (elim conjE disjE exE)
    fix e assume e: "client_step (e_lib E) (ln_client s) e = Some (ln_client t)" "\<forall>mh p err. e \<noteq> LoopRecv mh p err"
    show ?thesis unfolding link_routed_def eq
      by (rule routed_step [OF inv [unfolded link_routed_def] e(1)]) (use e(2) in blast)
  qed (use inv eq in \<open>simp add: link_routed_def\<close>)
next
  case True
  then obtain e where ev: "ev = ClientRecv e" by blast
  obtain mh p err q where r: "pipe_recv (e_lib E) e (ln_down s) = ((mh, p, err), q)"
    "client_step (e_lib E) (ln_client s) (LoopRecv mh p err) = Some (ln_client t)"
    "ln_down_got t = ln_down_got s @ got_message (mh, p, err)" "client_reading (ln_client s)"
    by (rule link_client_recv [OF st [unfolded ev]])
  have "routed (came_down t) (ln_client s)"
    by (rule routed_mono [OF inv [unfolded link_routed_def]]) (auto simp: came_down_def r(3))
  then show ?thesis unfolding link_routed_def
  proof (rule routed_step [OF _ r(2)])
    fix mh' p'
    assume "LoopRecv mh p err = LoopRecv mh' p' None"
    then have eq: "mh' = mh" "p' = p" "err = None" by simp_all
    have "pipe_ok (server_msgs (e_proto E) (ln_conn s)) (ln_down_got s) (ln_down s)"
      using base r(4) by (simp add: link_base_def link_inv_def way_ok_def)
    from pipe_ok_recv [OF this r(1) [unfolded eq(3)]] obtain m where m: "(mh, p, None) = received m" by blast
    from received_inverse [OF m] have "got_message (mh, p, None) = [m]" by (simp add: got_message_def)
    with m eq r(3) show "came_down t \<lparr>header = mh', payload = p'\<rparr>" by (auto simp: came_down_def)
  qed
qed

interpretation link_route: step_invariant "link_step E" "\<lambda>s. link_base E s \<and> link_routed s" for E
  by unfold_locales (blast intro: link_base_step link_routed_step)

lemma link_routed_init: "link_routed (link0 wu wd)"
  using routed_init by (simp add: link_routed_def link0_def)

section \<open>Crashes\<close>

text \<open>A nil entry of the table belongs to a call of a unary method.\<close>

definition unary_call :: "sconn \<Rightarrow> u32 \<Rightarrow> bool" where
  "unary_call c i \<longleftrightarrow> (\<exists>w \<in> set (workers c). w_id w = i \<and> w_handler w = None)"

definition nil_inv :: "sconn \<Rightarrow> bool" where [inv_defs]:
  "nil_inv c \<longleftrightarrow> (\<forall>i. streams c i = Some None \<or> rpc c = RStore i None \<longrightarrow> unary_call c i)"

definition worker_keys :: "sconn \<Rightarrow> (u32 \<times> nat option) list" where
  "worker_keys c = map (\<lambda>w. (w_id w, w_handler w)) (workers c)"

lemma unary_call_keys: "unary_call c i \<longleftrightarrow> (i, None) \<in> set (worker_keys c)"
  by (auto simp: unary_call_def worker_keys_def image_iff)

lemma worker_keys_set_worker [simp]: "worker_keys (set_worker i pc c) = worker_keys c"
  unfolding worker_keys_def set_worker_def
  by (cases "i < length (workers c)") (simp_all add: map_update list_update_beyond, metis (no_types, lifting) length_map list_update_id nth_map)

text \<open>Only a message that arrives adds a call.\<close>

lemma conn_step_keys_same:
  assumes "conn_step E s e = Some t" "\<And>mh p err ctx_err pick. e \<noteq> RMessage mh p err ctx_err pick"
  shows "worker_keys t = worker_keys s"
proof (cases e)
  case (RWaitData ctx_err pick)
  with assms(1) have "calls_eq s t" by (auto dest!: recv_data_eq split: recv_pc.splits)
  then show ?thesis by (simp add: worker_keys_def calls_eq_def)
next
  case (MSent x)
  with assms(1) obtain r b where "t = main_send (e_proto E) r b x s" by (auto split: main_pc.splits)
  then show ?thesis by (simp add: worker_keys_def)
next
  case (MTakeWorker i)
  with assms(1) obtain r where "t = (set_worker i (after_response r) s)\<lparr>mpc := MSend r False\<rparr>"
    by (auto split: main_pc.splits if_splits worker_pc.splits)
  moreover have "worker_keys (c\<lparr>mpc := m\<rparr>) = worker_keys c" for c m by (simp add: worker_keys_def)
  ultimately show ?thesis by simp
next
  case MTakeErr
  with assms(1) have "workers t = workers s"
    by (auto simp: conn_exit_def Let_def split: main_pc.splits if_splits outcome.splits option.splits prod.splits)
  then show ?thesis by (simp add: worker_keys_def)
next
  case (WRecv i)
  with assms(1) have "workers t = workers s" by (auto split: if_splits outcome.splits option.splits prod.splits)
  then show ?thesis by (simp add: worker_keys_def)
next
  case (WFinish i st p)
  with assms(1) show ?thesis by (auto split: if_splits)
next
  case (WSend i p)
  with assms(1) show ?thesis by (auto split: if_splits)
next
  case (WAbort i)
  with assms(1) show ?thesis by (auto split: if_splits worker_pc.splits)
qed (use assms in \<open>auto simp: worker_keys_def conn_close_def main_guard_def conn_exit_def conn_return_def
    split: if_splits main_pc.splits recv_pc.splits bool.splits\<close>)

lemma conn_step_keys:
  assumes "conn_step E s e = Some t"
  shows "prefix (worker_keys s) (worker_keys t)"
proof (cases "\<exists>mh p err ctx_err pick. e = RMessage mh p err ctx_err pick")
  case True
  then obtain mh p err ctx_err pick where "recv_body E mh p err ctx_err pick s = Some t"
    using assms by (auto split: if_splits)
  from recv_body_eq [OF this] show ?thesis by (auto simp: worker_keys_def calls_eq_def call_started_def)
next
  case False
  with conn_step_keys_same [OF assms] show ?thesis by auto
qed

lemma unary_call_step: "conn_step E s e = Some t \<Longrightarrow> unary_call s i \<Longrightarrow> unary_call t i"
  unfolding unary_call_keys using set_mono_prefix [OF conn_step_keys] by blast

text \<open>The entries of the table come from requests.\<close>

lemma recv_body_store:
  assumes "recv_body E mh p err ctx_err pick s = Some t" "rpc t = RStore i None"
  shows "unary_call t i"
proof -
  have st: "recv_request E mh p ctx_err pick s = Some t"
  proof (rule ccontr)
    assume no: "\<not> ?thesis"
    have "no_add (rpc t)"
      using assms(1) no recv_data_message_eq [of "e_lib E" mh p ctx_err pick s t]
      by (auto simp: recv_body_def invalid_def calls_eq_def split: option.splits prod.splits if_splits outcome.splits)
    with assms(2) show False by simp
  qed
  from st show ?thesis
  proof (cases rule: recv_request_cases)
    case (started h' w sh s2 ref)
    from started(2,3,4) assms(2) show ?thesis
      by (auto simp: start_work_def unary_call_def split: work.splits)
  qed (use assms(2) in \<open>simp_all add: invalid_def\<close>)
qed

lemma nil_inv_step:
  assumes inv: "nil_inv s" and st: "conn_step E s e = Some t"
  shows "nil_inv t"
proof -
  have "unary_call t i" if i: "streams t i = Some None \<or> rpc t = RStore i None" for i
  proof (cases "streams s i = Some None \<or> rpc s = RStore i None")
    case True
    with inv unary_call_step [OF st] show ?thesis unfolding nil_inv_def by blast
  next
    case False
    show ?thesis
    proof (cases "\<exists>mh p err ctx_err pick. e = RMessage mh p err ctx_err pick")
      case True
      then obtain mh p err ctx_err pick where body: "recv_body E mh p err ctx_err pick s = Some t"
        using st by (auto split: if_splits)
      have "streams t = streams s" using recv_body_eq [OF body] by (auto simp: recv_frame_eq_def)
      with i False recv_body_store [OF body] show ?thesis by simp
    next
      case no: False
      have "streams t i \<noteq> Some None \<and> rpc t \<noteq> RStore i None"
      proof (cases "handler_event e")
        case True
        with st no False show ?thesis
        proof (cases e)
          case (RWaitData c pk)
          with st have "recv_frame_eq s t \<and> calls_eq s t" by (auto dest!: recv_data_eq split: recv_pc.splits)
          with False show ?thesis by (auto simp: recv_frame_eq_def calls_eq_def)
        qed (auto simp: handler_event_def split: if_splits recv_pc.splits main_pc.splits option.splits outcome.splits prod.splits)
      next
        case quiet: False
        from conn_step_no_handler [OF st quiet] False show ?thesis by auto
      qed
      with i show ?thesis by blast
    qed
  qed
  then show ?thesis by (simp add: nil_inv_def)
qed

interpretation conn_nil: step_invariant "conn_step E" nil_inv for E
  by unfold_locales (rule nil_inv_step)

lemma nil_inv_init: "nil_inv conn0"
  by (simp add: nil_inv_def conn0_def)

definition link_crash :: "link \<Rightarrow> bool" where [inv_defs]:
  "link_crash s \<longleftrightarrow> (rpc (ln_conn s) = RPanic \<longrightarrow>
     (\<exists>m \<in> set (ln_up_got s). fst (snd m) = messageTypeData \<and> unary_call (ln_conn s) (fst m)))"

lemma link_nil_inv: "link_base E s \<Longrightarrow> nil_inv (ln_conn s)"
  unfolding link_base_def link_reach_def using conn_nil.inv_run [OF nil_inv_init] by blast

lemma link_crash_step:
  assumes base: "link_base E s" and inv: "link_crash s" and st: "link_step E s ev = Some t"
  shows "link_crash t"
proof (cases "rpc (ln_conn t) = RPanic")
  case panic: True
  have hdl: "hdl_inv (ln_conn s)" by (rule link_baseD(4) [OF base])
  show ?thesis
  proof (cases "\<exists>e c p. ev = ServerRecv e c p")
    case True
    then obtain e ctx_err pick where ev: "ev = ServerRecv e ctx_err pick" by blast
    obtain mh p err q where r: "conn_step E (ln_conn s) (RMessage mh p err ctx_err pick) = Some (ln_conn t)"
      "ln_up_got t = ln_up_got s @ got_message (mh, p, err)"
      by (rule link_server_recv [OF st [unfolded ev]])
    have "rpc (ln_conn s) \<noteq> RPanic" using r(1) by (auto split: if_splits)
    with conn_step_hdl [OF hdl r(1)] panic have n: "nil_dereference (ln_conn s) (RMessage mh p err ctx_err pick)" by blast
    then have "unary_call (ln_conn s) (StreamID mh)"
      using link_nil_inv [OF base] by (auto simp: nil_inv_def nil_dereference_def)
    with unary_call_step [OF r(1)] n r(2) show ?thesis
      by (auto simp: link_crash_def nil_dereference_def got_message_def)
  next
    case False
    note D = link_not_server_recv [OF st]
    from False D have got: "ln_up_got t = ln_up_got s" by blast
    from False D have "ln_conn t = ln_conn s \<or> (\<exists>e. conn_step E (ln_conn s) e = Some (ln_conn t) \<and> (\<forall>mh p err c pk. e \<noteq> RMessage mh p err c pk))"
      by blast
    then show ?thesis
    proof (elim disjE exE conjE)
      assume "ln_conn t = ln_conn s"
      with inv got show ?thesis by (simp add: link_crash_def)
    next
      fix e assume e: "conn_step E (ln_conn s) e = Some (ln_conn t)" "\<forall>mh p err c pk. e \<noteq> RMessage mh p err c pk"
      then have "\<not> nil_dereference (ln_conn s) e" by (cases e) (simp_all add: nil_dereference_def)
      with conn_step_hdl [OF hdl e(1)] panic have "rpc (ln_conn s) = RPanic" by blast
      with inv got unary_call_step [OF e(1)] show ?thesis by (auto simp: link_crash_def)
    qed
  qed
qed (simp add: link_crash_def)

interpretation link_crash: step_invariant "link_step E" "\<lambda>s. link_base E s \<and> link_crash s" for E
  by unfold_locales (blast intro: link_base_step link_crash_step)

lemma link_crash_init: "link_crash (link0 wu wd)"
  by (simp add: link_crash_def link0_def conn0_def)

section \<open>Properties\<close>

text \<open>What every link run from fresh connections satisfies.\<close>

lemma link_run_facts:
  assumes "status_lib_ok (e_lib E)" "fresh_writer wu" "fresh_writer wd" "run (link_step E) (link0 wu wd) es = Some s"
  shows "link_base E s" "link_requests s" "link_routed s" "link_crash s" "asked_inv (ln_client s)" "framed (e_proto E) (ln_conn s)"
proof -
  have base0: "link_base E (link0 wu wd)" by (rule link_base_init [OF assms(1-3)])
  show b: "link_base E s" and "link_requests s"
    using link_req.inv_run [OF conjI [OF base0 link_requests_init] assms(4)] by blast+
  show "link_routed s" using link_route.inv_run [OF conjI [OF base0 link_routed_init] assms(4)] by blast
  show "link_crash s" using link_crash.inv_run [OF conjI [OF base0 link_crash_init] assms(4)] by blast
  obtain fs gs where r: "run (client_step (e_lib E)) client0 fs = Some (ln_client s)" "run (conn_step E) conn0 gs = Some (ln_conn s)"
    using b by (auto simp: link_base_def link_reach_def)
  show "asked_inv (ln_client s)" by (rule client_asked.inv_run [OF asked_init r(1)])
  show "framed (e_proto E) (ln_conn s)"
    by (rule conn_framed.inv_run [OF _ r(2)]) (simp add: framed_def conn0_def)
qed

text \<open>The next message that was sent and not received yet is the one \<open>recv\<close> returns.\<close>

lemma pipe_next:
  assumes ok: "pipe_ok ms rcvd q" and more: "length rcvd < length ms"
  shows "fst (pipe_recv L e q) = received (ms ! length rcvd)"
proof -
  obtain rst where ms: "ms = rcvd @ rst" using ok by (auto simp: pipe_ok_def elim: prefixE)
  with more obtain m rst' where rst: "rst = m # rst'" by (cases rst) auto
  obtain i t flags b where m: "m = (i, t, flags, b)" by (cases m)
  obtain torn where out: "sent (p_out q) = wire_bytes ms @ torn"
    using ok unfolding pipe_ok_def out_ok_def by (metis append.right_neutral)
  let ?r = "\<lparr>rbytes = frame_of m @ wire_bytes rst' @ torn, rerr = e\<rparr>"
  have rd: "drop (p_read q) (sent (p_out q)) = rbytes ?r" using ok by (simp add: out ms rst pipe_ok_def)
  have "valid_message m" using ok by (simp add: pipe_ok_def out_ok_def ms rst)
  then have "recv L ?r = (received m, ?r\<lparr>rbytes := wire_bytes rst' @ torn\<rparr>)"
    using recv_frame [of b ?r i t flags "wire_bytes rst' @ torn" L] by (simp add: m)
  with rd ms rst show ?thesis by (simp add: pipe_recv_def split: prod.splits)
qed

text \<open>
  C1: Client and server over one network connection get each other's messages. In every run of the
  two, whatever the scheduler does, however much the network accepts before it fails and whenever
  a read fails: each end runs as it does alone, so that the properties of its runs hold; what the
  server received is a prefix of the messages the client sent, and what the client received a
  prefix of those the server sent; and as long as an end still receives, its next \<open>recv\<close> returns
  exactly the next message sent to it that it has not received.
\<close>

theorem link_delivers:
  assumes "status_lib_ok (e_lib E)" "fresh_writer wu" "fresh_writer wd" "run (link_step E) (link0 wu wd) es = Some s"
  shows "(\<exists>fs. run (client_step (e_lib E)) client0 fs = Some (ln_client s)) \<and>
    (\<exists>gs. run (conn_step E) conn0 gs = Some (ln_conn s)) \<and>
    prefix (ln_up_got s) (client_msgs (ln_client s)) \<and>
    prefix (ln_down_got s) (server_msgs (e_proto E) (ln_conn s)) \<and>
    (rpc (ln_conn s) \<noteq> RExit \<and> length (ln_up_got s) < length (client_msgs (ln_client s)) \<longrightarrow>
       fst (pipe_recv (e_lib E) e (ln_up s)) = received (client_msgs (ln_client s) ! length (ln_up_got s))) \<and>
    (client_reading (ln_client s) \<and> length (ln_down_got s) < length (server_msgs (e_proto E) (ln_conn s)) \<longrightarrow>
       fst (pipe_recv (e_lib E) e (ln_down s)) = received (server_msgs (e_proto E) (ln_conn s) ! length (ln_down_got s)))"
proof -
  have base: "link_base E s" by (rule link_run_facts(1) [OF assms])
  then have "way_ok (client_msgs (ln_client s)) (ln_up_got s) (rpc (ln_conn s) \<noteq> RExit) (ln_up s)"
    "way_ok (server_msgs (e_proto E) (ln_conn s)) (ln_down_got s) (client_reading (ln_client s)) (ln_down s)"
    by (simp_all add: link_base_def link_inv_def)
  with pipe_next have
    "rpc (ln_conn s) \<noteq> RExit \<and> length (ln_up_got s) < length (client_msgs (ln_client s)) \<longrightarrow>
       fst (pipe_recv (e_lib E) e (ln_up s)) = received (client_msgs (ln_client s) ! length (ln_up_got s))"
    "client_reading (ln_client s) \<and> length (ln_down_got s) < length (server_msgs (e_proto E) (ln_conn s)) \<longrightarrow>
       fst (pipe_recv (e_lib E) e (ln_down s)) = received (server_msgs (e_proto E) (ln_conn s) ! length (ln_down_got s))"
    unfolding way_ok_def by blast+
  with base link_baseD(2,3) [OF base] show ?thesis by (simp add: link_base_def link_reach_def)
qed

text \<open>
  C11: The server takes every request of the client. In every run of client and server over one
  connection with at most \<open>2 ^ 31\<close> streams, the requests the server has recorded are exactly the
  requests it received, in the order the client wrote them: none is refused for its id.
\<close>

theorem link_requests_taken:
  assumes "status_lib_ok (e_lib E)" "fresh_writer wu" "fresh_writer wd" "run (link_step E) (link0 wu wd) es = Some s"
    and "length (cl_objs (ln_client s)) \<le> 2 ^ 31"
  shows "requests (ln_conn s) = request_ids (ln_up_got s) \<and>
    prefix (requests (ln_conn s)) (request_ids (client_msgs (ln_client s)))"
proof -
  have "requests (ln_conn s) = request_ids (ln_up_got s)"
    using link_run_facts(2) [OF assms(1-4)] assms(5) by (simp add: link_requests_def)
  moreover have "prefix (ln_up_got s) (client_msgs (ln_client s))" by (rule link_baseD(2) [OF link_run_facts(1) [OF assms(1-4)]])
  ultimately show ?thesis by (auto simp: prefix_def)
qed

text \<open>The request of an id is unique among the messages sent.\<close>

lemma request_unique:
  assumes "req_inv c" "length (cl_objs c) \<le> 2 ^ 31"
    and "(i, messageTypeRequest, x) \<in> set (client_msgs c)" "(i, messageTypeRequest, y) \<in> set (client_msgs c)"
  shows "x = y"
proof -
  let ?reqs = "filter (\<lambda>m. fst (snd m) = messageTypeRequest) (client_msgs c)"
  have "sorted_wrt (<) (map fst ?reqs)"
    using request_ids_order [OF assms(1,2) prefix_order.refl] by (simp add: request_ids_def)
  then have "distinct (map fst ?reqs)" by (rule strict_sorted_iff [THEN iffD1, THEN conjunct2])
  moreover have "(i, messageTypeRequest, x) \<in> set ?reqs" "(i, messageTypeRequest, y) \<in> set ?reqs" using assms(3,4) by simp_all
  ultimately show ?thesis by (meson eq_key_imp_eq_value prod.inject)
qed

text \<open>A call from end to end: the request goes up, the method answers, the answer comes down.\<close>

definition link_call_up :: "bool \<Rightarrow> byte \<Rightarrow> bytes \<Rightarrow> link_event list" where
  "link_call_up unary flags p =
     [ClientAct (NewCall unary flags p), ClientAct (Lock 0), ClientAct (Check 0), ClientAct (Register 0), ClientRequest 0,
      ServerAct (RGuard False), ServerRecv IoEOF None DataSend, ServerAct RDoStore, ServerAct RDoAdd]"

definition link_run1 :: "link_event list" where
  "link_run1 = link_call_up True 0 (Some [0]) @
     [ServerAct (WFinish 0 None (Some [5])), ServerAct MGuard, ServerAct (MTakeWorker 0), ServerSend,
      ClientAct LoopGuard, ClientRecv IoEOF, ClientAct (LoopReceive PickDefault), ClientAct (LoopReceive PickSend),
      ClientAct (Wait 0 (WaitRead ReadMessage))]"

definition link_run2 :: "link_event list" where
  "link_run2 = link_call_up False flagRemoteOpen (Some [0]) @
     [ClientData 0 0 (Some [1]), ServerAct (RGuard False), ServerRecv IoEOF None DataSend]"

text \<open>Frames on a connection that does not fail, one or two of them.\<close>

definition calm_writer :: "byte list \<Rightarrow> writer" where
  "calm_writer bs = \<lparr>sent = bs, room = None, wfail = Errno EPIPE, wbuf = [], werr = None\<rparr>"

definition calm_link :: link where
  "calm_link = link0 (calm_writer []) (calm_writer [])"

lemma fresh_calm: "fresh_writer (calm_writer [])"
  by (simp add: fresh_writer_def writer_clean_def calm_writer_def)

lemma send_calm:
  assumes "length (bytes_of p) \<le> 2"
  shows "send i t flags p (calm_writer bs) = (None, calm_writer (bs @ frame i t flags (bytes_of p)))"
  using assms
  by (simp add: send_body messageLengthMax_def bufio_write.simps bufio_size_def bufio_flush_def conn_write_def
      calm_writer_def frame_def messageHeaderLength_def)

lemma pipe_recv_calm:
  assumes "length b \<le> 2"
  shows "pipe_recv L e \<lparr>p_out = calm_writer (frame i t flags b), p_read = 0\<rparr> =
      (received (i, t, flags, b), \<lparr>p_out = calm_writer (frame i t flags b), p_read = messageHeaderLength + length b\<rparr>)"
    "n = length (frame i' t' flags' b') \<Longrightarrow>
     pipe_recv L e \<lparr>p_out = calm_writer (frame i' t' flags' b' @ frame i t flags b), p_read = n\<rparr> =
      (received (i, t, flags, b),
       \<lparr>p_out = calm_writer (frame i' t' flags' b' @ frame i t flags b), p_read = n + messageHeaderLength + length b\<rparr>)"
  using assms recv_frame [of b "\<lparr>rbytes = frame i t flags b, rerr = e\<rparr>" i t flags "[]" L]
  by (simp_all add: pipe_recv_def calm_writer_def messageLengthMax_def)

lemmas link_eval = link0_def calm_link_def client_sends_def pipe_send_def send_calm pipe_recv_calm client_local_def server_local_def
  conn_error_def is_status_error_def got_message_def client_eval conn_eval receive_step_def receive_branch_def
  read_select_def read_message_def cl_ctx_def loop_message_def getStream_def wait_select_def

lemma link_run1_result:
  "\<exists>s m. run (link_step demo_env) calm_link link_run1 = Some s \<and> length (cl_objs (ln_client s)) = 1 \<and>
     caller_at (ln_client s) 0 = Some (KDelete 0 (GotMsg m))"
  by (simp add: link_run1_def link_call_up_def link_eval messageHeaderLength_def)

lemma link_run2_result:
  "\<exists>s. run (link_step demo_env) calm_link link_run2 = Some s \<and> rpc (ln_conn s) = RPanic"
  by (simp add: link_run2_def link_call_up_def link_eval messageHeaderLength_def flagRemoteOpen_def)

theorem link_delivers_witness:
  "\<exists>s. run (link_step demo_env) calm_link link_run1 = Some s \<and>
     prefix (ln_down_got s) (server_msgs (e_proto demo_env) (ln_conn s)) \<and>
     (\<exists>fs. run (client_step (e_lib demo_env)) client0 fs = Some (ln_client s))"
proof -
  obtain s where s: "run (link_step demo_env) calm_link link_run1 = Some s" using link_run1_result by blast
  have "status_lib_ok (e_lib demo_env)" using example_status_lib_ok by (simp add: demo_env_def)
  from link_delivers [OF this fresh_calm fresh_calm s [unfolded calm_link_def]] s show ?thesis by blast
qed

theorem link_requests_taken_witness:
  "\<exists>s. run (link_step demo_env) calm_link link_run1 = Some s \<and> requests (ln_conn s) = request_ids (ln_up_got s)"
proof -
  obtain s where s: "run (link_step demo_env) calm_link link_run1 = Some s" "length (cl_objs (ln_client s)) = 1"
    using link_run1_result by blast
  have "status_lib_ok (e_lib demo_env)" using example_status_lib_ok by (simp add: demo_env_def)
  from link_requests_taken [OF this fresh_calm fresh_calm s(1) [unfolded calm_link_def]] s show ?thesis by simp
qed

text \<open>
  A caller gets the answer to its own request. In every run of client and server over one
  connection, when a caller has taken a message, the server wrote a response for the caller's
  stream whose frame is exactly that message, and the caller had written its own request there;
  with at most \<open>2 ^ 31\<close> streams, if the response is that of a call, the call was started by the
  request with this caller's flags and payload, which the server received.
\<close>

theorem calls_get_their_answers:
  assumes "status_lib_ok (e_lib E)" "fresh_writer wu" "fresh_writer wd" "run (link_step E) (link0 wu wd) es = Some s"
    and "caller_at (ln_client s) k = Some (KDelete o' (GotMsg m))"
  shows "\<exists>r from_status t flags p. (r, from_status) \<in> set (responses_sent (ln_conn s)) \<and>
    resp_id r = sid (cl_objs (ln_client s) ! o') \<and> response_frame (e_proto E) r = Inr (resp_id r, t, flags, p) \<and>
    (header m, payload m, None) = received (resp_id r, t, flags, bytes_of p) \<and> asked (ln_client s) k o' \<and>
    (\<not> from_status \<and> length (cl_objs (ln_client s)) \<le> 2 ^ 31 \<longrightarrow>
       resp_id r \<in> set (map w_id (workers (ln_conn s))) \<and>
       (\<forall>x. (resp_id r, messageTypeRequest, x) \<in> set (ln_up_got s) \<longleftrightarrow>
          x = (k_flags (cl_callers (ln_client s) ! k), bytes_of (k_data (cl_callers (ln_client s) ! k)))))"
proof -
  note F = link_run_facts [OF assms(1-4)]
  note B = link_baseD [OF F(1)]
  let ?c = "ln_client s" and ?v = "ln_conn s"
  have "own_result (came_down s) ?c (KDelete o' (GotMsg m))" using F(3) assms(5) by (simp add: link_routed_def routed_def)
  then have m: "StreamID (header m) = sid (cl_objs ?c ! o')" "came_down s m" by (simp_all add: own_result_def)
  have asked: "asked ?c k o'" using F(5) assms(5) by (simp add: asked_inv_def)
  obtain x where x: "x \<in> set (ln_down_got s)" "(header m, payload m, None) = received x"
    using m(2) by (auto simp: came_down_def)
  then have "x \<in> set (server_msgs (e_proto E) ?v)" using B(3) set_mono_prefix by blast
  then obtain r b where r: "(r, b) \<in> set (responses_sent ?v)" "x = wire_msg (projr (response_frame (e_proto E) r))"
    by (auto simp: server_msgs_def)
  then obtain i t fl p where f: "response_frame (e_proto E) r = Inr (i, t, fl, p)"
    using F(6) by (fastforce simp: framed_def)
  have i: "i = resp_id r" by (rule response_frame_id [OF f])
  have x2: "(header m, payload m, None) = received (resp_id r, t, fl, bytes_of p)"
    using x(2) r(2) f i by (simp add: wire_msg_def)
  from received_inverse [OF x2] m(1) have id: "resp_id r = sid (cl_objs ?c ! o')" by simp
  have call: "resp_id r \<in> set (map w_id (workers ?v)) \<and>
      (\<forall>x. (resp_id r, messageTypeRequest, x) \<in> set (ln_up_got s) \<longleftrightarrow> x = (k_flags (cl_callers ?c ! k), bytes_of (k_data (cl_callers ?c ! k))))"
    if nb: "\<not> b" and few: "length (cl_objs ?c) \<le> 2 ^ 31"
  proof
    have "r \<in> set (call_responses ?v)" using r(1) nb by (force simp: call_responses_def)
    with B(6) show w: "resp_id r \<in> set (map w_id (workers ?v))" by (simp add: resp_inv_def)
    with B(5) have "resp_id r \<in> set (requests ?v)" by (auto simp: ids_inv_def)
    with F(2) few have "resp_id r \<in> set (request_ids (ln_up_got s))" by (simp add: link_requests_def)
    then obtain y where y: "(resp_id r, messageTypeRequest, y) \<in> set (ln_up_got s)"
      by (auto simp: request_ids_def)
    have mine: "(resp_id r, messageTypeRequest, k_flags (cl_callers ?c ! k), bytes_of (k_data (cl_callers ?c ! k))) \<in> set (client_msgs ?c)"
      using asked id by (force simp: asked_def client_msgs_def wire_msg_def)
    have sub: "set (ln_up_got s) \<subseteq> set (client_msgs ?c)" by (rule set_mono_prefix [OF B(2)])
    note u = request_unique [OF B(1) few _ mine]
    from y u sub show "\<forall>x. (resp_id r, messageTypeRequest, x) \<in> set (ln_up_got s) \<longleftrightarrow>
        x = (k_flags (cl_callers ?c ! k), bytes_of (k_data (cl_callers ?c ! k)))"
      by blast
  qed
  show ?thesis
    by (intro exI [of _ r] exI [of _ b] exI [of _ t] exI [of _ fl] exI [of _ p]) (use r(1) id f i x2 asked call in simp)
qed

theorem calls_get_their_answers_witness:
  "\<exists>s m r b. run (link_step demo_env) calm_link link_run1 = Some s \<and>
     caller_at (ln_client s) 0 = Some (KDelete 0 (GotMsg m)) \<and> (r, b) \<in> set (responses_sent (ln_conn s)) \<and>
     resp_id r = StreamID (header m)"
proof -
  obtain s m where s: "run (link_step demo_env) calm_link link_run1 = Some s"
    "caller_at (ln_client s) 0 = Some (KDelete 0 (GotMsg m))"
    using link_run1_result by blast
  have "status_lib_ok (e_lib demo_env)" using example_status_lib_ok by (simp add: demo_env_def)
  from calls_get_their_answers [OF this fresh_calm fresh_calm s(1) [unfolded calm_link_def] s(2)]
  obtain r b t flags p where r: "(r, b) \<in> set (responses_sent (ln_conn s))"
    "(header m, payload m, None) = received (resp_id r, t, flags, bytes_of p)"
    by blast
  from received_inverse [OF r(2)] have "resp_id r = StreamID (header m)" by simp
  with s r(1) show ?thesis by blast
qed

text \<open>
  What a client can do to its server. In every run of client and server over one connection,
  the server's receive goroutine has crashed only if the client wrote, and the server received, a
  data message on a stream whose call is of a unary method; so a client that sends no data cannot
  crash it.
\<close>

theorem client_crashes_server_by_data:
  assumes "status_lib_ok (e_lib E)" "fresh_writer wu" "fresh_writer wd" "run (link_step E) (link0 wu wd) es = Some s"
    and "rpc (ln_conn s) = RPanic"
  shows "\<exists>x \<in> set (ln_up_got s) \<inter> set (client_msgs (ln_client s)).
    fst (snd x) = messageTypeData \<and> unary_call (ln_conn s) (fst x)"
proof -
  note F = link_run_facts [OF assms(1-4)]
  have "set (ln_up_got s) \<subseteq> set (client_msgs (ln_client s))" by (rule set_mono_prefix [OF link_baseD(2) [OF F(1)]])
  with F(4) assms(5) show ?thesis by (auto simp: link_crash_def)
qed

text \<open>The client's own interface is enough: \<open>NewStream\<close> on a unary method, then \<open>SendMsg\<close>.\<close>

theorem client_crashes_server_by_data_witness:
  "\<exists>s. run (link_step demo_env) calm_link link_run2 = Some s \<and> rpc (ln_conn s) = RPanic \<and>
     (\<exists>x \<in> set (client_msgs (ln_client s)). unary_call (ln_conn s) (fst x))"
proof -
  obtain s where s: "run (link_step demo_env) calm_link link_run2 = Some s" "rpc (ln_conn s) = RPanic"
    using link_run2_result by blast
  have "status_lib_ok (e_lib demo_env)" using example_status_lib_ok by (simp add: demo_env_def)
  from client_crashes_server_by_data [OF this fresh_calm fresh_calm s(1) [unfolded calm_link_def] s(2)] s show ?thesis by blast
qed

end
