(* ===== verification/LinkStreams.thy ===== *)
theory LinkStreams
  imports LinkCalls
begin

text \<open>
  The data of streams in the runs of theory \<open>LinkRuns\<close>: what the handlers of the server read on a
  stream is, in order, what the client sent there.
\<close>

section \<open>The data of a stream\<close>

text \<open>
  What a message says to the handler of its stream: a request the payload it decodes to, a data
  message its own.
\<close>

definition msg_data :: "'m proto_lib \<Rightarrow> message \<Rightarrow> bytes list" where
  "msg_data P m =
     (case received m of
        (mh, p, e) \<Rightarrow>
          if Type mh = messageTypeRequest then (case uRequest P p of Inl _ \<Rightarrow> [] | Inr req \<Rightarrow> [Payload req])
          else if Type mh = messageTypeData then [p] else [])"

definition stream_data :: "'m proto_lib \<Rightarrow> message list \<Rightarrow> u32 \<Rightarrow> bytes list" where
  "stream_data P ms i = concat (map (msg_data P) (filter (\<lambda>m. fst m = i) ms))"

lemma stream_data_append: "stream_data P (ms @ ns) i = stream_data P ms i @ stream_data P ns i"
  by (simp add: stream_data_def)

definition stream_reads :: "(u32 \<times> bytes) list \<Rightarrow> u32 \<Rightarrow> bytes list" where
  "stream_reads rs i = map snd (filter (\<lambda>r. fst r = i) rs)"

section \<open>One connection\<close>

text \<open>The handler of the call of a stream.\<close>

definition owns :: "sconn \<Rightarrow> u32 \<Rightarrow> nat \<Rightarrow> bool" where
  "owns c i h \<longleftrightarrow> (i, Some h) \<in> set (worker_keys c)"

text \<open>
  With \<open>D i\<close> the data that arrived for a stream and \<open>R i\<close> what its handler has read: what was read
  and what is queued, and what waits to be queued, is in this order a part of what arrived.
\<close>

definition data_ok :: "(u32 \<Rightarrow> bytes list) \<Rightarrow> (u32 \<Rightarrow> bytes list) \<Rightarrow> sconn \<Rightarrow> bool" where
  "data_ok D R c \<longleftrightarrow>
     (\<forall>i h. owns c i h \<longrightarrow> h < length (handlers c) \<and> subseq (R i @ buf (h_recv (handlers c ! h))) (D i)) \<and>
     (\<forall>i j h. owns c i h \<and> owns c j h \<longrightarrow> i = j) \<and>
     (\<forall>i. R i \<noteq> [] \<longrightarrow> (\<exists>h. owns c i h)) \<and>
     (\<forall>i h. streams c i = Some (Some h) \<or> rpc c = RStore i (Some h) \<longrightarrow> owns c i h) \<and>
     (\<forall>i fl p h. rpc c = RData i fl p h \<longrightarrow> owns c i h \<and> subseq (R i @ buf (h_recv (handlers c ! h)) @ [p]) (D i))"

lemma data_okD:
  assumes "data_ok D R c" "owns c i h"
  shows "h < length (handlers c)" "subseq (R i @ buf (h_recv (handlers c ! h))) (D i)"
  using assms by (simp_all add: data_ok_def)

lemma owns_unique: "ids_inv c \<Longrightarrow> owns c i h \<Longrightarrow> owns c i h' \<Longrightarrow> h = h'"
proof -
  assume "ids_inv c" and o: "owns c i h" "owns c i h'"
  then have "distinct (map fst (worker_keys c))" using distinct_ids by (simp add: worker_keys_def comp_def)
  with o show ?thesis unfolding owns_def by (meson eq_key_imp_eq_value option.inject)
qed

lemma data_okI:
  assumes "\<And>i h. owns c i h \<Longrightarrow> h < length (handlers c) \<and> subseq (R i @ buf (h_recv (handlers c ! h))) (D i)"
    and "\<And>i j h. owns c i h \<Longrightarrow> owns c j h \<Longrightarrow> i = j"
    and "\<And>i. R i \<noteq> [] \<Longrightarrow> \<exists>h. owns c i h"
    and "\<And>i h. streams c i = Some (Some h) \<or> rpc c = RStore i (Some h) \<Longrightarrow> owns c i h"
    and "\<And>i fl p h. rpc c = RData i fl p h \<Longrightarrow> owns c i h \<and> subseq (R i @ buf (h_recv (handlers c ! h)) @ [p]) (D i)"
  shows "data_ok D R c"
  unfolding data_ok_def using assms by blast

lemma data_ok_owner:
  assumes "data_ok D R c"
  shows "owns c i h \<Longrightarrow> owns c j h \<Longrightarrow> i = j" "R i \<noteq> [] \<Longrightarrow> \<exists>h. owns c i h"
    "streams c i = Some (Some h) \<Longrightarrow> owns c i h" "rpc c = RStore i (Some h) \<Longrightarrow> owns c i h"
    "rpc c = RData i fl p h \<Longrightarrow> owns c i h \<and> subseq (R i @ buf (h_recv (handlers c ! h)) @ [p]) (D i)"
  using assms unfolding data_ok_def by blast+

text \<open>More data arrives.\<close>

lemma data_ok_mono:
  assumes "data_ok D R c" "\<And>i. prefix (D i) (D' i)"
  shows "data_ok D' R c"
proof -
  have "subseq xs (D i) \<Longrightarrow> subseq xs (D' i)" for xs i
    using subseq_order.trans [OF _ prefix_imp_subseq [OF assms(2)]] by blast
  with assms(1) show ?thesis unfolding data_ok_def by blast
qed

text \<open>The connection goes on as it was, or with one handler changed.\<close>

lemma data_ok_cong:
  assumes ok: "data_ok D R c" and eqs: "handlers t = handlers c" "owns t = owns c"
    and str: "\<And>i h. streams t i = Some (Some h) \<Longrightarrow> owns c i h"
    and pc: "rpc t = rpc c \<or> (\<forall>i f p h. rpc t \<noteq> RData i f p h) \<and> (\<forall>i h. rpc t = RStore i (Some h) \<longrightarrow> owns c i h)"
  shows "data_ok D R t"
proof -
  show ?thesis
  proof (rule data_okI, unfold eqs)
    show "owns c i h" if "streams t i = Some (Some h) \<or> rpc t = RStore i (Some h)" for i h
      using that str pc data_ok_owner(4) [OF ok, of i h] by auto
    show "owns c i h \<and> subseq (R i @ buf (h_recv (handlers c ! h)) @ [p]) (D i)" if "rpc t = RData i fl p h" for i fl p h
      using that pc data_ok_owner(5) [OF ok, of i fl p h] by auto
  qed (use data_okD [OF ok] data_ok_owner(1,2) [OF ok] in blast)+
qed

lemma data_ok_update:
  assumes ok: "data_ok D R c" and own: "owns c i h" and sub: "subseq (R i @ buf (h_recv sh)) (D i)"
    and eqs: "handlers t = (handlers c)[h := sh]" "worker_keys t = worker_keys c" "streams t = streams c"
    and pc: "\<And>i f p h. rpc t \<noteq> RData i f p h" "\<And>i h. rpc t \<noteq> RStore i (Some h)"
  shows "data_ok D R t"
proof -
  have eq: "owns t = owns c" by (simp add: owns_def eqs fun_eq_iff)
  show ?thesis
  proof (rule data_okI, unfold eq eqs)
    show "k < length ((handlers c)[h := sh]) \<and> subseq (R j @ buf (h_recv ((handlers c)[h := sh] ! k))) (D j)"
      if o: "owns c j k" for j k
      using data_okD [OF ok o] sub data_ok_owner(1) [OF ok own, of j] o by (cases "k = h") auto
  qed (use data_ok_owner [OF ok] pc in \<open>simp, blast?\<close>)+
qed
text \<open>What the receive goroutine does to a handler.\<close>

lemma closeSend_buf: "closeSend sh = Ok sh' \<Longrightarrow> buf (h_recv sh') = buf (h_recv sh)"
  by (auto simp: closeSend_def chan_close_def split: if_splits)

lemma data_ok_close:
  assumes ok: "data_ok D R c" and own: "owns c i h"
  shows "data_ok D R (recv_close mh p h c)"
proof (cases "closeSend (handlers c ! h)")
  case (Ok sh)
  note D = data_okD [OF ok own]
  have sub: "subseq (R i @ buf (h_recv sh)) (D i)" using D closeSend_buf [OF Ok] by simp
  show ?thesis
  proof (cases "has_flag (Flags mh) flagRemoteClosed")
    case True
    have "handlers (recv_close mh p h c) = (handlers c)[h := sh]" "worker_keys (recv_close mh p h c) = worker_keys c"
      "streams (recv_close mh p h c) = streams c"
      using True Ok by (simp_all add: recv_close_def invalid_def worker_keys_def Let_def)
    moreover have "rpc (recv_close mh p h c) \<noteq> RData j f q k" "rpc (recv_close mh p h c) \<noteq> RStore j (Some k)" for j f q k
      using True Ok by (simp_all add: recv_close_def invalid_def Let_def)
    ultimately show ?thesis by (rule data_ok_update [OF ok own sub])
  qed (use ok data_ok_owner(3) [OF ok] in \<open>auto simp: recv_close_def owns_def worker_keys_def fun_eq_iff intro: data_ok_cong\<close>)
qed (use ok data_ok_owner(3) [OF ok] in \<open>auto simp: recv_close_def owns_def worker_keys_def fun_eq_iff intro: data_ok_cong\<close>)

lemma data_ok_recv_data:
  assumes ok: "data_ok D R c" and own: "owns c (StreamID mh) h"
    and sub: "subseq (R (StreamID mh) @ buf (h_recv (handlers c ! h)) @ [p]) (D (StreamID mh))"
    and st: "recv_data L mh p h r c = Some t"
    and r: "\<And>ph s'. r = Ok (ph, s') \<Longrightarrow>
      (\<exists>q. chan_send p (h_recv (handlers c ! h)) = Ok q \<and> ph = DataReturned None \<and> s' = (handlers c ! h)\<lparr>h_recv := q\<rparr>) \<or>
      (s' = handlers c ! h \<and> (ph = DataWait \<or> (\<exists>e. ph = DataReturned (Some e))))"
  shows "data_ok D R t"
proof (cases r)
  case (Ok x)
  obtain ph sh where x: "x = (ph, sh)" by (cases x)
  note str = data_ok_owner(3) [OF ok]
  from r [OF Ok [unfolded x]] show ?thesis
  proof (elim disjE exE conjE)
    fix q assume q: "chan_send p (h_recv (handlers c ! h)) = Ok q" "ph = DataReturned None" "sh = (handlers c ! h)\<lparr>h_recv := q\<rparr>"
    let ?c = "c\<lparr>handlers := (handlers c)[h := sh], rpc := RTop\<rparr>"
    have "subseq (R (StreamID mh) @ buf (h_recv sh)) (D (StreamID mh))" using sub q by (auto simp: chan_send_Ok_iff)
    then have "data_ok D R ?c"
      by (rule data_ok_update [OF ok own]) (simp_all add: worker_keys_def)
    moreover have "owns ?c (StreamID mh) h" using own by (simp add: owns_def worker_keys_def)
    ultimately have "data_ok D R (recv_close mh p h ?c)" by (rule data_ok_close)
    moreover have "recv_close mh p h ?c = t"
      using st Ok x q(2) by (auto simp: recv_data_def recv_close_def invalid_def Let_def split: outcome.splits)
    ultimately show ?thesis by simp
  next
    assume "sh = handlers c ! h" "ph = DataWait"
    then have t: "t = c\<lparr>rpc := RData (StreamID mh) (Flags mh) p h\<rparr>" using st Ok x by (simp add: recv_data_def)
    have eq: "owns t = owns c" by (simp add: t owns_def worker_keys_def fun_eq_iff)
    show ?thesis
      by (rule data_okI, unfold eq) (use data_okD [OF ok] data_ok_owner [OF ok] own sub in \<open>auto simp: t\<close>)
  next
    fix e assume "sh = handlers c ! h" "ph = DataReturned (Some e)"
    then have "t = invalid (StreamID mh) (''data handling error: '' @ error_text L e) c" using st Ok x by (simp add: recv_data_def)
    with ok str show ?thesis by (auto simp: invalid_def owns_def worker_keys_def fun_eq_iff intro: data_ok_cong)
  qed
next
  case Panic
  with st ok data_ok_owner(3) [OF ok] show ?thesis by (auto simp: recv_data_def owns_def worker_keys_def fun_eq_iff intro: data_ok_cong)
next
  case Blocks
  with st show ?thesis by (simp add: recv_data_def)
qed

text \<open>A new call brings its handler, with at most the payload of its request.\<close>

lemma data_ok_started:
  assumes ok: "data_ok D R c" and new: "\<And>h. \<not> owns c i h"
    and st: "start_work i w sh c = (t, ref)" and sub: "\<And>x. sh = Some x \<Longrightarrow> subseq (buf (h_recv x)) (D i)"
    and pc: "\<And>j f p h. rpc c \<noteq> RData j f p h" "\<And>j r. rpc c \<noteq> RStore j r"
  shows "data_ok D R t \<and> (\<forall>h. ref = Some h \<longrightarrow> owns t i h)"
proof (cases w)
  case NoWork
  with st ok show ?thesis by (simp add: start_work_def)
next
  case (UnaryWork ctx fin m info dat)
  then have t: "t = c\<lparr>workers := workers c @ [\<lparr>w_id = i, w_handler = None, w_streaming = False, w_pc = WRun\<rparr>]\<rparr>" "ref = None"
    using st by (auto simp: start_work_def)
  have eq: "owns t = owns c" by (auto simp: t owns_def worker_keys_def fun_eq_iff)
  have "data_ok D R t"
    by (rule data_ok_cong [OF ok _ eq]) (simp_all add: t data_ok_owner(3) [OF ok])
  with t show ?thesis by simp
next
  case (StreamWork ctx fin hdl info)
  let ?x = "case sh of Some x \<Rightarrow> x | None \<Rightarrow> newHandler info" and ?h = "length (handlers c)"
  from StreamWork have t: "handlers t = handlers c @ [?x]" "worker_keys t = worker_keys c @ [(i, Some ?h)]"
    "streams t = streams c" "rpc t = rpc c" "ref = Some ?h"
    using st by (auto simp: start_work_def worker_keys_def)
  have eq: "owns t j h = (owns c j h \<or> (j = i \<and> h = ?h))" for j h by (auto simp: owns_def t)
  have x: "subseq (buf (h_recv ?x)) (D i)" using sub by (cases sh) (simp_all add: newHandler_def)
  have Ri: "R i = []" using data_ok_owner(2) [OF ok] new by blast
  have "data_ok D R t"
  proof (rule data_okI)
    show "h < length (handlers t) \<and> subseq (R j @ buf (h_recv (handlers t ! h))) (D j)" if o: "owns t j h" for j h
    proof (cases "owns c j h")
      case True
      from data_okD [OF ok this] show ?thesis by (simp add: t nth_append)
    next
      case False
      with o Ri x show ?thesis by (auto simp: eq t nth_append)
    qed
    have fresh: "\<not> owns c j ?h" for j using data_okD(1) [OF ok, of j ?h] by blast
    show "j = k" if "owns t j h" "owns t k h" for j k h
      using that fresh data_ok_owner(1) [OF ok, of j h k] by (cases "h = ?h") (simp_all add: eq)
    show "\<exists>h. owns t j h" if "R j \<noteq> []" for j using data_ok_owner(2) [OF ok that] by (auto simp: eq)
    show "owns t j h" if "streams t j = Some (Some h) \<or> rpc t = RStore j (Some h)" for j h
      using that data_ok_owner(3) [OF ok, of j h] pc(2) by (auto simp: eq t)
    show "owns t j h \<and> subseq (R j @ buf (h_recv (handlers t ! h)) @ [p]) (D j)" if "rpc t = RData j fl p h" for j fl p h
      using that pc(1) by (simp add: t)
  qed
  then show ?thesis by (simp add: eq t)
qed
lemma owns_request: "ids_inv c \<Longrightarrow> owns c i h \<Longrightarrow> i \<le> lastStreamID c"
  by (auto simp: ids_inv_def owns_def worker_keys_def)

lemma data_ok_request:
  assumes ids: "ids_inv c" and ok: "data_ok D R c" and pc: "rpc c = RRecv"
    and st: "recv_request E mh p ctx_err pick c = Some t"
    and sub: "\<And>req. uRequest (e_proto E) p = Inr req \<Longrightarrow> subseq [Payload req] (D (StreamID mh))"
  shows "data_ok D R t"
proof -
  let ?s1 = "c\<lparr>lastStreamID := StreamID mh, requests := requests c @ [StreamID mh]\<rparr>"
  have same: "data_ok D R x" if "handlers x = handlers c" "owns x = owns c" "streams x = streams c"
    "rpc x = RRecv \<or> (\<exists>i m. rpc x = RSendStatus i m)" for x
    by (rule data_ok_cong [OF ok that(1,2)]) (use that data_ok_owner(3) [OF ok] in auto)
  have s1: "data_ok D R (?s1\<lparr>md_heap := h'\<rparr>)" "owns (?s1\<lparr>md_heap := h'\<rparr>) = owns c" for h'
    using pc by (auto intro!: same simp: owns_def worker_keys_def fun_eq_iff)
  have work: "data_ok D R s2 \<and> (\<forall>h. ref = Some h \<longrightarrow> owns s2 (StreamID mh) h)"
    if less: "lastStreamID c < StreamID mh" and w: "start_work (StreamID mh) w sh (?s1\<lparr>md_heap := h'\<rparr>) = (s2, ref)"
      and x: "\<And>x. sh = Some x \<Longrightarrow> \<exists>req. uRequest (e_proto E) p = Inr req \<and> buf (h_recv x) \<in> {[], [Payload req]}" for w sh h' s2 ref
  proof (rule data_ok_started [OF s1(1) _ w])
    show "\<not> owns (?s1\<lparr>md_heap := h'\<rparr>) (StreamID mh) h" for h
      unfolding s1(2) using owns_request [OF ids, of "StreamID mh" h] less by auto
    show "subseq (buf (h_recv y)) (D (StreamID mh))" if "sh = Some y" for y
      using x [OF that] sub by auto
  qed (simp_all add: pc)
  show ?thesis
    using st
  proof (cases rule: recv_request_cases)
    case (refused h' w s2 ref st')
    from work [OF refused(1,2)] have s2: "data_ok D R s2" by simp
    show ?thesis
      by (rule data_ok_cong [OF s2]) (use data_ok_owner(3) [OF s2] in \<open>auto simp: refused(3) owns_def worker_keys_def fun_eq_iff\<close>)
  next
    case (started h' w sh s2 ref)
    from work [OF started(1,2,6)] have s2: "data_ok D R s2" "\<forall>h. ref = Some h \<longrightarrow> owns s2 (StreamID mh) h" by blast+
    show ?thesis
      by (rule data_ok_cong [OF s2(1)])
         (use data_ok_owner(3) [OF s2(1)] s2(2) in \<open>auto simp: started(3) owns_def worker_keys_def fun_eq_iff\<close>)
  qed (auto intro!: same simp: invalid_def owns_def worker_keys_def fun_eq_iff)
qed

lemma data_ok_data:
  assumes hdl: "hdl_inv c" and ok: "data_ok D R c"
    and st: "recv_data_message L mh p ctx_err pick c = Some t"
    and sub: "\<And>h. owns c (StreamID mh) h \<Longrightarrow> subseq (R (StreamID mh) @ buf (h_recv (handlers c ! h)) @ [p]) (D (StreamID mh))"
  shows "data_ok D R t"
proof (cases "\<exists>h. streams c (StreamID mh) = Some (Some h)")
  case False
  then have t: "handlers t = handlers c \<and> owns t = owns c \<and> streams t = streams c \<and>
      (rpc t = RPanic \<or> rpc t = RTop \<or> (\<exists>i m. rpc t = RSendStatus i m))"
    using st by (auto simp: recv_data_message_def invalid_def owns_def worker_keys_def fun_eq_iff split: option.splits if_splits)
  show ?thesis by (rule data_ok_cong [OF ok]) (use t data_ok_owner(3) [OF ok] in auto)
next
  case True
  then obtain h where h: "streams c (StreamID mh) = Some (Some h)" by blast
  then have own: "owns c (StreamID mh) h" by (rule data_ok_owner(3) [OF ok])
  show ?thesis
  proof (cases "has_flag (Flags mh) flagNoData")
    case True
    then have "t = recv_close mh p h c" using st h by (simp add: recv_data_message_def)
    with data_ok_close [OF ok own] show ?thesis by simp
  next
    case False
    then have r: "recv_data L mh p h (data_start ctx_err pick p (handlers c ! h)) c = Some t"
      using st h by (simp add: recv_data_message_def)
    have closed: "remoteClosed (handlers c ! h) \<longleftrightarrow> chan_closed (h_recv (handlers c ! h))"
      using hdl data_okD(1) [OF ok own] by (simp add: hdl_inv_def)
    show ?thesis
      by (rule data_ok_recv_data [OF ok own sub [OF own] r])
         (use data_start_cases [OF refl closed, of ctx_err pick p] in blast)
  qed
qed

lemma data_ok_body:
  assumes inv: "ids_inv c" "hdl_inv c" and ok: "data_ok D R c" and pc: "rpc c = RRecv"
    and st: "recv_body E mh p None ctx_err pick c = Some t" and m: "(mh, p, None) = received m"
    and D': "\<And>i. D' i = D i @ (if i = StreamID mh then msg_data (e_proto E) m else [])"
  shows "data_ok D' R t"
proof -
  have ok': "data_ok D' R c" by (rule data_ok_mono [OF ok]) (simp add: D')
  have d: "msg_data (e_proto E) m =
      (if Type mh = messageTypeRequest then (case uRequest (e_proto E) p of Inl _ \<Rightarrow> [] | Inr req \<Rightarrow> [Payload req])
       else if Type mh = messageTypeData then [p] else [])"
    by (simp add: msg_data_def m [symmetric])
  consider (data) "Type mh = messageTypeData" "recv_data_message (e_lib E) mh p ctx_err pick c = Some t"
    | (req) "Type mh = messageTypeRequest" "recv_request E mh p ctx_err pick c = Some t"
    | (other) "handlers t = handlers c" "owns t = owns c" "streams t = streams c" "rpc t = RTop \<or> (\<exists>i m. rpc t = RSendStatus i m)"
    using st by (auto simp: recv_body_def invalid_def owns_def worker_keys_def fun_eq_iff split: if_splits)
  then show ?thesis
  proof cases
    case data
    show ?thesis
    proof (rule data_ok_data [OF inv(2) ok' data(2)])
      fix h assume "owns c (StreamID mh) h"
      from list_emb_append_mono [OF data_okD(2) [OF ok this] subseq_order.refl [of "[p]"]]
      have "subseq ((R (StreamID mh) @ buf (h_recv (handlers c ! h))) @ [p]) (D (StreamID mh) @ [p])" .
      with data(1) show "subseq (R (StreamID mh) @ buf (h_recv (handlers c ! h)) @ [p]) (D' (StreamID mh))"
        by (simp add: D' d messageType_defs)
    qed
  next
    case req
    show ?thesis
    proof (rule data_ok_request [OF inv(1) ok' pc req(2)])
      fix q assume "uRequest (e_proto E) p = Inr q"
      with req(1) show "subseq [Payload q] (D' (StreamID mh))" by (simp add: D' d subseq_singleton_left)
    qed
  next
    case other
    show ?thesis by (rule data_ok_cong [OF ok' other(1,2)]) (use other(3,4) data_ok_owner(3) [OF ok'] in auto)
  qed
qed
section \<open>The steps of a connection\<close>

lemma data_ok_wait:
  assumes hdl: "hdl_inv c" and ok: "data_ok D R c" and st: "conn_step E c (RWaitData ctx_err pick) = Some t"
  shows "data_ok D R t"
proof -
  obtain i flags p h where pc: "rpc c = RData i flags p h" using st by (auto split: recv_pc.splits)
  let ?mh = "\<lparr>Length = of_nat (length (bytes_of p)), StreamID = i, Type = messageTypeData, Flags = flags\<rparr>"
  note own = data_ok_owner(5) [OF ok pc]
  have h: "\<not> remoteClosed (handlers c ! h)" "remoteClosed (handlers c ! h) \<longleftrightarrow> chan_closed (h_recv (handlers c ! h))"
    using hdl pc by (auto simp: hdl_inv_def)
  show ?thesis
  proof (rule data_ok_recv_data [where mh = ?mh and p = p and h = h and L = "e_lib E", OF ok])
    show "recv_data (e_lib E) ?mh p h (data_wait ctx_err pick p (handlers c ! h)) c = Some t" using st pc by simp
  qed (use own data_wait_cases [OF refl h, of ctx_err pick p] in auto)
qed

text \<open>A handler reads the head of its queue.\<close>

lemma data_ok_read:
  assumes ids: "ids_inv c" and ok: "data_ok D R c" and st: "conn_step E c (WRecv k) = Some t"
    and R': "\<And>i. R' i = R i @ map snd (filter (\<lambda>r. fst r = i) (handler_read (WRecv k) c))"
  shows "data_ok D R' t"
proof -
  let ?w = "workers c ! k"
  obtain h u q where h: "k < length (workers c)" "w_handler ?w = Some h" "chan_recv (h_recv (handlers c ! h)) = Ok (u, q)"
    "t = c\<lparr>handlers := (handlers c)[h := (handlers c ! h)\<lparr>h_recv := q\<rparr>]\<rparr>"
    using st by (auto split: if_splits option.splits outcome.splits prod.splits)
  have own: "owns c (w_id ?w) h" using h(1,2) unfolding owns_def worker_keys_def by (auto simp: image_iff intro: bexI [of _ ?w])
  have eq: "owns t = owns c" by (simp add: h owns_def worker_keys_def fun_eq_iff)
  have read: "handler_read (WRecv k) c = map (\<lambda>u. (w_id ?w, u)) (take 1 (buf (h_recv (handlers c ! h))))"
    by (simp add: handler_read_def h(2))
  have R'i: "R' i = (if i = w_id ?w then R i @ take 1 (buf (h_recv (handlers c ! h))) else R i)" for i
    by (cases "buf (h_recv (handlers c ! h))") (simp_all add: R' read)
  have split: "buf (h_recv (handlers c ! h)) = take 1 (buf (h_recv (handlers c ! h))) @ buf q"
    using h(3) by (auto simp: chan_recv_def split: list.splits if_splits)
  have same: "R' i @ buf (h_recv (handlers t ! j)) = R i @ buf (h_recv (handlers c ! j))" if o: "owns c i j" for i j
  proof (cases "j = h")
    case True
    with o own have "i = w_id ?w" using data_ok_owner(1) [OF ok] by blast
    with True data_okD(1) [OF ok own] split show ?thesis by (simp add: R'i h(4))
  next
    case False
    with o own ids owns_unique have "i \<noteq> w_id ?w" by blast
    with False show ?thesis by (simp add: R'i h(4))
  qed
  have len: "length (handlers t) = length (handlers c)" by (simp add: h(4))
  show ?thesis
  proof (rule data_okI, unfold eq)
    show "j < length (handlers t) \<and> subseq (R' i @ buf (h_recv (handlers t ! j))) (D i)" if o: "owns c i j" for i j
      using data_okD [OF ok o] by (simp add: same [OF o] len)
    show "i = j" if "owns c i l" "owns c j l" for i j l using data_ok_owner(1) [OF ok that] .
    show "\<exists>j. owns c i j" if "R' i \<noteq> []" for i
      using that own data_ok_owner(2) [OF ok] by (cases "i = w_id ?w") (auto simp: R'i)
    show "owns c i j" if "streams t i = Some (Some j) \<or> rpc t = RStore i (Some j)" for i j
      using that data_ok_owner(3,4) [OF ok] by (auto simp: h(4))
    show "owns c i j \<and> subseq (R' i @ buf (h_recv (handlers t ! j)) @ [p]) (D i)" if "rpc t = RData i fl p j" for i fl p j
    proof -
      from that have "rpc c = RData i fl p j" by (simp add: h(4))
      from data_ok_owner(5) [OF ok this] same [of i j] show ?thesis by (metis append.assoc)
    qed
  qed
qed

text \<open>Every other step.\<close>

lemma handler_event_cases:
  "handler_event e \<Longrightarrow> (\<exists>mh p err ctx_err pick. e = RMessage mh p err ctx_err pick) \<or> (\<exists>ctx_err pick. e = RWaitData ctx_err pick) \<or>
     e = RDoStore \<or> e = MDoDelete \<or> (\<exists>k. e = WRecv k)"
  by (cases e) (simp_all add: handler_event_def)

lemma data_ok_other:
  assumes ok: "data_ok D R c" and st: "conn_step E c e = Some t"
    and e: "\<And>mh p err ctx_err pick. e \<noteq> RMessage mh p err ctx_err pick" "\<And>ctx_err pick. e \<noteq> RWaitData ctx_err pick" "\<And>k. e \<noteq> WRecv k"
  shows "data_ok D R t"
proof -
  have keys: "owns t = owns c" using conn_step_keys_same [OF st e(1)] by (simp add: owns_def fun_eq_iff)
  have "handlers t = handlers c \<and> (\<forall>i h. streams t i = Some (Some h) \<longrightarrow> streams c i = Some (Some h) \<or> rpc c = RStore i (Some h)) \<and>
      (rpc t = rpc c \<or> (\<forall>i f p h. rpc t \<noteq> RData i f p h) \<and> (\<forall>i h. rpc t = RStore i (Some h) \<longrightarrow> False))"
  proof (cases "handler_event e")
    case True
    with e handler_event_cases have "e = RDoStore \<or> e = MDoDelete" by blast
    with st show ?thesis by (auto split: recv_pc.splits main_pc.splits if_splits)
  next
    case False
    from conn_step_no_handler [OF st False] show ?thesis by auto
  qed
  then show ?thesis
    by (intro data_ok_cong [OF ok _ keys]) (use data_ok_owner(3) [OF ok] data_ok_owner(4) [OF ok] in blast)+
qed

lemma data_ok_failed:
  assumes ok: "data_ok D R c" and st: "recv_body E mh p (Some x) ctx_err pick c = Some t"
  shows "data_ok D R t"
proof -
  have t: "handlers t = handlers c \<and> owns t = owns c \<and> streams t = streams c \<and> (rpc t = RExit \<or> (\<exists>i m. rpc t = RSendStatus i m))"
    using st by (auto simp: recv_body_def owns_def worker_keys_def fun_eq_iff split: prod.splits if_splits outcome.splits)
  show ?thesis by (rule data_ok_cong [OF ok]) (use t data_ok_owner(3) [OF ok] in auto)
qed

section \<open>The link\<close>

definition link_data :: "('c, 'f, 'g, 'i, 'j, 'm) conn_env \<Rightarrow> link \<Rightarrow> bool" where [inv_defs]:
  "link_data E s \<longleftrightarrow> data_ok (stream_data (e_proto E) (ln_up_got s)) (stream_reads (ln_reads s)) (ln_conn s)"

lemma link_data_recv:
  assumes base: "link_base E s" and inv: "link_data E s" and st: "link_step E s (ServerRecv e ctx_err pick) = Some t"
  shows "link_data E t"
proof -
  note B = link_baseD [OF base]
  obtain mh p err q where r: "pipe_recv (e_lib E) e (ln_up s) = ((mh, p, err), q)"
    "conn_step E (ln_conn s) (RMessage mh p err ctx_err pick) = Some (ln_conn t)"
    "ln_up_got t = ln_up_got s @ got_message (mh, p, err)" "ln_reads t = ln_reads s"
    using st by (auto simp del: conn_step.simps split: if_splits option.splits prod.splits)
  from r(2) have body: "rpc (ln_conn s) = RRecv" "recv_body E mh p err ctx_err pick (ln_conn s) = Some (ln_conn t)"
    by (auto split: if_splits)
  show ?thesis
  proof (cases err)
    case (Some x)
    with data_ok_failed [OF inv [unfolded link_data_def]] body(2) r(3,4) show ?thesis
      by (simp add: link_data_def got_message_def)
  next
    case None
    have "pipe_ok (client_msgs (ln_client s)) (ln_up_got s) (ln_up s)"
      using base body(1) by (simp add: link_base_def link_inv_def way_ok_def)
    from pipe_ok_recv [OF this r(1) [unfolded None]] obtain m where m: "(mh, p, None) = received m" by blast
    from received_inverse [OF m] have got: "got_message (mh, p, None) = [m]" "StreamID mh = fst m"
      by (auto simp: got_message_def)
    show ?thesis unfolding link_data_def r(4)
    proof (rule data_ok_body [OF B(5,4) inv [unfolded link_data_def] body(1) body(2) [unfolded None] m])
      show "stream_data (e_proto E) (ln_up_got t) i =
          stream_data (e_proto E) (ln_up_got s) i @ (if i = StreamID mh then msg_data (e_proto E) m else [])" for i
        using got r(3) None by (auto simp: stream_data_def)
    qed
  qed
qed

lemma link_data_step:
  assumes base: "link_base E s" and inv: "link_data E s" and st: "link_step E s ev = Some t"
  shows "link_data E t"
proof (cases "\<exists>e c p. ev = ServerRecv e c p")
  case True
  with link_data_recv [OF base inv] st show ?thesis by blast
next
  case no: False
  note B = link_baseD [OF base]
  have got: "ln_up_got t = ln_up_got s" using link_not_server_recv [OF st] no by blast
  show ?thesis
  proof (cases "\<exists>e. ev = ServerAct e")
    case True
    then obtain e where e: "server_local e" "conn_step E (ln_conn s) e = Some (ln_conn t)"
      "ln_reads t = ln_reads s @ handler_read e (ln_conn s)"
      using st by (auto simp del: conn_step.simps split: if_splits option.splits)
    have nm: "\<And>mh p err c pk. e \<noteq> RMessage mh p err c pk" using e(1) by (auto simp: server_local_def)
    have reads: "stream_reads (ln_reads t) i = stream_reads (ln_reads s) i @ map snd (filter (\<lambda>r. fst r = i) (handler_read e (ln_conn s)))" for i
      by (simp add: stream_reads_def e(3))
    consider (wait) c pk where "e = RWaitData c pk" | (read) k where "e = WRecv k"
      | (other) "\<And>c pk. e \<noteq> RWaitData c pk" "\<And>k. e \<noteq> WRecv k" by (cases e) auto
    then show ?thesis
    proof cases
      case wait
      with data_ok_wait [OF B(4) inv [unfolded link_data_def]] e(2) have
        "data_ok (stream_data (e_proto E) (ln_up_got s)) (stream_reads (ln_reads s)) (ln_conn t)" by blast
      with wait e(3) show ?thesis by (simp add: link_data_def got handler_read_def)
    next
      case read
      show ?thesis unfolding link_data_def got
        by (rule data_ok_read [OF B(5) inv [unfolded link_data_def] e(2) [unfolded read] reads [unfolded read]])
    next
      case other
      then have "handler_read e (ln_conn s) = []" by (cases e) (auto simp: handler_read_def)
      with data_ok_other [OF inv [unfolded link_data_def] e(2) nm other] e(3) show ?thesis by (simp add: link_data_def got)
    qed
  next
    case False
    have "ln_reads t = ln_reads s"
      using st no False by (cases ev) (auto simp: client_sends_def simp del: conn_step.simps client_step.simps
        split: if_splits option.splits caller_pc.splits main_pc.splits sum.splits prod.splits)
    moreover have "ln_conn t = ln_conn s \<or> (\<exists>x. conn_step E (ln_conn s) (MSent x) = Some (ln_conn t))"
    proof (cases ev)
      case ServerSend
      with st obtain r b where m: "mpc (ln_conn s) = MSend r b" by (auto split: main_pc.splits)
      then have "ln_conn t \<in> range (\<lambda>e. main_send (e_proto E) r b e (ln_conn s))"
        using st ServerSend by (auto split: sum.splits prod.splits)
      with m show ?thesis by auto
    qed (use st no False in \<open>auto simp: client_sends_def simp del: conn_step.simps client_step.simps
        split: if_splits option.splits caller_pc.splits prod.splits\<close>)
    ultimately show ?thesis
      using data_ok_other [OF inv [unfolded link_data_def]] inv by (auto simp: link_data_def got simp del: conn_step.simps)
  qed
qed

interpretation link_data: step_invariant "link_step E" "\<lambda>s. link_base E s \<and> link_data E s" for E
  by unfold_locales (blast intro: link_base_step link_data_step)

lemma link_data_init: "link_data E (link0 wu wd)"
  by (simp add: link_data_def link0_def data_ok_def conn0_def owns_def worker_keys_def stream_reads_def)
section \<open>Properties\<close>

text \<open>
  C10: The data of a stream reaches its handler and no other. In every run of client and server over
  one connection, what the handler of a stream has read, followed by what is queued for it, is in
  this order a part of what the client sent on that stream: the payload of its request and its data
  messages. Nothing is invented, duplicated or reordered, and nothing comes from another stream;
  what is missing at the end was refused or has not arrived. Only the handler of a call reads.
\<close>

theorem stream_data_reaches_handler:
  assumes "status_lib_ok (e_lib E)" "fresh_writer wu" "fresh_writer wd" "run (link_step E) (link0 wu wd) es = Some s"
  shows "(\<forall>w \<in> set (workers (ln_conn s)). \<forall>h. w_handler w = Some h \<longrightarrow>
       subseq (stream_reads (ln_reads s) (w_id w) @ buf (h_recv (handlers (ln_conn s) ! h)))
         (stream_data (e_proto E) (ln_up_got s) (w_id w)) \<and>
       prefix (stream_data (e_proto E) (ln_up_got s) (w_id w)) (stream_data (e_proto E) (client_msgs (ln_client s)) (w_id w))) \<and>
    (\<forall>i. stream_reads (ln_reads s) i \<noteq> [] \<longrightarrow> (\<exists>w \<in> set (workers (ln_conn s)). w_id w = i \<and> w_handler w \<noteq> None))"
proof -
  have base0: "link_base E (link0 wu wd)" by (rule link_base_init [OF assms(1-3)])
  have inv: "link_base E s" "link_data E s"
    using link_data.inv_run [OF conjI [OF base0 link_data_init] assms(4)] by blast+
  note ok = inv(2) [unfolded link_data_def]
  have own: "owns (ln_conn s) i h \<longleftrightarrow> (\<exists>w \<in> set (workers (ln_conn s)). w_id w = i \<and> w_handler w = Some h)" for i h
    by (auto simp: owns_def worker_keys_def)
  have "prefix (stream_data (e_proto E) (ln_up_got s) i) (stream_data (e_proto E) (client_msgs (ln_client s)) i)" for i
    using link_baseD(2) [OF inv(1)] by (auto simp: prefix_def stream_data_append)
  with data_okD(2) [OF ok] data_ok_owner(2) [OF ok] show ?thesis unfolding own by blast
qed

text \<open>A stream whose handler reads the payload of the request and then a data message.\<close>

definition link_run3 :: "link_event list" where
  "link_run3 = link_call_up False flagRemoteOpen (Some [1, 7]) @
     [ClientData 0 0 (Some [9]), ServerAct (RGuard False), ServerRecv IoEOF None DataSend,
      ServerAct (WRecv 0), ServerAct (WRecv 0)]"

lemma link_run3_result:
  "\<exists>s w. run (link_step demo_env) calm_link link_run3 = Some s \<and> w \<in> set (workers (ln_conn s)) \<and> w_id w = 1 \<and>
     w_handler w = Some 0 \<and> stream_reads (ln_reads s) 1 = [Some [7], Some [9]]"
  by (simp add: link_run3_def link_call_up_def link_eval messageHeaderLength_def flagRemoteOpen_def handler_read_def
      stream_reads_def)

theorem stream_data_reaches_handler_witness:
  "\<exists>s. run (link_step demo_env) calm_link link_run3 = Some s \<and>
     subseq [Some [7], Some [9]] (stream_data (e_proto demo_env) (client_msgs (ln_client s)) 1)"
proof -
  obtain s w where s: "run (link_step demo_env) calm_link link_run3 = Some s" "w \<in> set (workers (ln_conn s))" "w_id w = 1"
    "w_handler w = Some 0" "stream_reads (ln_reads s) 1 = [Some [7], Some [9]]"
    using link_run3_result by blast
  have "status_lib_ok (e_lib demo_env)" using example_status_lib_ok by (simp add: demo_env_def)
  from stream_data_reaches_handler [OF this fresh_calm fresh_calm s(1) [unfolded calm_link_def]] s(2-5)
  have "subseq ([Some [7], Some [9]] @ buf (h_recv (handlers (ln_conn s) ! 0))) (stream_data (e_proto demo_env) (ln_up_got s) 1)"
    "prefix (stream_data (e_proto demo_env) (ln_up_got s) 1) (stream_data (e_proto demo_env) (client_msgs (ln_client s)) 1)"
    by force+
  then have "subseq [Some [7], Some [9]] (stream_data (e_proto demo_env) (client_msgs (ln_client s)) 1)"
    by (meson prefix_imp_subseq prefixI subseq_order.trans)
  with s(1) show ?thesis by blast
qed

end
