(* ===== verification/LinkReplies.thy ===== *)
theory LinkReplies
  imports LinkStreams
begin

text \<open>
  The messages of the server in the runs of theory \<open>LinkRuns\<close>: what the callers of a stream take from
  its queue is, in order, what the server sent there, and nothing is lost on an open stream.
\<close>

section \<open>The queues of the client\<close>

text \<open>What callers took from one stream.\<close>

definition taken :: "(nat \<times> streamMessage) list \<Rightarrow> nat \<Rightarrow> streamMessage list" where
  "taken ts o' = map snd (filter (\<lambda>x. fst x = o') ts)"

lemma taken_simps [simp]: "taken [] o' = []" "taken (ts @ us) o' = taken ts o' @ taken us o'"
  "taken [(j, m)] o' = (if j = o' then [m] else [])"
  by (simp_all add: taken_def)

abbreviation queue :: "client \<Rightarrow> nat \<Rightarrow> streamMessage list" where
  "queue c o' \<equiv> buf (s_recv (cl_objs c ! o'))"

definition result_messages :: "read_result \<Rightarrow> streamMessage list" where
  "result_messages r = (case r of GotMsg m \<Rightarrow> [m] | GotErr e \<Rightarrow> [])"

lemma read_queue: "read_select ctx p st = Some (r, st') \<Longrightarrow> result_messages r @ buf (s_recv st') = buf (s_recv st)"
  by (drule read_select_cases) (auto simp: result_messages_def chan_recv_Some_iff)

lemma wait_queue: "wait_select p s st = Some (r, st') \<Longrightarrow> result_messages r @ buf (s_recv st') = buf (s_recv st)"
  by (auto simp: wait_select_def result_messages_def dest: read_queue split: wait_pick.splits if_splits)

lemma receive_queue:
  "receive_step ctx p m ph st = Some (ph', st') \<Longrightarrow>
   buf (s_recv st') = buf (s_recv st) \<or> (ph' = RDone None \<and> buf (s_recv st') = buf (s_recv st) @ [m])"
  by (auto simp: receive_step_def receive_branch_def chan_send_Ok_iff split: recv_phase.splits pick.splits if_splits
      outcome.splits option.splits)

lemma close_queue: "o' < length xs \<Longrightarrow> buf (s_recv (xs[j := closeWithError x (xs ! j)] ! o')) = buf (s_recv (xs ! o'))"
  by (cases "j = o'") simp_all

text \<open>What a step does to the queue of a stream: a caller takes its head, or the receive loop fills it.\<close>

lemma client_step_queue:
  assumes refs: "refs_ok s" and st: "client_step L s e = Some t" and o': "o' < length (cl_objs s)"
  shows "taken (took e s) o' @ queue t o' = queue s o' \<or>
    (taken (took e s) o' = [] \<and> (\<exists>ph m. cl_run s = LReceive ph m o' \<and> cl_run t = LTop \<and> queue t o' = queue s o' @ [m]))"
proof (cases e)
  case (Wait k p)
  then obtain j r x where k: "caller_at s k = Some (KWait j)" "wait_select p s (cl_objs s ! j) = Some (r, x)"
    "cl_objs t = (cl_objs s)[j := x]"
    using st by (auto split: option.splits caller_pc.splits prod.splits)
  have "took e s = map (Pair j) (result_messages r)"
    using Wait k(1,2) by (auto simp: took_def result_messages_def split: read_result.split)
  moreover have "queue t o' = (if j = o' then buf (s_recv x) else queue s o')"
    using k(3) o' by (simp add: nth_list_update)
  ultimately show ?thesis
    using wait_queue [OF k(2)] by (auto simp: taken_def result_messages_def split: read_result.splits if_splits)
next
  case (UserRead k c p d)
  then obtain j r x where k: "caller_at s k = Some (KOpen j)" "read_select c p (cl_objs s ! j) = Some (r, x)"
    "cl_objs t = (cl_objs s)[j := x]"
    using st by (auto simp: Let_def split: option.splits caller_pc.splits prod.splits if_splits)
  have "took e s = map (Pair j) (result_messages r)"
    using UserRead k(1,2) by (auto simp: took_def result_messages_def split: read_result.split)
  moreover have "queue t o' = (if j = o' then buf (s_recv x) else queue s o')"
    using k(3) o' by (simp add: nth_list_update)
  ultimately show ?thesis
    using read_queue [OF k(2)] by (auto simp: taken_def result_messages_def split: read_result.splits if_splits)
next
  case (LoopReceive p)
  then obtain ph m j ph' x where r: "cl_run s = LReceive ph m j"
    "receive_step (cl_ctx s) p m ph (cl_objs s ! j) = Some (ph', x)" "cl_objs t = (cl_objs s)[j := x]"
    "cl_run t = (case ph' of RDone e \<Rightarrow> LTop | _ \<Rightarrow> LReceive ph' m j)"
    using st by (auto split: run_pc.splits option.splits prod.splits)
  have "took e s = []" using LoopReceive by (simp add: took_def)
  moreover have "queue t o' = (if j = o' then buf (s_recv x) else queue s o')"
    using r(3) o' by (simp add: nth_list_update)
  ultimately show ?thesis using receive_queue [OF r(2)] r(1,4) by auto
next
  case (LoopRecv mh p err)
  then have "cl_objs t = cl_objs s \<or> (\<exists>j x. cl_objs t = (cl_objs s)[j := closeWithError x (cl_objs s ! j)])"
    using st by (auto simp: loop_message_def close_obj_def split: if_splits option.splits) blast+
  then have "queue t o' = queue s o'" using o' by (auto simp: close_queue)
  with LoopRecv show ?thesis by (simp add: took_def)
next
  case RunCleanup
  with st o' show ?thesis by (auto simp: took_def cleanupStreams_def split: run_pc.splits)
next
  case (CloseStream k)
  with st o' show ?thesis
    by (auto simp: took_def close_obj_def close_queue split: if_splits option.splits caller_pc.splits)
qed (use st o' in \<open>auto simp: took_def k_failed_def client_Close_def delete_entry_def add_stream_def nth_append Let_def
      split: if_splits option.splits caller_pc.splits run_pc.splits\<close>)

text \<open>The message of an id that a step brings in.\<close>

definition arrived :: "client_event \<Rightarrow> u32 \<Rightarrow> streamMessage list" where
  "arrived e i = (case e of LoopRecv mh p None \<Rightarrow> if i = StreamID mh then [\<lparr>header = mh, payload = p\<rparr>] else [] | _ \<Rightarrow> [])"

lemma arrived_none [simp]: "(\<And>mh p err. e \<noteq> LoopRecv mh p err) \<Longrightarrow> arrived e i = []"
  by (cases e) (simp_all add: arrived_def, blast)

text \<open>
  With \<open>D i\<close> the messages that came for id \<open>i\<close> and \<open>R o'\<close> those callers took from stream \<open>o'\<close>:
  what was taken, what is queued and what is being delivered is in this order a part of what came.
\<close>

definition queues_ok :: "(u32 \<Rightarrow> streamMessage list) \<Rightarrow> (nat \<Rightarrow> streamMessage list) \<Rightarrow> client \<Rightarrow> bool" where
  "queues_ok D R c \<longleftrightarrow> routed (\<lambda>_. True) c \<and>
     (\<forall>o'. length (cl_objs c) \<le> o' \<longrightarrow> R o' = []) \<and>
     (\<forall>o' < length (cl_objs c). subseq (R o' @ queue c o') (D (sid (cl_objs c ! o')))) \<and>
     (\<forall>ph m o'. cl_run c = LReceive ph m o' \<longrightarrow> subseq (R o' @ queue c o' @ [m]) (D (sid (cl_objs c ! o'))))"

lemma queues_ok_mono:
  assumes "queues_ok D R c" "\<And>i. prefix (D i) (D' i)"
  shows "queues_ok D' R c"
proof -
  have "subseq xs (D i) \<Longrightarrow> subseq xs (D' i)" for xs i
    using subseq_order.trans [OF _ prefix_imp_subseq [OF assms(2)]] by blast
  with assms(1) show ?thesis unfolding queues_ok_def by blast
qed

text \<open>New streams start empty; a message in delivery was received before, or just now.\<close>

lemma client_step_new_queue:
  assumes "client_step L s e = Some t" "length (cl_objs s) \<le> o'" "o' < length (cl_objs t)"
  shows "queue t o' = []"
  using client_step_length [OF assms(1)] assms(2,3)
  by (auto simp: add_stream_def newStream_def nth_append split: if_splits)

lemma client_step_delivering:
  assumes "client_step L s e = Some t" "cl_run t = LReceive ph m o'"
  shows "(\<exists>ph'. cl_run s = LReceive ph' m o') \<or> (\<exists>mh p. e = LoopRecv mh p None \<and> m = \<lparr>header = mh, payload = p\<rparr> \<and>
    cl_streams s (StreamID mh) = Some o' \<and> cl_objs t = cl_objs s)"
  using assms
  by (cases e) (auto simp: k_failed_def client_Close_def close_obj_def loop_message_def add_stream_def getStream_def
      delete_entry_def cleanupStreams_def Let_def
      split: if_splits option.splits caller_pc.splits run_pc.splits prod.splits recv_phase.splits)

lemma took_refs:
  assumes "refs_ok s" "length (cl_objs s) \<le> o'"
  shows "taken (took e s) o' = []"
proof -
  have "caller_at s k \<noteq> Some (KWait o')" "caller_at s k \<noteq> Some (KOpen o')" for k
    using refs_ok_callerD [OF assms(1), of k] assms(2) by fastforce+
  then show ?thesis
    by (auto simp: took_def taken_def split: client_event.splits option.splits caller_pc.splits prod.splits read_result.splits)
qed

lemma queues_ok_step:
  assumes ok: "queues_ok D R s" and st: "client_step L s e = Some t"
    and D': "\<And>i. D' i = D i @ arrived e i"
    and R': "\<And>o'. R' o' = R o' @ taken (took e s) o'"
  shows "queues_ok D' R' t"
proof -
  have rt: "routed (\<lambda>_. True) s" and refs: "refs_ok s" using ok by (simp_all add: queues_ok_def routed_def)
  have ok': "queues_ok D' R s" by (rule queues_ok_mono [OF ok]) (simp add: D')
  have old: "subseq (R' o' @ queue t o') (D' (sid (cl_objs t ! o')))" if o': "o' < length (cl_objs s)" for o'
    using client_step_queue [OF refs st o']
  proof (elim disjE conjE exE)
    assume "taken (took e s) o' @ queue t o' = queue s o'"
    with ok' o' step_sid [OF st o'] show ?thesis by (simp add: queues_ok_def R')
  next
    fix ph m assume "taken (took e s) o' = []" "cl_run s = LReceive ph m o'" "queue t o' = queue s o' @ [m]"
    with ok' step_sid [OF st o'] show ?thesis by (auto simp: queues_ok_def R')
  qed
  show ?thesis unfolding queues_ok_def
  proof (intro conjI allI impI)
    show "routed (\<lambda>_. True) t" by (rule routed_step [OF rt st]) simp
  next
    fix o' assume "length (cl_objs t) \<le> o'"
    moreover have "length (cl_objs s) \<le> length (cl_objs t)" using client_step_objs [OF st] by (simp add: objs_le_def)
    ultimately show "R' o' = []" using ok took_refs [OF refs] by (simp add: queues_ok_def R')
  next
    fix o' assume o': "o' < length (cl_objs t)"
    show "subseq (R' o' @ queue t o') (D' (sid (cl_objs t ! o')))"
    proof (cases "o' < length (cl_objs s)")
      case False
      with ok took_refs [OF refs] client_step_new_queue [OF st _ o'] show ?thesis by (simp add: queues_ok_def R')
    qed (rule old)
  next
    fix ph m o' assume run: "cl_run t = LReceive ph m o'"
    from client_step_delivering [OF st run]
    show "subseq (R' o' @ queue t o' @ [m]) (D' (sid (cl_objs t ! o')))"
    proof (elim disjE exE conjE)
      fix ph' assume run': "cl_run s = LReceive ph' m o'"
      then have o': "o' < length (cl_objs s)" using refs by (auto simp: refs_ok_def)
      from client_step_queue [OF refs st o'] run have "taken (took e s) o' @ queue t o' = queue s o'" by auto
      then have eq: "R' o' @ queue t o' @ [m] = R o' @ queue s o' @ [m]" unfolding R' by (metis append.assoc)
      from ok' run' have "subseq (R o' @ queue s o' @ [m]) (D' (sid (cl_objs s ! o')))" by (simp add: queues_ok_def)
      then show ?thesis by (simp only: eq step_sid [OF st o'])
    next
      fix mh p assume e: "e = LoopRecv mh p None" "m = \<lparr>header = mh, payload = p\<rparr>" "cl_streams s (StreamID mh) = Some o'"
        "cl_objs t = cl_objs s"
      then have o': "o' < length (cl_objs s)" "sid (cl_objs s ! o') = StreamID mh"
        using refs rt by (auto simp: refs_ok_def routed_def)
      have "subseq (R o' @ queue s o') (D (StreamID mh))" using ok o' by (auto simp: queues_ok_def)
      from list_emb_append_mono [OF this subseq_order.refl [of "[m]"]]
      have "subseq (R o' @ queue s o' @ [m]) (D' (StreamID mh))" using e(1,2) by (simp add: D' arrived_def)
      moreover have "taken (took e s) o' = []" by (simp add: e(1) took_def)
      ultimately show ?thesis using e(4) o'(2) by (simp add: R')
    qed
  qed
qed

section \<open>Nothing is lost on an open stream\<close>

text \<open>The message in delivery to a stream; a stream in the table and not closed, of a client that runs.\<close>

definition flight :: "client \<Rightarrow> nat \<Rightarrow> streamMessage list" where
  "flight c o' = (case cl_run c of LReceive ph m j \<Rightarrow> if j = o' then [m] else [] | _ \<Rightarrow> [])"

definition listening :: "client \<Rightarrow> nat \<Rightarrow> bool" where
  "listening c o' \<longleftrightarrow> o' < length (cl_objs c) \<and> \<not> cl_closed c \<and> cl_streams c (sid (cl_objs c ! o')) = Some o' \<and>
     \<not> recvClose (cl_objs c ! o')"

text \<open>Delivery to an open stream of a running client does not fail but by closing the stream.\<close>

lemma receive_open:
  assumes "receive_step None p m ph st = Some (ph', st')" "\<not> recvClose st'" "obj_ok st"
  shows "buf (s_recv st') @ (case ph' of RDone e \<Rightarrow> [] | _ \<Rightarrow> [m]) = buf (s_recv st) @ [m]"
  using assms
  by (auto simp: receive_step_def receive_branch_def closeWithError_def chan_send_Ok_iff obj_ok_def
      split: recv_phase.splits pick.splits if_splits outcome.splits option.splits)

lemma client_step_closed: "client_step L s e = Some t \<Longrightarrow> cl_closed s \<Longrightarrow> cl_closed t"
  by (cases e) (auto simp: client_Close_def k_failed_def close_obj_def delete_entry_def loop_message_def cleanupStreams_def
      add_stream_def Let_def split: if_splits option.splits caller_pc.splits run_pc.splits prod.splits)

lemma listening_before:
  assumes "refs_ok s" "client_step L s e = Some t" "listening t o'" "o' < length (cl_objs s)"
  shows "listening s o'"
proof -
  note objs = client_step_objs [OF assms(2)]
  have "\<not> recvClose (cl_objs s ! o')"
    using objs_le_closed [OF objs _ assms(4)] assms(1,3) by (auto simp: refs_ok_def listening_def)
  moreover have "\<not> cl_closed s" using client_step_closed [OF assms(2)] assms(3) by (auto simp: listening_def)
  moreover have "cl_streams s (sid (cl_objs s ! o')) = Some o'"
    using client_step_length [OF assms(2)]
  proof (elim disjE exE conjE)
    assume "length (cl_objs t) = length (cl_objs s)"
    from client_step_streams [OF assms(2) this] assms(3) step_sid [OF assms(2,4)] show ?thesis
      by (simp add: listening_def)
  next
    fix k n assume "t = set_caller k (KSend (length (cl_objs s))) (add_stream n s)"
    with assms(3,4) show ?thesis by (auto simp: listening_def add_stream_def nth_append split: if_splits)
  qed
  ultimately show ?thesis using assms(4) by (simp add: listening_def)
qed

lemma client_step_flight:
  assumes "client_step L s e = Some t" "\<And>mh p err. e \<noteq> LoopRecv mh p err" "\<And>p. e \<noteq> LoopReceive p"
  shows "flight t o' = flight s o'"
  using assms
  by (cases e) (auto simp: flight_def k_failed_def client_Close_def close_obj_def add_stream_def
      delete_entry_def cleanupStreams_def Let_def split: if_splits option.splits caller_pc.splits run_pc.splits prod.splits)

lemma client_step_lossless:
  assumes rt: "routed (\<lambda>_. True) s" and st: "client_step L s e = Some t" and on: "listening t o'" and o': "o' < length (cl_objs s)"
  shows "taken (took e s) o' @ queue t o' @ flight t o' = queue s o' @ flight s o' @ arrived e (sid (cl_objs s ! o'))"
proof -
  have refs: "refs_ok s" using rt by (simp add: routed_def)
  have on': "listening s o'" by (rule listening_before [OF refs st on o'])
  note Q = client_step_queue [OF refs st o']
  consider (deliver) p where "e = LoopReceive p" | (get) mh p err where "e = LoopRecv mh p err"
    | (other) "\<And>mh p err. e \<noteq> LoopRecv mh p err" "\<And>p. e \<noteq> LoopReceive p" by (cases e) auto
  then show ?thesis
  proof cases
    case other
    note fl = client_step_flight [OF st other, of o']
    from Q show ?thesis
    proof (elim disjE conjE exE)
      assume "taken (took e s) o' @ queue t o' = queue s o'"
      then have "taken (took e s) o' @ queue t o' @ flight t o' = queue s o' @ flight s o'"
        unfolding fl by (metis append.assoc)
      then show ?thesis by (simp add: other(1))
    next
      fix ph m assume "cl_run s = LReceive ph m o'" "cl_run t = LTop"
      with fl show ?thesis by (simp add: flight_def)
    qed
  next
    case get
    then have run: "cl_run s = LRecv" using st by (auto split: if_splits)
    then have q: "taken (took e s) o' @ queue t o' = queue s o'" using Q by auto
    have "flight t o' = arrived e (sid (cl_objs s ! o'))"
    proof (cases err)
      case None
      have "cl_streams s (StreamID mh) = Some j \<Longrightarrow> sid (cl_objs s ! j) = StreamID mh" for j
        using rt by (simp add: routed_def)
      with None get run st on' show ?thesis
        by (auto simp: arrived_def listening_def loop_message_def getStream_def flight_def split: option.splits)
    next
      case (Some x)
      with get run st show ?thesis
        by (auto simp: arrived_def loop_message_def flight_def close_obj_def split: option.splits if_splits)
    qed
    with q run show ?thesis by (simp add: flight_def)
  next
    case deliver
    then obtain ph m j ph' x where r: "cl_run s = LReceive ph m j"
      "receive_step (cl_ctx s) p m ph (cl_objs s ! j) = Some (ph', x)" "cl_objs t = (cl_objs s)[j := x]"
      "cl_run t = (case ph' of RDone e \<Rightarrow> LTop | _ \<Rightarrow> LReceive ph' m j)"
      using st by (auto split: run_pc.splits option.splits prod.splits)
    have e: "took e s = []" "arrived e i = []" for i using deliver by (simp_all add: took_def arrived_def)
    show ?thesis
    proof (cases "j = o'")
      case False
      with r e show ?thesis by (simp add: flight_def split: recv_phase.split)
    next
      case True
      have "cl_ctx s = None" using on' by (simp add: listening_def cl_ctx_def)
      moreover have "\<not> recvClose x" using on r(3) True o' by (simp add: listening_def)
      moreover have "obj_ok (cl_objs s ! j)" using refs o' True by (simp add: refs_ok_def)
      ultimately have "buf (s_recv x) @ (case ph' of RDone e \<Rightarrow> [] | _ \<Rightarrow> [m]) = queue s o' @ [m]"
        using receive_open [of p m ph "cl_objs s ! j" ph' x] r(2) True by simp
      with True r e o' show ?thesis by (simp add: flight_def split: recv_phase.splits)
    qed
  qed
qed

definition queues_full :: "(u32 \<Rightarrow> streamMessage list) \<Rightarrow> (nat \<Rightarrow> streamMessage list) \<Rightarrow> client \<Rightarrow> bool" where
  "queues_full D R c \<longleftrightarrow> (length (cl_objs c) \<le> 2 ^ 31 \<longrightarrow>
     (\<forall>o'. listening c o' \<longrightarrow> R o' @ queue c o' @ flight c o' = D (sid (cl_objs c ! o'))))"

lemma queues_full_step:
  assumes ok: "queues_ok D R s" and full: "queues_full D R s" and st: "client_step L s e = Some t"
    and D': "\<And>i. D' i = D i @ arrived e i" and R': "\<And>o'. R' o' = R o' @ taken (took e s) o'"
    and new: "\<And>k. e = Register k \<Longrightarrow> length (cl_objs s) < 2 ^ 31 \<Longrightarrow> D (cl_nextStreamID s) = []"
  shows "queues_full D' R' t"
  unfolding queues_full_def
proof (intro impI allI)
  fix o' assume few: "length (cl_objs t) \<le> 2 ^ 31" and on: "listening t o'"
  have rt: "routed (\<lambda>_. True) s" and refs: "refs_ok s" using ok by (simp_all add: queues_ok_def routed_def)
  have le: "length (cl_objs s) \<le> length (cl_objs t)" using client_step_objs [OF st] by (simp add: objs_le_def)
  show "R' o' @ queue t o' @ flight t o' = D' (sid (cl_objs t ! o'))"
  proof (cases "o' < length (cl_objs s)")
    case True
    have "R o' @ queue s o' @ flight s o' = D (sid (cl_objs s ! o'))"
      using full listening_before [OF refs st on True] few le by (simp add: queues_full_def)
    with client_step_lossless [OF rt st on True] show ?thesis
      by (simp add: R' D' step_sid [OF st True])
  next
    case False
    with on obtain k n where t: "e = Register k" "t = set_caller k (KSend (length (cl_objs s))) (add_stream n s)" "o' = length (cl_objs s)"
      using client_step_length [OF st] by (auto simp: listening_def add_stream_def)
    have "R o' = []" using ok t(3) by (simp add: queues_ok_def)
    moreover have "flight s o' = []" using refs t(3) by (auto simp: flight_def refs_ok_def split: run_pc.splits)
    moreover have "D (cl_nextStreamID s) = []" by (rule new [OF t(1)]) (use few t(2) in \<open>simp add: add_stream_def\<close>)
    ultimately show ?thesis
      by (simp add: R' D' t arrived_def took_def add_stream_def newStream_def flight_def)
  qed
qed

section \<open>The ids the server answers\<close>

text \<open>Every response in the connection is for an id of \<open>I\<close>, those that came.\<close>

definition answers_ok :: "u32 set \<Rightarrow> sconn \<Rightarrow> bool" where
  "answers_ok I c \<longleftrightarrow>
     (\<forall>x \<in> set (responses_sent c). resp_id (fst x) \<in> I) \<and>
     (\<forall>r b. mpc c = MSend r b \<longrightarrow> resp_id r \<in> I) \<and>
     (\<forall>i st. rpc c = RSendStatus i st \<longrightarrow> i \<in> I) \<and> (\<forall>i f p h. rpc c = RData i f p h \<longrightarrow> i \<in> I) \<and>
     (\<forall>w \<in> set (workers c). w_id w \<in> I \<and> (\<forall>r. w_pc w = WResp r \<longrightarrow> resp_id r \<in> I))"

lemma answers_ok_mono: "answers_ok I c \<Longrightarrow> I \<subseteq> J \<Longrightarrow> answers_ok J c"
  unfolding answers_ok_def by blast

text \<open>The receive goroutine only answers the message it works on.\<close>

definition answers_id :: "u32 \<Rightarrow> recv_pc \<Rightarrow> bool" where
  "answers_id i pc = (case pc of RSendStatus j m \<Rightarrow> j = i | RData j f p h \<Rightarrow> j = i | _ \<Rightarrow> True)"

lemma answers_id_simps [simp]:
  "answers_id i RTop" "answers_id i RPanic" "answers_id i (RStore j r)" "answers_id i RExit"
  "answers_id i (RSendStatus j m) = (j = i)" "answers_id i (RData j f p h) = (j = i)" "answers_id i (rpc (invalid j txt c)) = (j = i)"
  by (simp_all add: answers_id_def invalid_def)

lemma answers_id_close: "answers_id (StreamID mh) (rpc (recv_close mh p h c))"
  by (simp add: recv_close_def Let_def split: outcome.split)

lemma answers_id_data: "recv_data L mh p h r c = Some t \<Longrightarrow> answers_id (StreamID mh) (rpc t)"
  by (auto simp: recv_data_def answers_id_close split: outcome.splits data_phase.splits option.splits prod.splits)

lemma answers_id_body:
  assumes "recv_body E mh p err ctx_err pick c = Some t" "rpc c = RRecv"
  shows "answers_id (StreamID mh) (rpc t)"
proof -
  have "answers_id (StreamID mh) (rpc t)" if "recv_request E mh p ctx_err pick c = Some t"
    using that by (cases rule: recv_request_cases) simp_all
  moreover have "answers_id (StreamID mh) (rpc t)" if "recv_data_message L mh p ctx_err pick c = Some t" for L
    using that by (auto simp: recv_data_message_def answers_id_close dest: answers_id_data split: option.splits if_splits)
  ultimately show ?thesis
    using assms by (auto simp: recv_body_def split: option.splits prod.splits if_splits outcome.splits)
qed

lemma answers_ok_recv:
  assumes "answers_ok I c" "recv_frame_eq c t" "calls_eq c t \<or> call_started i c t" "answers_id i (rpc t)" "i \<in> I"
  shows "answers_ok I t"
  using assms by (auto simp: answers_ok_def recv_frame_eq_def calls_eq_def call_started_def)

lemma answers_ok_set_worker:
  assumes "answers_ok I c" "i < length (workers c)" "\<And>r. pc = WResp r \<Longrightarrow> resp_id r \<in> I"
  shows "answers_ok I (set_worker i pc c)"
proof -
  have "w_id w \<in> I \<and> (\<forall>r. w_pc w = WResp r \<longrightarrow> resp_id r \<in> I)"
    if w: "w \<in> insert ((workers c ! i)\<lparr>w_pc := pc\<rparr>) (set (workers c))" for w
    using w assms nth_mem [OF assms(2)] by (auto simp: answers_ok_def)
  moreover have "set (workers (set_worker i pc c)) \<subseteq> insert ((workers c ! i)\<lparr>w_pc := pc\<rparr>) (set (workers c))"
    unfolding set_worker_def by (simp add: set_update_subset_insert)
  ultimately have "\<forall>w \<in> set (workers (set_worker i pc c)). w_id w \<in> I \<and> (\<forall>r. w_pc w = WResp r \<longrightarrow> resp_id r \<in> I)" by blast
  with assms(1) show ?thesis by (simp add: answers_ok_def)
qed

lemma answers_ok_worker:
  assumes "answers_ok I c" "i < length (workers c)"
  shows "w_id (workers c ! i) \<in> I" "w_pc (workers c ! i) = WResp r \<Longrightarrow> resp_id r \<in> I"
  using assms nth_mem [OF assms(2)] unfolding answers_ok_def by blast+

lemma answers_ok_step:
  assumes ok: "answers_ok I c" and st: "conn_step E c e = Some t"
    and i: "\<And>mh p err ctx_err pick. e = RMessage mh p err ctx_err pick \<Longrightarrow> StreamID mh \<in> I"
  shows "answers_ok I t"
proof (cases e)
  case (RMessage mh p err ctx_err pick)
  with st have b: "recv_body E mh p err ctx_err pick c = Some t" "rpc c = RRecv" by (auto split: if_splits)
  with recv_body_eq [OF b(1)] answers_id_body [OF b] i [OF RMessage] ok show ?thesis
    by (blast intro: answers_ok_recv)
next
  case (RWaitData ctx_err pick)
  then obtain j f p h r where d: "rpc c = RData j f p h"
    "recv_data (e_lib E) \<lparr>Length = of_nat (length (bytes_of p)), StreamID = j, Type = messageTypeData, Flags = f\<rparr> p h r c = Some t"
    using st by (auto split: recv_pc.splits)
  from recv_data_eq [OF d(2)] answers_id_data [OF d(2)] ok d(1) show ?thesis
    by (intro answers_ok_recv [of I c t j]) (auto simp: answers_ok_def)
next
  case (MTakeWorker k)
  then obtain r where k: "k < length (workers c)" "w_pc (workers c ! k) = WResp r"
    "t = (set_worker k (after_response r) c)\<lparr>mpc := MSend r False\<rparr>"
    using st by (auto split: main_pc.splits if_splits worker_pc.splits)
  have "answers_ok I (set_worker k (after_response r) c)"
    by (rule answers_ok_set_worker [OF ok k(1)]) (simp add: after_response_def split: if_splits)
  with answers_ok_worker(2) [OF ok k(1,2)] k(3) show ?thesis by (simp add: answers_ok_def)
next
  case (WFinish k s p)
  with st answers_ok_worker(1) [OF ok, of k] show ?thesis
    by (auto intro!: answers_ok_set_worker [OF ok] simp: final_response_def split: if_splits)
next
  case (WSend k p)
  with st answers_ok_worker(1) [OF ok, of k] show ?thesis
    by (auto intro!: answers_ok_set_worker [OF ok] simp: stream_response_def split: if_splits)
next
  case (WAbort k)
  with st show ?thesis
    by (auto intro!: answers_ok_set_worker [OF ok] simp: after_response_def split: if_splits worker_pc.splits)
qed (use st ok in \<open>auto simp: answers_ok_def conn_close_def main_guard_def main_send_def conn_exit_def conn_return_def status_response_def Let_def
      split: if_splits recv_pc.splits main_pc.splits option.splits outcome.splits sum.splits prod.splits bool.splits\<close>)

text \<open>The client only writes on streams of its own.\<close>

definition sent_own :: "client \<Rightarrow> bool" where [inv_defs]:
  "sent_own c \<longleftrightarrow> refs_ok c \<and> ids_ok c \<and> (\<forall>f \<in> set (cl_sent c). \<exists>o' < length (cl_objs c). fst f = stream_id o')"

lemma sent_own_init: "sent_own client0"
  using refs_ok_init ids_ok_init by (simp add: sent_own_def)

lemma client_step_frame:
  assumes "client_step L s e = Some t" "f \<in> set (cl_sent t)"
  shows "f \<in> set (cl_sent s) \<or>
    (\<exists>k o'. (caller_at s k = Some (KSend o') \<or> caller_at s k = Some (KOpen o')) \<and> fst f = sid (cl_objs s ! o'))"
proof (cases e)
  case (LoopRecv mh p err)
  with assms show ?thesis by (auto simp: loop_message_def close_obj_def split: if_splits option.splits)
next
  case (Sent k x)
  with assms(1) obtain o' where k: "caller_at s k = Some (KSend o')" by (auto split: option.splits caller_pc.splits)
  with Sent assms have "f \<in> set (cl_sent s) \<or> fst f = sid (cl_objs s ! o')"
    by (auto simp: k_failed_def Let_def split: option.splits)
  with k show ?thesis by blast
next
  case (UserSend k fl p x)
  with assms(1) obtain o' where k: "caller_at s k = Some (KOpen o')" by (auto split: option.splits caller_pc.splits)
  with UserSend assms have "f \<in> set (cl_sent s) \<or> fst f = sid (cl_objs s ! o')"
    by (auto split: option.splits if_splits)
  with k show ?thesis by blast
qed (use assms in \<open>auto simp: k_failed_def client_Close_def close_obj_def add_stream_def
      delete_entry_def cleanupStreams_def Let_def split: if_splits option.splits caller_pc.splits run_pc.splits prod.splits\<close>)

lemma sent_own_step:
  assumes inv: "sent_own s" and st: "client_step L s e = Some t"
  shows "sent_own t"
proof -
  have own: "\<exists>o' < length (cl_objs s). fst f = stream_id o'" if "f \<in> set (cl_sent t)" for f
  proof (cases "f \<in> set (cl_sent s)")
    case False
    with client_step_frame [OF st that] obtain k o' where
      k: "caller_at s k = Some (KSend o') \<or> caller_at s k = Some (KOpen o')" "fst f = sid (cl_objs s ! o')"
      by blast
    have "refs_ok s" using inv by (simp add: sent_own_def)
    from refs_ok_callerD [OF this] k(1) have "o' < length (cl_objs s)" by force
    with k(2) inv show ?thesis by (auto simp: sent_own_def ids_ok_def)
  qed (use inv in \<open>simp add: sent_own_def\<close>)
  have "length (cl_objs s) \<le> length (cl_objs t)" using client_step_objs [OF st] by (simp add: objs_le_def)
  with own have "\<forall>f \<in> set (cl_sent t). \<exists>o' < length (cl_objs t). fst f = stream_id o'" by (meson order.strict_trans2)
  with inv refs_ok_step [OF _ st] ids_ok_step [OF _ st] show ?thesis by (simp add: sent_own_def)
qed

interpretation client_sent_own: step_invariant "client_step L" sent_own for L
  by unfold_locales (rule sent_own_step)

definition link_answers :: "link \<Rightarrow> bool" where [inv_defs]:
  "link_answers s \<longleftrightarrow> answers_ok (fst ` set (ln_up_got s)) (ln_conn s)"

lemma link_answers_step:
  assumes base: "link_base E s" and inv: "link_answers s" and st: "link_step E s ev = Some t"
  shows "link_answers t"
proof (cases "\<exists>e c p. ev = ServerRecv e c p")
  case False
  then have n: "\<And>e c p. ev \<noteq> ServerRecv e c p" by blast
  from link_not_server_recv [OF st n] inv show ?thesis
    using answers_ok_step [OF inv [unfolded link_answers_def]] by (metis link_answers_def)
next
  case True
  then obtain e ctx_err pick where ev: "ev = ServerRecv e ctx_err pick" by blast
  obtain mh p err q where r: "conn_error e" "pipe_recv (e_lib E) e (ln_up s) = ((mh, p, err), q)"
    "conn_step E (ln_conn s) (RMessage mh p err ctx_err pick) = Some (ln_conn t)"
    "ln_up_got t = ln_up_got s @ got_message (mh, p, err)" "ln_client t = ln_client s"
    by (rule link_server_recv [OF st [unfolded ev]])
  then have body: "recv_body E mh p err ctx_err pick (ln_conn s) = Some (ln_conn t)" "rpc (ln_conn s) = RRecv"
    by (auto split: if_splits)
  note ok = answers_ok_mono [OF inv [unfolded link_answers_def], of "fst ` set (ln_up_got t)"]
  show ?thesis
  proof (cases err)
    case None
    with r(4) have "StreamID mh \<in> fst ` set (ln_up_got t)" "fst ` set (ln_up_got s) \<subseteq> fst ` set (ln_up_got t)"
      by (auto simp: got_message_def)
    with answers_ok_step [OF ok r(3)] show ?thesis by (simp add: link_answers_def)
  next
    case (Some x)
    have "pipe_ok (client_msgs (ln_client s)) (ln_up_got s) (ln_up s)"
      using base body(2) by (simp add: link_base_def link_inv_def way_ok_def)
    from pipe_recv_error [OF this r(2) [unfolded Some] r(1)] have "conn_error x" .
    with conn_recv_failed [OF r(3) [unfolded Some]] base have "rpc (ln_conn t) = RExit" by (simp add: link_base_def)
    moreover have "recv_frame_eq (ln_conn s) (ln_conn t)" "calls_eq (ln_conn s) (ln_conn t)"
      using recv_body_eq [OF body(1)] recv_body_failed body(1) Some by blast+
    moreover have "ln_up_got t = ln_up_got s" using r(4) Some by (simp add: got_message_def)
    ultimately show ?thesis using inv
      by (auto simp: link_answers_def answers_ok_def recv_frame_eq_def calls_eq_def)
  qed
qed

text \<open>So what comes down is for streams of the client.\<close>

lemma link_base_ends:
  assumes "link_base E s"
  shows "sent_own (ln_client s)" "framed (e_proto E) (ln_conn s)"
proof -
  obtain es fs where r: "run (client_step (e_lib E)) client0 es = Some (ln_client s)" "run (conn_step E) conn0 fs = Some (ln_conn s)"
    using assms by (auto simp: link_base_def link_reach_def)
  show "sent_own (ln_client s)" by (rule client_sent_own.inv_run [OF sent_own_init r(1)])
  show "framed (e_proto E) (ln_conn s)" by (rule conn_framed.inv_run [OF _ r(2)]) (simp add: framed_def conn0_def)
qed

lemma down_ids:
  assumes base: "link_base E s" and "link_answers s" "m \<in> set (ln_down_got s)"
  shows "\<exists>o' < length (cl_objs (ln_client s)). fst m = stream_id o'"
proof -
  note B = link_baseD [OF base] and D = link_base_ends [OF base]
  have "m \<in> set (server_msgs (e_proto E) (ln_conn s))" using assms(3) B(3) set_mono_prefix by blast
  then obtain r b where r: "(r, b) \<in> set (responses_sent (ln_conn s))" "m = wire_msg (projr (response_frame (e_proto E) r))"
    by (auto simp: server_msgs_def)
  then obtain i t fl p where f: "response_frame (e_proto E) r = Inr (i, t, fl, p)" using D(2) by (fastforce simp: framed_def)
  with r(2) have id: "fst m = resp_id r" using response_frame_id [OF f] by (simp add: wire_msg_def)
  have "\<forall>x \<in> set (responses_sent (ln_conn s)). resp_id (fst x) \<in> fst ` set (ln_up_got s)"
    using assms(2) by (simp add: link_answers_def answers_ok_def)
  from bspec [OF this r(1)] id have "fst m \<in> fst ` set (ln_up_got s)" by simp
  then have "fst m \<in> fst ` set (client_msgs (ln_client s))" by (rule subsetD [OF image_mono [OF set_mono_prefix [OF B(2)]]])
  moreover have "fst (wire_msg f) = fst f" for f by (simp add: wire_msg_def split: prod.split)
  ultimately have "fst m \<in> fst ` set (cl_sent (ln_client s))" by (simp add: client_msgs_def image_image)
  then obtain f where f: "fst m = fst f" "f \<in> set (cl_sent (ln_client s))" by (rule imageE)
  have "\<forall>f \<in> set (cl_sent (ln_client s)). \<exists>o' < length (cl_objs (ln_client s)). fst f = stream_id o'"
    using D(1) by (simp add: sent_own_def)
  from bspec [OF this f(2)] show ?thesis by (simp only: f(1))
qed

section \<open>The link\<close>

text \<open>The messages of a stream, as the client's \<open>run\<close> receives them.\<close>

definition stream_messages :: "message list \<Rightarrow> u32 \<Rightarrow> streamMessage list" where
  "stream_messages ms i =
     map (\<lambda>m. case received m of (mh, p, e) \<Rightarrow> \<lparr>header = mh, payload = p\<rparr>) (filter (\<lambda>m. fst m = i) ms)"

lemma stream_messages_append: "stream_messages (ms @ ns) i = stream_messages ms i @ stream_messages ns i"
  by (simp add: stream_messages_def)

definition link_queues :: "link \<Rightarrow> bool" where [inv_defs]:
  "link_queues s \<longleftrightarrow>
     queues_ok (stream_messages (ln_down_got s)) (taken (ln_took s)) (ln_client s) \<and>
     queues_full (stream_messages (ln_down_got s)) (taken (ln_took s)) (ln_client s)"

text \<open>A step of the link is one of the client, with what arrives and what is taken in it, or none.\<close>

lemma link_client_event:
  assumes base: "link_base E s" and st: "link_step E s ev = Some t"
  shows "(ln_client t = ln_client s \<and> ln_down_got t = ln_down_got s \<and> ln_took t = ln_took s) \<or>
    (\<exists>e. client_step (e_lib E) (ln_client s) e = Some (ln_client t) \<and> ln_took t = ln_took s @ took e (ln_client s) \<and>
       (\<forall>i. stream_messages (ln_down_got t) i = stream_messages (ln_down_got s) i @ arrived e i))"
proof (cases ev)
  case (ClientRecv e)
  obtain mh p err q where r: "pipe_recv (e_lib E) e (ln_down s) = ((mh, p, err), q)"
    "client_step (e_lib E) (ln_client s) (LoopRecv mh p err) = Some (ln_client t)"
    "ln_down_got t = ln_down_got s @ got_message (mh, p, err)" "client_reading (ln_client s)"
    by (rule link_client_recv [OF st [unfolded ClientRecv]])
  have "ln_took t = ln_took s"
    using st ClientRecv by (auto simp del: client_step.simps split: if_splits option.splits prod.splits)
  moreover have "stream_messages (ln_down_got t) i = stream_messages (ln_down_got s) i @ arrived (LoopRecv mh p err) i" for i
  proof (cases err)
    case None
    have "pipe_ok (server_msgs (e_proto E) (ln_conn s)) (ln_down_got s) (ln_down s)"
      using base r(4) by (simp add: link_base_def link_inv_def way_ok_def)
    from pipe_ok_recv [OF this r(1) [unfolded None]] obtain m where m: "(mh, p, None) = received m" by blast
    from received_inverse [OF m] have "got_message (mh, p, None) = [m]" "fst m = StreamID mh" by (auto simp: got_message_def)
    with m None r(3) show ?thesis by (auto simp: stream_messages_def arrived_def simp flip: m)
  next
    case (Some x)
    with r(3) show ?thesis by (simp add: got_message_def arrived_def)
  qed
  ultimately show ?thesis using r(2) by (intro disjI2 exI [of _ "LoopRecv mh p err"]) (simp add: took_def)
next
  case (ClientAct e)
  with st have c: "client_step (e_lib E) (ln_client s) e = Some (ln_client t)" "ln_down_got t = ln_down_got s"
    "ln_took t = ln_took s @ took e (ln_client s)" "client_local e"
    by (auto simp del: client_step.simps split: if_splits option.splits)
  have "e \<noteq> LoopRecv mh p err" for mh p err using c(4) by (auto simp: client_local_def)
  with c show ?thesis by (intro disjI2 exI [of _ e]) simp
next
  case (ClientRequest k)
  with st obtain x where "client_step (e_lib E) (ln_client s) (Sent k x) = Some (ln_client t)" "ln_down_got t = ln_down_got s" "ln_took t = ln_took s"
    by (auto simp: client_sends_def simp del: client_step.simps split: option.splits caller_pc.splits prod.splits)
  then show ?thesis by (intro disjI2 exI [of _ "Sent k x"]) (simp add: took_def)
next
  case (ClientData k fl p)
  with st obtain x where "client_step (e_lib E) (ln_client s) (UserSend k fl p x) = Some (ln_client t)" "ln_down_got t = ln_down_got s" "ln_took t = ln_took s"
    by (auto simp: client_sends_def simp del: client_step.simps split: option.splits caller_pc.splits prod.splits)
  then show ?thesis by (intro disjI2 exI [of _ "UserSend k fl p x"]) (simp add: took_def)
qed (use st in \<open>auto simp del: conn_step.simps split: if_splits option.splits main_pc.splits sum.splits prod.splits\<close>)

lemma link_queues_step:
  assumes base: "link_base E s" and ans: "link_answers s" and inv: "link_queues s" and st: "link_step E s ev = Some t"
  shows "link_queues t"
  using link_client_event [OF base st]
proof (elim disjE exE conjE)
  fix e assume e: "client_step (e_lib E) (ln_client s) e = Some (ln_client t)" "ln_took t = ln_took s @ took e (ln_client s)"
    "\<forall>i. stream_messages (ln_down_got t) i = stream_messages (ln_down_got s) i @ arrived e i"
  note I = inv [unfolded link_queues_def, THEN conjunct1] inv [unfolded link_queues_def, THEN conjunct2]
  have R: "taken (ln_took t) o' = taken (ln_took s) o' @ taken (took e (ln_client s)) o'" for o' by (simp add: e(2))
  have fresh: "stream_messages (ln_down_got s) (cl_nextStreamID (ln_client s)) = []" if less: "length (cl_objs (ln_client s)) < 2 ^ 31"
  proof -
    have "ids_ok (ln_client s)" using link_base_ends(1) [OF base] by (simp add: sent_own_def)
    then have "cl_nextStreamID (ln_client s) = stream_id (length (cl_objs (ln_client s)))" by (simp add: ids_ok_def)
    moreover have "fst m \<noteq> stream_id (length (cl_objs (ln_client s)))" if m: "m \<in> set (ln_down_got s)" for m
    proof -
      obtain o' where o': "o' < length (cl_objs (ln_client s))" "fst m = stream_id o'" using down_ids [OF base ans m] by blast
      then show ?thesis using stream_id_inject [of o' "length (cl_objs (ln_client s))"] less by auto
    qed
    ultimately show ?thesis by (simp add: stream_messages_def filter_empty_conv)
  qed
  have "queues_ok (stream_messages (ln_down_got t)) (taken (ln_took t)) (ln_client t)"
    by (rule queues_ok_step [OF I(1) e(1) _ R]) (simp add: e(3))
  moreover have "queues_full (stream_messages (ln_down_got t)) (taken (ln_took t)) (ln_client t)"
    by (rule queues_full_step [OF I e(1) _ R fresh]) (simp_all add: e(3))
  ultimately show ?thesis by (simp add: link_queues_def)
qed (use inv in \<open>simp add: link_queues_def\<close>)

interpretation link_queue: step_invariant "link_step E" "\<lambda>s. link_base E s \<and> link_answers s \<and> link_queues s" for E
  by unfold_locales (blast intro: link_base_step link_answers_step link_queues_step)

lemma link_answers_init: "link_answers (link0 wu wd)"
  by (simp add: link_answers_def link0_def answers_ok_def conn0_def)

lemma link_queues_init: "link_queues (link0 wu wd)"
  using routed_init by (simp add: link_queues_def link0_def queues_ok_def queues_full_def taken_def listening_def)

section \<open>Properties\<close>

text \<open>
  C9: What the server sends on a stream reaches its caller, in order. In every run of client and
  server over one connection: every message that comes down is for a stream of the client; what the
  callers of a stream have taken, followed by what is queued for them, is in this order a part of the
  messages received for that stream, which are a prefix of those the server sent on it, so nothing is
  invented, duplicated, reordered or taken from another stream; and while the client runs (with at most \<open>2 ^ 31\<close>
  streams) and the stream is in its table and not closed, nothing is missing: taken, queued and in
  delivery are together exactly the messages received.
\<close>

theorem stream_messages_reach_caller:
  assumes "status_lib_ok (e_lib E)" "fresh_writer wu" "fresh_writer wd" "run (link_step E) (link0 wu wd) es = Some s"
  shows "(\<forall>m \<in> set (ln_down_got s). \<exists>o' < length (cl_objs (ln_client s)). fst m = stream_id o') \<and>
    (\<forall>o' < length (cl_objs (ln_client s)).
       subseq (taken (ln_took s) o' @ queue (ln_client s) o') (stream_messages (ln_down_got s) (stream_id o')) \<and>
       prefix (stream_messages (ln_down_got s) (stream_id o')) (stream_messages (server_msgs (e_proto E) (ln_conn s)) (stream_id o')) \<and>
       (length (cl_objs (ln_client s)) \<le> 2 ^ 31 \<and> listening (ln_client s) o' \<longrightarrow>
          taken (ln_took s) o' @ queue (ln_client s) o' @ flight (ln_client s) o' = stream_messages (ln_down_got s) (stream_id o')))"
proof -
  have base0: "link_base E (link0 wu wd)" by (rule link_base_init [OF assms(1-3)])
  have inv: "link_base E s" "link_answers s" "link_queues s"
    using link_queue.inv_run [OF _ assms(4)] base0 link_answers_init link_queues_init by blast+
  have id: "sid (cl_objs (ln_client s) ! o') = stream_id o'" if "o' < length (cl_objs (ln_client s))" for o'
    using link_base_ends(1) [OF inv(1)] that by (simp add: sent_own_def ids_ok_def)
  have "prefix (stream_messages (ln_down_got s) i) (stream_messages (server_msgs (e_proto E) (ln_conn s)) i)" for i
    using link_baseD(3) [OF inv(1)] by (auto simp: prefix_def stream_messages_append)
  with inv(3) down_ids [OF inv(1,2)] id show ?thesis
    by (simp add: link_queues_def queues_ok_def queues_full_def)
qed

text \<open>A stream on which the server sends a message that its user reads.\<close>

definition link_run4 :: "link_event list" where
  "link_run4 = link_call_up False flagRemoteOpen (Some [1, 7]) @
     [ServerAct (WSend 0 (Some [5])), ServerAct MGuard, ServerAct (MTakeWorker 0), ServerSend,
      ClientAct LoopGuard, ClientRecv IoEOF, ClientAct (LoopReceive PickDefault), ClientAct (LoopReceive PickSend),
      ClientAct (UserRead 0 None ReadMessage False)]"

lemma link_run4_result:
  "\<exists>s. run (link_step demo_env) calm_link link_run4 = Some s \<and> length (cl_objs (ln_client s)) = 1 \<and>
     listening (ln_client s) 0 \<and> map payload (taken (ln_took s) 0) = [Some [5]]"
  by (simp add: link_run4_def link_call_up_def link_eval messageHeaderLength_def flagRemoteOpen_def listening_def took_def taken_def)

theorem stream_messages_reach_caller_witness:
  "\<exists>s. run (link_step demo_env) calm_link link_run4 = Some s \<and>
     taken (ln_took s) 0 @ queue (ln_client s) 0 @ flight (ln_client s) 0 = stream_messages (ln_down_got s) (stream_id 0) \<and>
     map payload (taken (ln_took s) 0) = [Some [5]]"
proof -
  obtain s where s: "run (link_step demo_env) calm_link link_run4 = Some s" "length (cl_objs (ln_client s)) = 1"
    "listening (ln_client s) 0" "map payload (taken (ln_took s) 0) = [Some [5]]"
    using link_run4_result by (elim exE conjE)
  have "status_lib_ok (e_lib demo_env)" using example_status_lib_ok by (simp add: demo_env_def)
  note P = stream_messages_reach_caller [OF this fresh_calm fresh_calm s(1) [unfolded calm_link_def]]
  have few: "0 < length (cl_objs (ln_client s))" "length (cl_objs (ln_client s)) \<le> 2 ^ 31" using s(2) by simp_all
  note Q = P [THEN conjunct2, THEN spec [of _ 0], THEN mp, OF few(1)]
  have "taken (ln_took s) 0 @ queue (ln_client s) 0 @ flight (ln_client s) 0 = stream_messages (ln_down_got s) (stream_id 0)"
    by (rule Q [THEN conjunct2, THEN conjunct2, THEN mp, OF conjI [OF few(2) s(3)]])
  with s(1,4) show ?thesis by (intro exI [of _ s] conjI)
qed

end
