(* ===== verification/LinkProgress.thy ===== *)
theory LinkProgress
  imports LinkReplies
begin

text \<open>
  Progress in the runs of theory \<open>LinkRuns\<close>: from any reachable state a waiting caller whose method
  runs at the server can be answered, whatever else is under way at the two ends.
\<close>

section \<open>The client takes in what has come\<close>

text \<open>The queues of the client have room for one message at least, and \<open>receive\<close> has not returned.\<close>

definition loop_ok :: "client \<Rightarrow> bool" where [inv_defs]:
  "loop_ok c \<longleftrightarrow> refs_ok c \<and> (\<forall>st \<in> set (cl_objs c). 0 < chan_cap (s_recv st)) \<and>
     (\<forall>ph m j. cl_run c = LReceive ph m j \<longrightarrow> (\<forall>e. ph \<noteq> RDone e))"

lemma loop_ok_init: "loop_ok client0"
  using refs_ok_init by (simp add: loop_ok_def)

lemma cap_receive: "receive_step ctx p m ph st = Some (ph', st') \<Longrightarrow> chan_cap (s_recv st') = chan_cap (s_recv st)"
  by (auto simp: receive_step_def receive_branch_def chan_send_Ok_iff
      split: recv_phase.splits pick.splits if_splits outcome.splits option.splits)

lemma cap_read: "read_select ctx p st = Some (r, st') \<Longrightarrow> chan_cap (s_recv st') = chan_cap (s_recv st)"
  by (drule read_select_cases) (auto simp: chan_recv_Some_iff)

lemma cap_wait: "wait_select p s st = Some (r, st') \<Longrightarrow> chan_cap (s_recv st') = chan_cap (s_recv st)"
  by (auto simp: wait_select_def dest: cap_read split: wait_pick.splits if_splits)

lemma all_cap_update:
  "\<forall>st \<in> set xs. 0 < chan_cap (s_recv st) \<Longrightarrow> j < length xs \<Longrightarrow> chan_cap (s_recv x) = chan_cap (s_recv (xs ! j)) \<Longrightarrow>
   \<forall>st \<in> set (xs[j := x]). 0 < chan_cap (s_recv st)"
  by (rule all_set_update) simp_all

lemma all_cap_close:
  assumes "\<forall>st \<in> set xs. 0 < chan_cap (s_recv st)"
  shows "\<forall>st \<in> set (xs[j := closeWithError e (xs ! j)]). 0 < chan_cap (s_recv st)"
proof (cases "j < length xs")
  case True
  show ?thesis by (rule all_cap_update [OF assms True]) simp
qed (use assms in \<open>simp add: list_update_beyond\<close>)

lemma loop_ok_step:
  assumes inv: "loop_ok s" and st: "client_step L s e = Some t"
  shows "loop_ok t"
proof -
  have refs: "refs_ok s" and caps: "\<forall>st \<in> set (cl_objs s). 0 < chan_cap (s_recv st)" using inv by (simp_all add: loop_ok_def)
  have "(\<forall>st \<in> set (cl_objs t). 0 < chan_cap (s_recv st)) \<and> (\<forall>ph m j. cl_run t = LReceive ph m j \<longrightarrow> (\<forall>e. ph \<noteq> RDone e))"
  proof (cases e)
    case (Wait k p)
    with st obtain j r x where "caller_at s k = Some (KWait j)" "wait_select p s (cl_objs s ! j) = Some (r, x)"
      "cl_objs t = (cl_objs s)[j := x]" "cl_run t = cl_run s"
      by (auto split: option.splits caller_pc.splits prod.splits)
    with refs_ok_callerD [OF refs, of k "KWait j" j] all_cap_update [OF caps, of j x] cap_wait inv show ?thesis
      by (simp add: loop_ok_def)
  next
    case (UserRead k c p d)
    with st obtain j r x where "caller_at s k = Some (KOpen j)" "read_select c p (cl_objs s ! j) = Some (r, x)"
      "cl_objs t = (cl_objs s)[j := x]" "cl_run t = cl_run s"
      by (auto simp: Let_def split: option.splits caller_pc.splits prod.splits if_splits)
    with refs_ok_callerD [OF refs, of k "KOpen j" j] all_cap_update [OF caps, of j x] cap_read inv show ?thesis
      by (simp add: loop_ok_def)
  next
    case (LoopReceive p)
    with st obtain ph m j ph' x where r: "cl_run s = LReceive ph m j"
      "receive_step (cl_ctx s) p m ph (cl_objs s ! j) = Some (ph', x)" "cl_objs t = (cl_objs s)[j := x]"
      "cl_run t = (case ph' of RDone e \<Rightarrow> LTop | _ \<Rightarrow> LReceive ph' m j)"
      by (auto split: run_pc.splits option.splits prod.splits)
    have "j < length (cl_objs s)" using refs r(1) by (auto simp: refs_ok_def)
    with all_cap_update [OF caps this cap_receive [OF r(2)]] r(3,4) show ?thesis by (auto split: recv_phase.splits)
  next
    case (LoopRecv mh p err)
    with st caps all_cap_close [OF caps] show ?thesis
      by (auto simp: loop_message_def close_obj_def split: if_splits option.splits)
  next
    case (CloseStream k)
    with st caps all_cap_close [OF caps] inv show ?thesis
      by (auto simp: loop_ok_def close_obj_def split: if_splits option.splits caller_pc.splits)
  next
    case RunCleanup
    with st caps show ?thesis by (auto simp: cleanupStreams_def split: run_pc.splits)
  qed (use st inv in \<open>auto simp: loop_ok_def k_failed_def client_Close_def delete_entry_def add_stream_def newStream_def
        make_chan_def recv_buffer_def Let_def split: if_splits option.splits caller_pc.splits run_pc.splits\<close>)
  with refs_ok_step [OF refs st] show ?thesis by (simp add: loop_ok_def)
qed

interpretation client_loop_ok: step_invariant "client_step L" loop_ok for L
  by unfold_locales (rule loop_ok_step)

text \<open>\<open>receive\<close> of a running client returns; with room in the queue of an open stream it delivers.\<close>

definition delivered_to :: "stream \<Rightarrow> streamMessage \<Rightarrow> stream \<Rightarrow> bool" where
  "delivered_to st m x \<longleftrightarrow> sid x = sid st \<and> (\<not> recvClose st \<and> buf (s_recv st) = [] \<longrightarrow> \<not> recvClose x \<and> buf (s_recv x) = [m])"

lemma receive_last:
  assumes "obj_ok st" "ph = RWait \<or> (ph = RTry \<and> (recvClose st \<or> can_send (s_recv st)))"
    and "0 < chan_cap (s_recv st)"
  shows "\<exists>p e x. receive_step None p m ph st = Some (RDone e, x) \<and> delivered_to st m x"
proof (cases "recvClose st")
  case True
  with assms(2) show ?thesis
    by (intro exI [of _ PickClosed] exI [of _ "recvErr st"] exI [of _ st])
       (auto simp: receive_step_def receive_branch_def delivered_to_def)
next
  case False
  have open': "\<not> chan_closed (s_recv st)" using assms(1) by (simp add: obj_ok_def)
  show ?thesis
  proof (cases "length (buf (s_recv st)) < chan_cap (s_recv st)")
    case True
    with open' False assms(2) show ?thesis
      by (intro exI [of _ PickSend] exI [of _ None] exI [of _ "st\<lparr>s_recv := (s_recv st)\<lparr>buf := buf (s_recv st) @ [m]\<rparr>\<rparr>"])
         (auto simp: receive_step_def receive_branch_def chan_send_def delivered_to_def)
  next
    case full: False
    with open' False assms(2,3) have "ph = RWait" "buf (s_recv st) \<noteq> []" by (auto simp: can_send_def)
    then show ?thesis
      by (intro exI [of _ PickTimeout] exI [of _ "Some ErrStreamFull"] exI [of _ "closeWithError (Some ErrStreamFull) st"])
         (simp add: receive_step_def delivered_to_def)
  qed
qed

lemma receive_next:
  assumes "obj_ok st" "\<And>e. ph \<noteq> RDone e" "0 < chan_cap (s_recv st)"
  shows "(\<exists>p e x. receive_step None p m ph st = Some (RDone e, x) \<and> delivered_to st m x) \<or>
    (ph = RCheck \<and> receive_step None PickDefault m ph st = Some (RTry, st)) \<or>
    (ph = RTry \<and> receive_step None PickDefault m ph st = Some (RWait, st))"
proof (cases "ph = RCheck")
  case True
  then show ?thesis
    by (cases "recvClose st")
       (auto simp: receive_step_def delivered_to_def intro!: exI [of _ PickClosed] split: if_splits)
next
  case False
  show ?thesis
  proof (cases "ph = RTry \<and> \<not> recvClose st \<and> \<not> can_send (s_recv st)")
    case True
    then show ?thesis by (simp add: receive_step_def)
  next
    case no: False
    have "ph = RWait \<or> ph = RTry" using False assms(2) by (cases ph) auto
    with no receive_last [OF assms(1) _ assms(3), of ph m] show ?thesis by blast
  qed
qed

lemma deliver:
  assumes "loop_ok c" "\<not> cl_closed c" "cl_run c = LReceive ph m j"
  shows "\<exists>ps x. run (client_step L) c (map LoopReceive ps) = Some (c\<lparr>cl_objs := (cl_objs c)[j := x], cl_run := LTop\<rparr>) \<and>
    delivered_to (cl_objs c ! j) m x"
proof -
  let ?st = "cl_objs c ! j"
  have "j < length (cl_objs c)" using assms(1,3) by (auto simp: loop_ok_def refs_ok_def)
  then have st: "obj_ok ?st" "0 < chan_cap (s_recv ?st)" using assms(1) by (simp_all add: loop_ok_def refs_ok_def)
  have ctx: "cl_ctx c = None" using assms(2) by (simp add: cl_ctx_def)
  let ?goal = "\<lambda>d. \<exists>ps x. run (client_step L) d (map LoopReceive ps) = Some (c\<lparr>cl_objs := (cl_objs c)[j := x], cl_run := LTop\<rparr>) \<and>
    delivered_to ?st m x"
  have ctx': "cl_ctx (c\<lparr>cl_run := r\<rparr>) = None" for r using assms(2) by (simp add: cl_ctx_def)
  have done1: "?goal (c\<lparr>cl_run := LReceive ph' m j\<rparr>)"
    if "receive_step None p m ph' ?st = Some (RDone e, x)" "delivered_to ?st m x" for ph' p e x
    using that ctx' by (intro exI [of _ "[p]"] exI [of _ x]) simp
  have more: "?goal (c\<lparr>cl_run := LReceive ph' m j\<rparr>)"
    if "receive_step None PickDefault m ph' ?st = Some (ph2, ?st)" "\<And>e. ph2 \<noteq> RDone e"
      "?goal (c\<lparr>cl_run := LReceive ph2 m j\<rparr>)" for ph' ph2
  proof -
    from that(3) obtain ps x where px: "run (client_step L) (c\<lparr>cl_run := LReceive ph2 m j\<rparr>) (map LoopReceive ps) =
        Some (c\<lparr>cl_objs := (cl_objs c)[j := x], cl_run := LTop\<rparr>)" "delivered_to ?st m x" by blast
    have "client_step L (c\<lparr>cl_run := LReceive ph' m j\<rparr>) (LoopReceive PickDefault) = Some (c\<lparr>cl_run := LReceive ph2 m j\<rparr>)"
      using that(1,2) ctx' by (simp split: recv_phase.split)
    with px show ?thesis by (intro exI [of _ "PickDefault # ps"] exI [of _ x]) simp
  qed
  have wait: "?goal (c\<lparr>cl_run := LReceive RWait m j\<rparr>)"
    using receive_next [OF st(1) _ st(2), of RWait m] done1 by fastforce
  have trying: "?goal (c\<lparr>cl_run := LReceive RTry m j\<rparr>)"
    using receive_next [OF st(1) _ st(2), of RTry m] done1 more [of RTry RWait] wait by fastforce
  have check: "?goal (c\<lparr>cl_run := LReceive RCheck m j\<rparr>)"
    using receive_next [OF st(1) _ st(2), of RCheck m] done1 more [of RCheck RTry] trying by fastforce
  have "\<And>e. ph \<noteq> RDone e" using assms(1,3) by (simp add: loop_ok_def)
  then have "ph = RWait \<or> ph = RTry \<or> ph = RCheck" by (cases ph) blast+
  then have "?goal (c\<lparr>cl_run := LReceive ph m j\<rparr>)" using wait trying check by (elim disjE) simp_all
  moreover have "c\<lparr>cl_run := LReceive ph m j\<rparr> = c" using assms(3) by simp
  ultimately show ?thesis by simp
qed

section \<open>A caller gets what has been sent\<close>

text \<open>A caller that waits on an open stream, over a link whose client still receives.\<close>

definition awaiting :: "('c, 'f, 'g, 'i, 'j, 'm) conn_env \<Rightarrow> link \<Rightarrow> nat \<Rightarrow> nat \<Rightarrow> bool" where
  "awaiting E s k o' \<longleftrightarrow> link_base E s \<and> loop_ok (ln_client s) \<and> caller_at (ln_client s) k = Some (KWait o') \<and>
     listening (ln_client s) o' \<and> client_reading (ln_client s)"

lemma link_base_run: "link_base E s \<Longrightarrow> run (link_step E) s es = Some t \<Longrightarrow> link_base E t"
  by (induction es arbitrary: s) (auto simp: run_Cons_Some intro: link_base_step simp del: run.simps(2))

lemma link_client_run:
  assumes "run (client_step (e_lib E)) (ln_client s) es = Some c" "\<forall>e \<in> set es. client_local e \<and> (\<forall>c. took e c = [])"
  shows "run (link_step E) s (map ClientAct es) = Some (s\<lparr>ln_client := c\<rparr>)"
  using assms
proof (induction es arbitrary: s)
  case (Cons e es)
  then obtain d where d: "client_step (e_lib E) (ln_client s) e = Some d" "run (client_step (e_lib E)) d es = Some c"
    unfolding run_Cons_Some by blast
  have "link_step E s (ClientAct e) = Some (s\<lparr>ln_client := d\<rparr>)" using Cons.prems(2) d(1) by simp
  moreover have "run (link_step E) (s\<lparr>ln_client := d\<rparr>) (map ClientAct es) = Some ((s\<lparr>ln_client := d\<rparr>)\<lparr>ln_client := c\<rparr>)"
    by (rule Cons.IH) (use d(2) Cons.prems(2) in simp_all)
  ultimately show ?case by simp
qed simp

lemma await_take:
  assumes "awaiting E s k o'" "queue (ln_client s) o' \<noteq> []"
  shows "\<exists>t m. run (link_step E) s [ClientAct (Wait k (WaitRead ReadMessage))] = Some t \<and>
    caller_at (ln_client t) k = Some (KDelete o' (GotMsg m)) \<and> ln_took t = ln_took s @ [(o', m)] \<and>
    listening (ln_client t) o' \<and> ln_conn t = ln_conn s \<and>
    length (cl_objs (ln_client t)) = length (cl_objs (ln_client s))"
proof -
  let ?c = "ln_client s" and ?st = "cl_objs (ln_client s) ! o'"
  obtain m ms where q: "buf (s_recv ?st) = m # ms" using assms(2) by (cases "buf (s_recv ?st)") auto
  let ?x = "?st\<lparr>s_recv := (s_recv ?st)\<lparr>buf := ms\<rparr>\<rparr>"
  have w: "wait_select (WaitRead ReadMessage) ?c ?st = Some (GotMsg m, ?x)"
    using q by (simp add: wait_select_def read_select_def read_message_def chan_recv_def)
  have pc: "caller_at ?c k = Some (KWait o')" using assms(1) by (simp add: awaiting_def)
  have "k < length (cl_callers ?c)" by (rule caller_at_Some_less [OF pc])
  with pc w assms(1) show ?thesis
    by (auto simp: client_local_def took_def awaiting_def listening_def nth_list_update)
qed

lemma await_deliver:
  assumes wt: "awaiting E s k o'" and pc: "cl_run (ln_client s) = LReceive ph m j" and q: "queue (ln_client s) o' = []"
  shows "\<exists>es t. run (link_step E) s es = Some t \<and> awaiting E t k o' \<and> cl_run (ln_client t) = LTop \<and>
    ln_conn t = ln_conn s \<and> ln_took t = ln_took s \<and> ln_down_got t = ln_down_got s \<and>
    queue (ln_client t) o' = (if j = o' then [m] else []) \<and>
    length (cl_objs (ln_client t)) = length (cl_objs (ln_client s))"
proof -
  let ?c = "ln_client s"
  have c: "loop_ok ?c" "\<not> cl_closed ?c" "listening ?c o'" "o' < length (cl_objs ?c)"
    using wt by (simp_all add: awaiting_def listening_def)
  obtain ps x where d: "run (client_step (e_lib E)) ?c (map LoopReceive ps) = Some (?c\<lparr>cl_objs := (cl_objs ?c)[j := x], cl_run := LTop\<rparr>)"
    "delivered_to (cl_objs ?c ! j) m x" using deliver [OF c(1,2) pc] by blast
  let ?d = "?c\<lparr>cl_objs := (cl_objs ?c)[j := x], cl_run := LTop\<rparr>"
  have loc: "\<forall>e \<in> set (map LoopReceive ps). client_local e \<and> (\<forall>c. took e c = [])" by (auto simp: client_local_def took_def)
  note r = link_client_run [OF d(1) loc]
  have x: "j = o' \<Longrightarrow> \<not> recvClose x \<and> buf (s_recv x) = [m] \<and> sid x = sid (cl_objs ?c ! o')"
    using d(2) q c(3) by (auto simp: delivered_to_def listening_def)
  have "listening ?d o' \<and> queue ?d o' = (if j = o' then [m] else [])"
    using c(3,4) x q by (cases "j = o'") (auto simp: listening_def)
  moreover have "link_base E (s\<lparr>ln_client := ?d\<rparr>)" using link_base_run [OF _ r] wt by (simp add: awaiting_def)
  moreover have "loop_ok ?d" by (rule client_loop_ok.inv_run [OF c(1) d(1)])
  moreover have "caller_at ?d k = Some (KWait o')" using wt by (simp add: awaiting_def)
  ultimately show ?thesis
    using r by (intro exI [of _ "map ClientAct (map LoopReceive ps)"] exI [of _ "s\<lparr>ln_client := ?d\<rparr>"])
      (simp add: awaiting_def client_reading_def)
qed

lemma await_recv:
  assumes wt: "awaiting E s k o'" and pc: "cl_run (ln_client s) = LTop \<or> cl_run (ln_client s) = LRecv"
    and more: "length (ln_down_got s) < length (server_msgs (e_proto E) (ln_conn s))"
  shows "\<exists>es t. run (link_step E) s es = Some t \<and> awaiting E t k o' \<and>
    ln_conn t = ln_conn s \<and> ln_took t = ln_took s \<and>
    ln_down_got t = ln_down_got s @ [server_msgs (e_proto E) (ln_conn s) ! length (ln_down_got s)] \<and>
    queue (ln_client t) o' = queue (ln_client s) o' \<and>
    (fst (server_msgs (e_proto E) (ln_conn s) ! length (ln_down_got s)) = sid (cl_objs (ln_client s) ! o') \<longrightarrow>
       (\<exists>ph m. cl_run (ln_client t) = LReceive ph m o')) \<and>
    length (cl_objs (ln_client t)) = length (cl_objs (ln_client s))"
proof -
  let ?c = "ln_client s" and ?m = "server_msgs (e_proto E) (ln_conn s) ! length (ln_down_got s)"
  let ?c1 = "?c\<lparr>cl_run := LRecv\<rparr>"
  have c: "loop_ok ?c" "\<not> cl_closed ?c" "listening ?c o'" using wt by (simp_all add: awaiting_def listening_def)
  define es where "es = (if cl_run ?c = LTop then [LoopGuard] else [])"
  have "run (client_step (e_lib E)) ?c es = Some ?c1" using pc c(2) by (auto simp: es_def)
  moreover have "\<forall>e \<in> set es. client_local e \<and> (\<forall>c. took e c = [])" by (auto simp: es_def client_local_def took_def)
  ultimately have r1: "run (link_step E) s (map ClientAct es) = Some (s\<lparr>ln_client := ?c1\<rparr>)" by (rule link_client_run)
  have "pipe_ok (server_msgs (e_proto E) (ln_conn s)) (ln_down_got s) (ln_down s)"
    using wt by (simp add: awaiting_def link_base_def link_inv_def way_ok_def)
  from pipe_next [OF this more] have p: "fst (pipe_recv (e_lib E) IoEOF (ln_down s)) = received ?m" .
  obtain mh p where mh: "received ?m = (mh, p, None)" by (cases ?m) auto
  note inv = received_inverse [OF mh [symmetric]]
  then have got: "got_message (mh, p, None) = [?m]" by (simp add: got_message_def)
  from inv have sid: "StreamID mh = fst ?m" by (metis fst_conv)
  let ?c2 = "loop_message (e_lib E) mh p None ?c1"
  obtain q where q: "pipe_recv (e_lib E) IoEOF (ln_down s) = ((mh, p, None), q)" using p mh by (metis prod.collapse)
  let ?t = "s\<lparr>ln_client := ?c2, ln_down := q, ln_down_got := ln_down_got s @ [?m]\<rparr>"
  have r2: "link_step E (s\<lparr>ln_client := ?c1\<rparr>) (ClientRecv IoEOF) = Some ?t" using q got by simp
  have r: "run (link_step E) s (map ClientAct es @ [ClientRecv IoEOF]) = Some ?t" using r1 r2 by (simp add: run_snoc_Some)
  have objs: "cl_objs ?c2 = cl_objs ?c" "cl_closed ?c2 = cl_closed ?c" "cl_streams ?c2 = cl_streams ?c"
    "caller_at ?c2 k = caller_at ?c k" "client_reading ?c2"
    by (auto simp: loop_message_def client_reading_def split: option.splits)
  have "loop_ok ?c2"
    by (rule loop_ok_step [of ?c1 "e_lib E" "LoopRecv mh p None"]) (use c(1) in \<open>simp_all add: loop_ok_def refs_ok_def caller_ref_def\<close>)
  moreover have "link_base E ?t" using link_base_run [OF _ r] wt by (simp add: awaiting_def)
  ultimately have "awaiting E ?t k o'" using wt objs by (simp add: awaiting_def listening_def)
  moreover have "\<exists>ph m. cl_run ?c2 = LReceive ph m o'" if "fst ?m = sid (cl_objs ?c ! o')"
    using that c(3) sid by (simp add: loop_message_def getStream_def listening_def)
  ultimately show ?thesis using r objs by (intro exI [of _ "map ClientAct es @ [ClientRecv IoEOF]"] exI [of _ ?t]) simp
qed

text \<open>What waits for the stream: in its queue, in delivery, or still on the wire.\<close>

definition coming :: "'m proto_lib \<Rightarrow> link \<Rightarrow> nat \<Rightarrow> bool" where
  "coming P s o' \<longleftrightarrow> queue (ln_client s) o' \<noteq> [] \<or> (\<exists>ph m. cl_run (ln_client s) = LReceive ph m o') \<or>
     (\<exists>x \<in> set (drop (length (ln_down_got s)) (server_msgs P (ln_conn s))). fst x = sid (cl_objs (ln_client s) ! o'))"

definition served :: "('c, 'f, 'g, 'i, 'j, 'm) conn_env \<Rightarrow> link \<Rightarrow> nat \<Rightarrow> nat \<Rightarrow> bool" where
  "served E s k o' \<longleftrightarrow> (\<exists>es t m. run (link_step E) s es = Some t \<and> caller_at (ln_client t) k = Some (KDelete o' (GotMsg m)) \<and>
     ln_took t = ln_took s @ [(o', m)] \<and> listening (ln_client t) o' \<and> ln_conn t = ln_conn s \<and>
     length (cl_objs (ln_client t)) = length (cl_objs (ln_client s)))"

lemma served_run:
  assumes "run (link_step E) s es = Some t" "ln_conn t = ln_conn s" "ln_took t = ln_took s"
    "length (cl_objs (ln_client t)) = length (cl_objs (ln_client s))" "served E t k o'"
  shows "served E s k o'"
proof -
  from assms(5) obtain fs u m where u: "run (link_step E) t fs = Some u" "caller_at (ln_client u) k = Some (KDelete o' (GotMsg m))"
    "ln_took u = ln_took t @ [(o', m)]" "listening (ln_client u) o'" "ln_conn u = ln_conn t"
    "length (cl_objs (ln_client u)) = length (cl_objs (ln_client t))"
    by (auto simp: served_def)
  have "run (link_step E) s (es @ fs) = Some u" using assms(1) u(1) by (simp add: run_append)
  with u assms(2-4) show ?thesis unfolding served_def by (intro exI [of _ "es @ fs"] exI [of _ u] exI [of _ m]) simp
qed

lemma served_queue: "awaiting E s k o' \<Longrightarrow> queue (ln_client s) o' \<noteq> [] \<Longrightarrow> served E s k o'"
  unfolding served_def using await_take by blast

lemma awaiting_sid:
  assumes "awaiting E s k o'"
  shows "sid (cl_objs (ln_client s) ! o') = stream_id o'"
proof -
  have "sent_own (ln_client s)" by (rule link_base_ends(1) [of E s]) (use assms in \<open>simp add: awaiting_def\<close>)
  with assms show ?thesis by (simp add: awaiting_def listening_def sent_own_def ids_ok_def)
qed

lemma await_done:
  assumes "awaiting E s k o'" "coming (e_proto E) s o'"
  shows "served E s k o'"
  using assms
proof (induction "length (server_msgs (e_proto E) (ln_conn s)) - length (ln_down_got s)" arbitrary: s rule: less_induct)
  case less
  note wt = less.prems(1)
  let ?ms = "\<lambda>s. server_msgs (e_proto E) (ln_conn s)" and ?n = "\<lambda>s. length (ln_down_got s)"
  have top: "served E u k o'"
    if wu: "awaiting E u k o'" and pc: "cl_run (ln_client u) = LTop \<or> cl_run (ln_client u) = LRecv"
      and cu: "coming (e_proto E) u o'" and eq: "ln_conn u = ln_conn s" "ln_down_got u = ln_down_got s" for u
  proof (cases "queue (ln_client u) o' = []")
    case True
    with cu pc have way: "\<exists>x \<in> set (drop (?n u) (?ms u)). fst x = sid (cl_objs (ln_client u) ! o')"
      by (auto simp: coming_def)
    then have more: "?n u < length (?ms u)" by (metis drop_all empty_iff empty_set not_le)
    obtain es t where t: "run (link_step E) u es = Some t" "awaiting E t k o'" "ln_conn t = ln_conn u" "ln_took t = ln_took u"
      "ln_down_got t = ln_down_got u @ [?ms u ! ?n u]" "queue (ln_client t) o' = queue (ln_client u) o'"
      "fst (?ms u ! ?n u) = sid (cl_objs (ln_client u) ! o') \<longrightarrow> (\<exists>ph m. cl_run (ln_client t) = LReceive ph m o')"
      "length (cl_objs (ln_client t)) = length (cl_objs (ln_client u))"
      using await_recv [OF wu pc more] by blast
    have sid: "sid (cl_objs (ln_client t) ! o') = sid (cl_objs (ln_client u) ! o')"
      using awaiting_sid [OF t(2)] awaiting_sid [OF wu] by simp
    have "coming (e_proto E) t o'"
    proof (cases "fst (?ms u ! ?n u) = sid (cl_objs (ln_client u) ! o')")
      case True
      with t(7) show ?thesis by (simp add: coming_def)
    next
      case False
      have "drop (?n u) (?ms u) = ?ms u ! ?n u # drop (Suc (?n u)) (?ms u)" by (rule Cons_nth_drop_Suc [OF more, symmetric])
      with way False have "\<exists>x \<in> set (drop (Suc (?n u)) (?ms u)). fst x = sid (cl_objs (ln_client u) ! o')" by auto
      with t(3,5) sid show ?thesis by (simp add: coming_def)
    qed
    moreover have "length (?ms t) - ?n t < length (?ms s) - ?n s" using t(3,5) eq more by simp
    ultimately have "served E t k o'" using less.hyps t(2) by blast
    with served_run [OF t(1)] t(3,4,8) show ?thesis by blast
  qed (rule served_queue [OF wu])
  show ?case
  proof (cases "queue (ln_client s) o' = []")
    case False
    with wt show ?thesis by (rule served_queue)
  next
    case q: True
    show ?thesis
    proof (cases "\<exists>ph m j. cl_run (ln_client s) = LReceive ph m j")
      case False
      with wt have "cl_run (ln_client s) = LTop \<or> cl_run (ln_client s) = LRecv"
        by (auto simp: awaiting_def client_reading_def split: run_pc.splits)
      with top [OF wt] less.prems(2) show ?thesis by blast
    next
      case True
      then obtain ph m j where pc: "cl_run (ln_client s) = LReceive ph m j" by blast
      obtain es t where t: "run (link_step E) s es = Some t" "awaiting E t k o'" "cl_run (ln_client t) = LTop"
        "ln_conn t = ln_conn s" "ln_took t = ln_took s" "ln_down_got t = ln_down_got s"
        "queue (ln_client t) o' = (if j = o' then [m] else [])"
        "length (cl_objs (ln_client t)) = length (cl_objs (ln_client s))"
        using await_deliver [OF wt pc q] by blast
      have sid: "sid (cl_objs (ln_client t) ! o') = sid (cl_objs (ln_client s) ! o')"
        using awaiting_sid [OF t(2)] awaiting_sid [OF wt] by simp
      have "coming (e_proto E) t o'"
        using less.prems(2) q pc t(4,6,7) sid by (auto simp: coming_def)
      from top [OF t(2) _ this t(4,6)] t(3) have "served E t k o'" by blast
      with served_run [OF t(1)] t(4,5,8) show ?thesis by blast
    qed
  qed
qed

section \<open>The server answers\<close>

definition sendable :: "'m proto_lib \<Rightarrow> response \<Rightarrow> bool" where
  "sendable P r \<longleftrightarrow> (\<exists>i t fl p. response_frame P r = Inr (i, t, fl, p) \<and> length (bytes_of p) \<le> messageLengthMax)"

text \<open>A network that takes everything the server writes.\<close>

definition healthy :: "link \<Rightarrow> bool" where
  "healthy s \<longleftrightarrow> writer_clean (p_out (ln_down s)) \<and> room (p_out (ln_down s)) = None"

text \<open>The server goes on alone, with its calls as they are or changed to \<open>ws\<close>, having written \<open>rs\<close>.\<close>

definition server_goes :: "link \<Rightarrow> link \<Rightarrow> worker list \<Rightarrow> (response \<times> bool) list \<Rightarrow> bool" where
  "server_goes s t ws rs \<longleftrightarrow> ln_client t = ln_client s \<and> ln_took t = ln_took s \<and> ln_down_got t = ln_down_got s \<and> healthy t \<and>
     workers (ln_conn t) = ws \<and> responses_sent (ln_conn t) = responses_sent (ln_conn s) @ rs"

lemma server_goes_trans:
  "server_goes s t ws rs \<Longrightarrow> server_goes t u ws' rs' \<Longrightarrow> server_goes s u ws' (rs @ rs')"
  by (simp add: server_goes_def)

lemma server_act:
  assumes "conn_step E (ln_conn s) e = Some c" "server_local e" "handler_read e (ln_conn s) = []"
  shows "run (link_step E) s [ServerAct e] = Some (s\<lparr>ln_conn := c\<rparr>)"
  using assms by (simp del: conn_step.simps)

lemma server_send:
  assumes "mpc (ln_conn s) = MSend r b" "sendable (e_proto E) r" "healthy s"
  shows "\<exists>t. run (link_step E) s [ServerSend] = Some t \<and> server_goes s t (workers (ln_conn s)) [(r, b)] \<and>
    mpc (ln_conn t) = (if closeStream r then MDelete (resp_id r) b else MTop)"
proof -
  obtain i ty fl p where f: "response_frame (e_proto E) r = Inr (i, ty, fl, p)" "length (bytes_of p) \<le> messageLengthMax"
    using assms(2) by (auto simp: sendable_def)
  let ?w = "p_out (ln_down s)"
  have w: "writer_clean ?w" "room ?w = None" using assms(3) by (simp_all add: healthy_def)
  obtain e w' where e: "send i ty fl p ?w = (e, w')" by (cases "send i ty fl p ?w")
  have "e = None" using send_fail [of ?w i ty fl p _ w'] w e f(2) by (cases e) auto
  with e send_ok [OF w(1)] w(2) have w': "send i ty fl p ?w = (None, w')" "writer_clean w'" "room w' = None" by auto
  with f assms(1) show ?thesis
    by (auto simp: pipe_send_def server_goes_def healthy_def main_send_def send_outcome_def OversizedMessageError_def)
qed

lemma main_to_select:
  assumes m: "mpc (ln_conn s) \<noteq> MLeft" "mpc (ln_conn s) \<noteq> MExit" and h: "healthy s"
    and pend: "\<And>r b. mpc (ln_conn s) = MSend r b \<Longrightarrow> sendable (e_proto E) r"
  shows "\<exists>es t b. run (link_step E) s es = Some t \<and> mpc (ln_conn t) = MSelect b \<and>
    server_goes s t (workers (ln_conn s)) (case mpc (ln_conn s) of MSend r b \<Rightarrow> [(r, b)] | _ \<Rightarrow> [])"
proof -
  let ?P = "\<lambda>s. \<exists>es t b. run (link_step E) s es = Some t \<and> mpc (ln_conn t) = MSelect b \<and> server_goes s t (workers (ln_conn s)) []"
  have step: "?P s" if "run (link_step E) s [ServerAct e] = Some t" "server_goes s t (workers (ln_conn s)) []" "?P t" for s t e
  proof -
    from that(3) obtain es u b where u: "run (link_step E) t es = Some u" "mpc (ln_conn u) = MSelect b"
      "server_goes t u (workers (ln_conn t)) []" by blast
    have "run (link_step E) s (ServerAct e # es) = Some u" using that(1) u(1) run_append [of "link_step E" s "[ServerAct e]" es] by simp
    moreover have "workers (ln_conn t) = workers (ln_conn s)" using that(2) by (simp add: server_goes_def)
    ultimately show ?thesis using server_goes_trans [OF that(2) u(3)] u(2) by (metis append_Nil)
  qed
  have sel: "?P s" if "mpc (ln_conn s) = MSelect b" "healthy s" for s b
    using that by (intro exI [of _ "[]"] exI [of _ s] exI [of _ b]) (simp add: server_goes_def)
  have top: "?P s" if "mpc (ln_conn s) = MTop" "healthy s" for s
  proof (rule step)
    show "run (link_step E) s [ServerAct MGuard] = Some (s\<lparr>ln_conn := main_guard (ln_conn s)\<rparr>)"
      by (rule server_act) (use that in \<open>simp_all add: server_local_def handler_read_def\<close>)
    show "server_goes s (s\<lparr>ln_conn := main_guard (ln_conn s)\<rparr>) (workers (ln_conn s)) []"
      using that(2) by (simp add: server_goes_def healthy_def main_guard_def)
    show "?P (s\<lparr>ln_conn := main_guard (ln_conn s)\<rparr>)"
      by (rule sel [where b = "\<not> active (ln_conn s) > 0"]) (use that(2) in \<open>simp_all add: healthy_def main_guard_def\<close>)
  qed
  have dec: "?P s" if "mpc (ln_conn s) = MDec x" "healthy s" for s x
  proof (rule step)
    let ?c = "(ln_conn s)\<lparr>active := active (ln_conn s) - 1, mpc := MTop,
        unbalanced := (if x then Suc (unbalanced (ln_conn s)) else unbalanced (ln_conn s))\<rparr>"
    show "run (link_step E) s [ServerAct MDoDec] = Some (s\<lparr>ln_conn := ?c\<rparr>)"
      by (rule server_act) (use that in \<open>simp_all add: server_local_def handler_read_def\<close>)
    show "server_goes s (s\<lparr>ln_conn := ?c\<rparr>) (workers (ln_conn s)) []"
      using that(2) by (simp add: server_goes_def healthy_def)
    show "?P (s\<lparr>ln_conn := ?c\<rparr>)" by (rule top) (use that(2) in \<open>simp_all add: healthy_def\<close>)
  qed
  have del: "?P s" if "mpc (ln_conn s) = MDelete i x" "healthy s" for s i x
  proof (rule step)
    let ?c = "(ln_conn s)\<lparr>streams := (streams (ln_conn s))(i := None), mpc := MDec x\<rparr>"
    show "run (link_step E) s [ServerAct MDoDelete] = Some (s\<lparr>ln_conn := ?c\<rparr>)"
      by (rule server_act) (use that in \<open>simp_all add: server_local_def handler_read_def\<close>)
    show "server_goes s (s\<lparr>ln_conn := ?c\<rparr>) (workers (ln_conn s)) []"
      using that(2) by (simp add: server_goes_def healthy_def)
    show "?P (s\<lparr>ln_conn := ?c\<rparr>)" by (rule dec) (use that(2) in \<open>simp_all add: healthy_def\<close>)
  qed
  show ?thesis
  proof (cases "mpc (ln_conn s)")
    case (MSend r b)
    obtain t where t: "run (link_step E) s [ServerSend] = Some t" "server_goes s t (workers (ln_conn s)) [(r, b)]"
      "mpc (ln_conn t) = (if closeStream r then MDelete (resp_id r) b else MTop)"
      using server_send [OF MSend pend [OF MSend] h] by blast
    have "healthy t" "workers (ln_conn t) = workers (ln_conn s)" using t(2) by (simp_all add: server_goes_def)
    with del [of t "resp_id r" b] top [of t] t(3) obtain es u b' where u: "run (link_step E) t es = Some u"
      "mpc (ln_conn u) = MSelect b'" "server_goes t u (workers (ln_conn s)) []"
      by (cases "closeStream r") auto
    have "run (link_step E) s (ServerSend # es) = Some u" using t(1) u(1) run_append [of "link_step E" s "[ServerSend]" es] by simp
    with server_goes_trans [OF t(2) u(3)] u(2) MSend show ?thesis
      by (intro exI [of _ "ServerSend # es"] exI [of _ u] exI [of _ b']) simp
  qed (use m top [OF _ h] sel [OF _ h] dec [OF _ h] del [OF _ h] in simp_all)
qed

lemma server_answer:
  assumes m: "mpc (ln_conn s) = MSelect b" and h: "healthy s"
    and i: "i < length (workers (ln_conn s))" "w_pc (workers (ln_conn s) ! i) = WRun"
    and r: "r = final_response (workers (ln_conn s) ! i) st p" "sendable (e_proto E) r"
  shows "\<exists>es t ws. run (link_step E) s es = Some t \<and> server_goes s t ws [(r, False)]"
proof -
  let ?c = "set_worker i (WResp r) (ln_conn s)"
  let ?d = "(set_worker i (after_response r) ?c)\<lparr>mpc := MSend r False\<rparr>"
  have "run (link_step E) s [ServerAct (WFinish i st p)] = Some (s\<lparr>ln_conn := ?c\<rparr>)"
    by (rule server_act) (use i r(1) in \<open>simp_all add: server_local_def handler_read_def\<close>)
  moreover have "run (link_step E) (s\<lparr>ln_conn := ?c\<rparr>) [ServerAct (MTakeWorker i)] = Some ((s\<lparr>ln_conn := ?c\<rparr>)\<lparr>ln_conn := ?d\<rparr>)"
    by (rule server_act) (use i m in \<open>simp_all add: server_local_def handler_read_def set_worker_def\<close>)
  ultimately have two: "run (link_step E) s ([ServerAct (WFinish i st p)] @ [ServerAct (MTakeWorker i)]) = Some (s\<lparr>ln_conn := ?d\<rparr>)"
    by (simp only: run_append option.case) simp
  have d: "mpc (ln_conn (s\<lparr>ln_conn := ?d\<rparr>)) = MSend r False" "healthy (s\<lparr>ln_conn := ?d\<rparr>)"
    using h by (simp_all add: healthy_def)
  obtain t where t: "run (link_step E) (s\<lparr>ln_conn := ?d\<rparr>) [ServerSend] = Some t"
    "server_goes (s\<lparr>ln_conn := ?d\<rparr>) t (workers ?d) [(r, False)]"
    using server_send [OF d(1) r(2) d(2)] by auto
  have "run (link_step E) s (([ServerAct (WFinish i st p)] @ [ServerAct (MTakeWorker i)]) @ [ServerSend]) = Some t"
    by (subst run_append) (simp only: two t(1) option.case)
  moreover have "server_goes s t (workers ?d) [(r, False)]" using t(2) by (simp add: server_goes_def)
  ultimately show ?thesis by blast
qed

lemma messages_of_others:
  assumes "\<And>y. y \<in> set rs \<Longrightarrow> resp_id (fst y) \<noteq> i \<and> (\<exists>f. response_frame P (fst y) = Inr f)"
  shows "stream_messages (map (\<lambda>q. wire_msg (projr (response_frame P (fst q)))) rs) i = []"
proof -
  have "fst (wire_msg (projr (response_frame P (fst y)))) \<noteq> i" if y: "y \<in> set rs" for y
  proof -
    obtain j t fl p where f: "response_frame P (fst y) = Inr (j, t, fl, p)" using assms [OF y] by (metis prod_cases4)
    with response_frame_id [OF f] assms [OF y] show ?thesis by (simp add: wire_msg_def)
  qed
  then show ?thesis by (auto simp: stream_messages_def filter_empty_conv)
qed

section \<open>Properties\<close>

text \<open>
  C8: A call that the server runs can always be completed. In every reachable state of client and
  server over one connection in which a unary call waits on its open stream, the client still
  receives, the server's main loop runs, its network takes what it writes and its goroutine of the
  call runs: whatever else is under way, there are steps of the two ends, with the method returning
  any status and payload that can be sent, after which the caller has a message, the next of those
  the server wrote on its stream; if nothing was written there before, it is exactly that result.
\<close>

theorem calls_can_complete:
  assumes "status_lib_ok (e_lib E)" "fresh_writer wu" "fresh_writer wd" "run (link_step E) (link0 wu wd) es = Some s"
    and call: "caller_at (ln_client s) k = Some (KWait o')" "listening (ln_client s) o'" "client_reading (ln_client s)"
    and few: "length (cl_objs (ln_client s)) \<le> 2 ^ 31"
    and net: "room (p_out (ln_down s)) = None" "werr (p_out (ln_down s)) = None"
    and main: "mpc (ln_conn s) \<noteq> MLeft" "mpc (ln_conn s) \<noteq> MExit" "\<And>q b. mpc (ln_conn s) = MSend q b \<Longrightarrow> sendable (e_proto E) q"
    and work: "i < length (workers (ln_conn s))" "w_id (workers (ln_conn s) ! i) = stream_id o'" "w_pc (workers (ln_conn s) ! i) = WRun"
    and r: "r = final_response (workers (ln_conn s) ! i) st p" "sendable (e_proto E) r"
  shows "\<exists>fs t m. run (link_step E) s fs = Some t \<and> caller_at (ln_client t) k = Some (KDelete o' (GotMsg m)) \<and>
    (r, False) \<in> set (responses_sent (ln_conn t)) \<and>
    stream_messages (server_msgs (e_proto E) (ln_conn t)) (stream_id o') ! length (taken (ln_took s) o') = m \<and>
    ((\<forall>x \<in> set (responses_sent (ln_conn s)). resp_id (fst x) \<noteq> stream_id o') \<and>
     (\<forall>q b. mpc (ln_conn s) = MSend q b \<longrightarrow> resp_id q \<noteq> stream_id o') \<longrightarrow>
       (header m, payload m, None) = received (wire_msg (projr (response_frame (e_proto E) r))))"
proof -
  let ?P = "e_proto E" and ?id = "stream_id o'"
  have base0: "link_base E (link0 wu wd)" by (rule link_base_init [OF assms(1-3)])
  have base: "link_base E s" by (rule link_base_run [OF base0 assms(4)])
  have h: "healthy s"
    using base net by (auto simp: link_base_def link_inv_def way_ok_def out_ok_def healthy_def writer_clean_def)
  let ?pend = "case mpc (ln_conn s) of MSend q b \<Rightarrow> [(q, b)] | _ \<Rightarrow> []"
  obtain es1 s1 b where s1: "run (link_step E) s es1 = Some s1" "mpc (ln_conn s1) = MSelect b"
    "server_goes s s1 (workers (ln_conn s)) ?pend"
  proof -
    have "\<exists>es t b. run (link_step E) s es = Some t \<and> mpc (ln_conn t) = MSelect b \<and> server_goes s t (workers (ln_conn s)) ?pend"
      by (rule main_to_select [OF main(1,2) h]) (rule main(3))
    then show ?thesis using that by blast
  qed
  have w1: "workers (ln_conn s1) = workers (ln_conn s)" "healthy s1" using s1(3) by (simp_all add: server_goes_def)
  obtain es2 s2 ws where s2: "run (link_step E) s1 es2 = Some s2" "server_goes s1 s2 ws [(r, False)]"
    using server_answer [OF s1(2) w1(2), of i r st p E] work(1,3) r w1(1) by auto
  have go: "server_goes s s2 ws (?pend @ [(r, False)])" by (rule server_goes_trans [OF s1(3) s2(2)])
  have run2: "run (link_step E) s (es1 @ es2) = Some s2" using s1(1) s2(1) by (simp add: run_append)
  obtain fs0 where fs0: "run (client_step (e_lib E)) client0 fs0 = Some (ln_client s)"
    using base by (auto simp: link_base_def link_reach_def)
  have "loop_ok (ln_client s)" by (rule client_loop_ok.inv_run [OF loop_ok_init fs0])
  then have wt: "awaiting E s2 k o'"
    using go call link_base_run [OF base run2] by (simp add: awaiting_def server_goes_def)
  have fr: "\<exists>t fl q. response_frame ?P r = Inr (?id, t, fl, q)"
    using r response_frame_id [of ?P r] work(2) by (auto simp: sendable_def final_response_def)
  let ?x = "wire_msg (projr (response_frame ?P r))"
  have x: "fst ?x = ?id" using fr by (auto simp: wire_msg_def)
  have msgs: "server_msgs ?P (ln_conn s2) = server_msgs ?P (ln_conn s) @ map (\<lambda>q. wire_msg (projr (response_frame ?P (fst q)))) ?pend @ [?x]"
    using go by (simp add: server_msgs_def server_goes_def)
  have "length (ln_down_got s2) \<le> length (server_msgs ?P (ln_conn s))"
    using link_baseD(3) [OF base] go by (simp add: server_goes_def prefix_length_le)
  then have "?x \<in> set (drop (length (ln_down_got s2)) (server_msgs ?P (ln_conn s2)))" by (simp add: msgs)
  with x awaiting_sid [OF wt] have "coming ?P s2 o'" by (auto simp: coming_def)
  from await_done [OF wt this] obtain fs t m where t: "run (link_step E) s2 fs = Some t"
    "caller_at (ln_client t) k = Some (KDelete o' (GotMsg m))" "ln_took t = ln_took s2 @ [(o', m)]"
    "listening (ln_client t) o'" "ln_conn t = ln_conn s2" "length (cl_objs (ln_client t)) = length (cl_objs (ln_client s2))"
    by (auto simp: served_def)
  have run: "run (link_step E) s ((es1 @ es2) @ fs) = Some t" using run2 t(1) by (simp only: run_append option.case)
  then have "run (link_step E) (link0 wu wd) (es @ (es1 @ es2) @ fs) = Some t" using assms(4) by (simp only: run_append option.case)
  from link_queue.inv_run [OF _ this] base0 link_answers_init link_queues_init
  have inv: "link_base E t" "link_queues t" by blast+
  have o': "o' < length (cl_objs (ln_client t))" using t(4) by (simp add: listening_def)
  have sid: "sid (cl_objs (ln_client t) ! o') = ?id"
    using link_base_ends(1) [OF inv(1)] o' by (simp add: sent_own_def ids_ok_def)
  have "length (cl_objs (ln_client t)) \<le> 2 ^ 31" using few t(6) go by (simp add: server_goes_def)
  with inv(2) t(4) sid have "taken (ln_took t) o' @ queue (ln_client t) o' @ flight (ln_client t) o' = stream_messages (ln_down_got t) ?id"
    by (simp add: link_queues_def queues_full_def)
  moreover have "prefix (stream_messages (ln_down_got t) ?id) (stream_messages (server_msgs ?P (ln_conn t)) ?id)"
    using link_baseD(3) [OF inv(1)] by (auto simp: prefix_def stream_messages_append)
  moreover have "taken (ln_took t) o' = taken (ln_took s) o' @ [m]" using t(3) go by (simp add: server_goes_def)
  ultimately have "prefix (taken (ln_took s) o' @ [m]) (stream_messages (server_msgs ?P (ln_conn t)) ?id)"
    by (metis prefixI prefix_order.trans)
  then obtain zs where zs: "stream_messages (server_msgs ?P (ln_conn t)) ?id = taken (ln_took s) o' @ m # zs"
    by (auto simp: prefix_def)
  have only: "(header m, payload m, None) = received ?x"
    if none: "\<forall>x \<in> set (responses_sent (ln_conn s)). resp_id (fst x) \<noteq> ?id" "\<forall>q b. mpc (ln_conn s) = MSend q b \<longrightarrow> resp_id q \<noteq> ?id"
  proof -
    have fr': "\<exists>f. response_frame ?P (fst y) = Inr f" if "y \<in> set (responses_sent (ln_conn s) @ ?pend)" for y
    proof (cases "y \<in> set (responses_sent (ln_conn s))")
      case True
      with link_base_ends(2) [OF base] show ?thesis by (simp add: framed_def)
    next
      case False
      with that obtain q b where "mpc (ln_conn s) = MSend q b" "y = (q, b)" by (cases "mpc (ln_conn s)") auto
      with main(3) show ?thesis by (auto simp: sendable_def)
    qed
    have "resp_id (fst y) \<noteq> ?id" if "y \<in> set (responses_sent (ln_conn s) @ ?pend)" for y
      using that none by (cases "mpc (ln_conn s)") auto
    with fr' have "stream_messages (map (\<lambda>q. wire_msg (projr (response_frame ?P (fst q)))) (responses_sent (ln_conn s) @ ?pend)) ?id = []"
      by (intro messages_of_others) blast
    then have "stream_messages (server_msgs ?P (ln_conn t)) ?id = stream_messages [?x] ?id"
      using t(5) msgs by (simp add: server_msgs_def stream_messages_append)
    with zs x have "m = (case received ?x of (mh, q, e) \<Rightarrow> \<lparr>header = mh, payload = q\<rparr>)"
      by (cases "taken (ln_took s) o'") (auto simp: stream_messages_def)
    then show ?thesis by (cases ?x) simp
  qed
  have "(r, False) \<in> set (responses_sent (ln_conn t))" using go t(5) by (simp add: server_goes_def)
  with run t(2) zs only show ?thesis by (intro exI [of _ "(es1 @ es2) @ fs"] exI [of _ t] exI [of _ m]) simp
qed

text \<open>A call that waits while its method runs.\<close>

lemma link_call_up_result:
  "\<exists>s w. run (link_step demo_env) calm_link (link_call_up True 0 (Some [0])) = Some s \<and>
     caller_at (ln_client s) 0 = Some (KWait 0) \<and> listening (ln_client s) 0 \<and> client_reading (ln_client s) \<and>
     length (cl_objs (ln_client s)) = 1 \<and> room (p_out (ln_down s)) = None \<and> werr (p_out (ln_down s)) = None \<and>
     mpc (ln_conn s) = MTop \<and> workers (ln_conn s) = [w] \<and> w_id w = 1 \<and> w_pc w = WRun \<and> w_streaming w = False \<and>
     responses_sent (ln_conn s) = []"
proof -
  have "room (calm_writer []) = None" "werr (calm_writer []) = None" by (simp_all add: calm_writer_def)
  then show ?thesis
    by (simp add: link_call_up_def link_eval messageHeaderLength_def listening_def client_reading_def)
qed

theorem calls_can_complete_witness:
  "\<exists>s t m. run (link_step demo_env) calm_link (link_call_up True 0 (Some [0])) = Some s \<and>
     (\<exists>fs. run (link_step demo_env) s fs = Some t) \<and> caller_at (ln_client t) 0 = Some (KDelete 0 (GotMsg m)) \<and>
     StreamID (header m) = 1"
proof -
  obtain s w where s: "run (link_step demo_env) calm_link (link_call_up True 0 (Some [0])) = Some s"
    "caller_at (ln_client s) 0 = Some (KWait 0)" "listening (ln_client s) 0" "client_reading (ln_client s)"
    "length (cl_objs (ln_client s)) = 1" "room (p_out (ln_down s)) = None" "werr (p_out (ln_down s)) = None"
    "mpc (ln_conn s) = MTop" "workers (ln_conn s) = [w]" "w_id w = 1" "w_pc w = WRun" "w_streaming w = False"
    "responses_sent (ln_conn s) = []"
    using link_call_up_result by (elim exE conjE)
  have L: "status_lib_ok (e_lib demo_env)" using example_status_lib_ok by (simp add: demo_env_def)
  let ?r = "final_response (workers (ln_conn s) ! 0) None (Some [5])"
  have f: "\<exists>p. response_frame (e_proto demo_env) ?r = Inr (1, messageTypeResponse, 0, p) \<and> length (bytes_of p) \<le> messageLengthMax"
    using s(9,10,12) by (simp add: final_response_def response_frame_def demo_env_def demo_proto_def messageLengthMax_def)
  then have r: "sendable (e_proto demo_env) ?r" by (auto simp: sendable_def)
  have w: "0 < length (workers (ln_conn s))" "w_id (workers (ln_conn s) ! 0) = stream_id 0" "w_pc (workers (ln_conn s) ! 0) = WRun"
    using s(9-11) by (simp_all add: stream_id_def)
  have few: "length (cl_objs (ln_client s)) \<le> 2 ^ 31" using s(5) by simp
  have mp: "mpc (ln_conn s) \<noteq> MLeft" "mpc (ln_conn s) \<noteq> MExit" "\<And>q b. mpc (ln_conn s) = MSend q b \<Longrightarrow> sendable (e_proto demo_env) q"
    using s(8) by simp_all
  from calls_can_complete [OF L fresh_calm fresh_calm s(1) [unfolded calm_link_def] s(2-4) few s(6,7) mp w refl r]
  obtain fs t m where t: "run (link_step demo_env) s fs = Some t" "caller_at (ln_client t) 0 = Some (KDelete 0 (GotMsg m))"
    "(header m, payload m, None) = received (wire_msg (projr (response_frame (e_proto demo_env) ?r)))"
    using s(8,13) by auto
  from f received_inverse [of "header m" "payload m" None] t(3) have "StreamID (header m) = 1" by (auto simp: wire_msg_def)
  with s(1) t(1,2) show ?thesis by (intro exI [of _ s] exI [of _ t] exI [of _ m]) auto
qed

end
