(* ===== verification/Systems.thy ===== *)
theory Systems
  imports LinkProgress
begin

text \<open>
  A server with any number of clients: the server of theory \<open>Server\<close>, whose connections are the ends of
  the links of theory \<open>Link\<close>. Clients dial, the server accepts them when it likes, and all clients,
  goroutines of connections, calls of \<open>Serve\<close>, \<open>Shutdown\<close> and \<open>Close\<close> interleave. The parts run as
  they do alone; every caller gets the answer to its own request; one client can end the process.
\<close>

section \<open>State\<close>

text \<open>A client with its network connection; \<open>pr_conn\<close> is the server's connection at the other end, once made.\<close>

record peer =
  pr_link :: link
  pr_conn :: "nat option"

record system =
  sy_server :: server
  sy_peers :: "peer list"

definition system0 :: system where
  "system0 = \<lparr>sy_server = server0, sy_peers = []\<rparr>"

text \<open>The two ends of the connection of client \<open>j\<close>: the server's end is in the server.\<close>

definition link_at :: "system \<Rightarrow> nat \<Rightarrow> link" where
  "link_at s j =
     (let p = sy_peers s ! j
      in case pr_conn p of
           None \<Rightarrow> (pr_link p)\<lparr>ln_conn := conn0\<rparr>
         | Some o' \<Rightarrow> (pr_link p)\<lparr>ln_conn := sv_conns (sy_server s) ! o'\<rparr>)"

definition set_link :: "nat \<Rightarrow> link \<Rightarrow> system \<Rightarrow> system" where
  "set_link j l s =
     s\<lparr>sy_peers := (sy_peers s)[j := (sy_peers s ! j)\<lparr>pr_link := l\<rparr>],
       sy_server := (case pr_conn (sy_peers s ! j) of
           None \<Rightarrow> sy_server s
         | Some o' \<Rightarrow> (sy_server s)\<lparr>sv_conns := (sv_conns (sy_server s))[o' := ln_conn l]\<rparr>)\<rparr>"

text \<open>A panic in one goroutine ends the process, with the goroutines of all connections.\<close>

definition server_alive :: "server \<Rightarrow> bool" where
  "server_alive s \<longleftrightarrow> list_all (\<lambda>c. rpc c \<noteq> RPanic) (sv_conns s) \<and> list_all (\<lambda>v. v_pc v \<noteq> SvPanic) (sv_serves s)"

section \<open>Steps\<close>

datatype system_event =
    Dial writer writer
  | OfServer server_event
  | OfPeer nat link_event

text \<open>
  The client whose connection a goroutine of \<open>Serve\<close> is about to serve: \<open>conn_id\<close> of what \<open>Accept\<close>
  returned. \<open>Accept\<close> returns each connection once.
\<close>

definition joining :: "server \<Rightarrow> server_event \<Rightarrow> nat option" where
  "joining s e =
     (case e of
        ServeNew i \<Rightarrow> (case serve_at s i of Some (SvNew raw c) \<Rightarrow> Some (conn_id raw) | _ \<Rightarrow> None)
      | _ \<Rightarrow> None)"

definition join :: "nat \<Rightarrow> nat \<Rightarrow> system \<Rightarrow> system option" where
  "join j o' s =
     (if j < length (sy_peers s) \<and> pr_conn (sy_peers s ! j) = None
      then Some (s\<lparr>sy_peers := (sy_peers s)[j := (sy_peers s ! j)\<lparr>pr_conn := Some o'\<rparr>]\<rparr>)
      else None)"

definition server_part :: "system \<Rightarrow> nat \<Rightarrow> link_event \<Rightarrow> bool" where
  "server_part s j e \<longleftrightarrow>
     (case pr_conn (sy_peers s ! j) of
        None \<Rightarrow> False
      | Some o' \<Rightarrow> server_alive (sy_server s) \<and>
          (case e of ServerAct ce \<Rightarrow> conn_may (sy_server s) o' ce | _ \<Rightarrow> True))"

definition peer_may :: "system \<Rightarrow> nat \<Rightarrow> link_event \<Rightarrow> bool" where
  "peer_may s j e \<longleftrightarrow>
     (case e of
        ServerAct _ \<Rightarrow> server_part s j e
      | ServerSend \<Rightarrow> server_part s j e
      | ServerRecv _ _ _ \<Rightarrow> server_part s j e
      | _ \<Rightarrow> True)"

definition is_ConnStep :: "server_event \<Rightarrow> bool" where
  "is_ConnStep e \<longleftrightarrow> (case e of ConnStep _ _ \<Rightarrow> True | _ \<Rightarrow> False)"

fun system_step ::
    "'a Handshaker \<Rightarrow> ('c, 'f, 'g, 'i, 'j, 'm) conn_env \<Rightarrow> system \<Rightarrow> system_event \<Rightarrow> system option" where
  "system_step H E s (Dial wu wd) =
     (if fresh_writer wu \<and> fresh_writer wd
      then Some (s\<lparr>sy_peers := sy_peers s @ [\<lparr>pr_link = link0 wu wd, pr_conn = None\<rparr>]\<rparr>)
      else None)"
| "system_step H E s (OfServer e) =
     (if server_alive (sy_server s) \<and> \<not> is_ConnStep e
      then (case server_step H E (sy_server s) e of
          None \<Rightarrow> None
        | Some t \<Rightarrow>
            (if length (sv_conns t) = length (sv_conns (sy_server s)) then Some (s\<lparr>sy_server := t\<rparr>)
             else (case joining (sy_server s) e of
                 None \<Rightarrow> None
               | Some j \<Rightarrow> join j (length (sv_conns (sy_server s))) (s\<lparr>sy_server := t\<rparr>))))
      else None)"
| "system_step H E s (OfPeer j e) =
     (if j < length (sy_peers s) \<and> peer_may s j e
      then (case link_step E (link_at s j) e of None \<Rightarrow> None | Some l \<Rightarrow> Some (set_link j l s))
      else None)"

section \<open>The server and each client's link run as they do alone\<close>

text \<open>Different clients have different connections, and every connection has its client.\<close>

definition conn_of :: "system \<Rightarrow> nat \<Rightarrow> nat option" where
  "conn_of s j = (if j < length (sy_peers s) then pr_conn (sy_peers s ! j) else None)"

definition peers_ok :: "system \<Rightarrow> bool" where [inv_defs]:
  "peers_ok s \<longleftrightarrow> (\<forall>j k o'. conn_of s j = Some o' \<and> conn_of s k = Some o' \<longrightarrow> j = k) \<and>
     ran (conn_of s) = {..<length (sv_conns (sy_server s))}"

lemma peers_okD:
  assumes "peers_ok s" "j < length (sy_peers s)" "pr_conn (sy_peers s ! j) = Some o'"
  shows "o' < length (sv_conns (sy_server s))"
    and "k < length (sy_peers s) \<Longrightarrow> pr_conn (sy_peers s ! k) = Some o' \<Longrightarrow> k = j"
proof -
  have j: "conn_of s j = Some o'" using assms(2,3) by (simp add: conn_of_def)
  with assms(1) show "o' < length (sv_conns (sy_server s))" by (auto simp: peers_ok_def dest: ranI)
  show "k = j" if "k < length (sy_peers s)" "pr_conn (sy_peers s ! k) = Some o'"
    using assms(1) j that by (auto simp: peers_ok_def conn_of_def)
qed

lemma peers_ok_conn:
  assumes "peers_ok s" "o' < length (sv_conns (sy_server s))"
  obtains j where "j < length (sy_peers s)" "pr_conn (sy_peers s ! j) = Some o'"
proof -
  have "o' \<in> ran (conn_of s)" using assms by (simp add: peers_ok_def)
  then show thesis using that by (auto simp: ran_def conn_of_def split: if_splits)
qed

lemma peers_ok_same:
  assumes "peers_ok s" "conn_of t = conn_of s" "length (sv_conns (sy_server t)) = length (sv_conns (sy_server s))"
  shows "peers_ok t"
  using assms by (simp add: peers_ok_def)

definition link_runs :: "('c, 'f, 'g, 'i, 'j, 'm) conn_env \<Rightarrow> link \<Rightarrow> bool" where
  "link_runs E l \<longleftrightarrow> (\<exists>wu wd es. fresh_writer wu \<and> fresh_writer wd \<and> run (link_step E) (link0 wu wd) es = Some l)"

lemma link_runs_init: "fresh_writer wu \<Longrightarrow> fresh_writer wd \<Longrightarrow> link_runs E (link0 wu wd)"
  unfolding link_runs_def by (metis run.simps(1))

lemma link_runs_step: "link_runs E l \<Longrightarrow> link_step E l e = Some l' \<Longrightarrow> link_runs E l'"
  unfolding link_runs_def by (metis run_snoc_Some)

lemma link_runs_close:
  assumes "link_runs E (l\<lparr>ln_conn := c\<rparr>)"
  shows "link_runs E (l\<lparr>ln_conn := conn_close c\<rparr>)"
  by (rule link_runs_step [OF assms, of "ServerAct CloseConn"]) (simp add: server_local_def handler_read_def)

definition server_runs :: "'a Handshaker \<Rightarrow> ('c, 'f, 'g, 'i, 'j, 'm) conn_env \<Rightarrow> server \<Rightarrow> bool" where
  "server_runs H E s \<longleftrightarrow> (\<exists>es. run (server_step H E) server0 es = Some s)"

lemma server_runs_step: "server_runs H E s \<Longrightarrow> server_step H E s e = Some t \<Longrightarrow> server_runs H E t"
  unfolding server_runs_def by (metis run_snoc_Some)

text \<open>What a step on a link is for the server: a step of the connection that the server allows, or nothing.\<close>

lemma link_step_conn:
  assumes "link_step E l e = Some l'"
  shows "ln_conn l' = ln_conn l \<or>
    (\<exists>ce. conn_step E (ln_conn l) ce = Some (ln_conn l') \<and>
       ((\<exists>x. e = ServerAct x \<and> ce = x) \<or>
        ((e = ServerSend \<or> (\<exists>x c p. e = ServerRecv x c p)) \<and> ce \<noteq> CloseConn \<and> ce \<noteq> MReturn)))"
proof (cases e)
  case ServerSend
  with assms obtain r b where m: "mpc (ln_conn l) = MSend r b" by (auto split: main_pc.splits)
  then have "ln_conn l' \<in> range (\<lambda>e. main_send (e_proto E) r b e (ln_conn l))"
    using assms ServerSend by (auto split: sum.splits prod.splits)
  then obtain x where "conn_step E (ln_conn l) (MSent x) = Some (ln_conn l')" using m by (auto simp: image_iff)
  with ServerSend show ?thesis by blast
qed (use assms in \<open>auto simp: client_sends_def simp del: conn_step.simps
    split: if_splits option.splits caller_pc.splits prod.splits\<close>)

lemma conn_may_other: "o' < length (sv_conns s) \<Longrightarrow> ce \<noteq> CloseConn \<Longrightarrow> ce \<noteq> MReturn \<Longrightarrow> conn_may s o' ce"
  by (simp add: conn_may_def)

lemma set_link_server:
  assumes "link_step E (link_at s j) e = Some l" "peer_may s j e" "j < length (sy_peers s)" "peers_ok s"
  shows "sy_server (set_link j l s) = sy_server s \<or>
    (\<exists>o' ce. pr_conn (sy_peers s ! j) = Some o' \<and>
       server_step H E (sy_server s) (ConnStep o' ce) = Some (sy_server (set_link j l s)))"
proof (cases "pr_conn (sy_peers s ! j)")
  case (Some o')
  then have o': "o' < length (sv_conns (sy_server s))" using peers_okD(1) [OF assms(4,3)] by simp
  have at: "ln_conn (link_at s j) = sv_conns (sy_server s) ! o'" using Some by (simp add: link_at_def)
  have set: "sy_server (set_link j l s) = (sy_server s)\<lparr>sv_conns := (sv_conns (sy_server s))[o' := ln_conn l]\<rparr>"
    using Some by (simp add: set_link_def)
  consider "ln_conn l = ln_conn (link_at s j)"
    | ce where "conn_step E (ln_conn (link_at s j)) ce = Some (ln_conn l)" "conn_may (sy_server s) o' ce"
    using link_step_conn [OF assms(1)] assms(2) Some o'
    by (auto simp: peer_may_def server_part_def conn_may_other)
  then show ?thesis
  proof cases
    case 1
    with at set show ?thesis by simp
  next
    case (2 ce)
    with at set have "server_step H E (sy_server s) (ConnStep o' ce) = Some (sy_server (set_link j l s))" by simp
    with Some show ?thesis by blast
  qed
qed (simp add: set_link_def)

lemma set_link_at:
  assumes "link_step E (link_at s j) e = Some l" "peer_may s j e" "j < length (sy_peers s)" "peers_ok s"
    and "k < length (sy_peers s)"
  shows "link_at (set_link j l s) k = (if k = j then l else link_at s k)"
proof (cases "pr_conn (sy_peers s ! j)")
  case None
  then have "\<not> server_part s j e" by (simp add: server_part_def)
  then have "ln_conn l = ln_conn (link_at s j)"
    using link_step_conn [OF assms(1)] assms(2) by (auto simp: peer_may_def)
  then have "ln_conn l = conn0" using None by (simp add: link_at_def)
  with None assms(3,5) show ?thesis by (simp add: link_at_def set_link_def nth_list_update Let_def split: option.split)
next
  case (Some o')
  have o': "o' < length (sv_conns (sy_server s))" "k \<noteq> j \<Longrightarrow> pr_conn (sy_peers s ! k) \<noteq> Some o'"
    using peers_okD [OF assms(4,3) Some] assms(5) by auto
  show ?thesis
  proof (cases "k = j")
    case True
    with Some o'(1) assms(3) show ?thesis by (simp add: link_at_def set_link_def)
  next
    case False
    with o'(2) have "pr_conn (sy_peers s ! k) \<noteq> Some o'" by blast
    with Some False show ?thesis by (cases "pr_conn (sy_peers s ! k)") (simp_all add: link_at_def set_link_def)
  qed
qed

lemma set_link_same [simp]:
  "length (sy_peers (set_link j l s)) = length (sy_peers s)"
  "length (sv_conns (sy_server (set_link j l s))) = length (sv_conns (sy_server s))"
  by (simp_all add: set_link_def split: option.split)

lemma conn_of_set_link [simp]: "conn_of (set_link j l s) = conn_of s"
proof
  show "conn_of (set_link j l s) k = conn_of s k" for k
    by (cases "k = j") (simp_all add: conn_of_def set_link_def)
qed

definition system_inv :: "'a Handshaker \<Rightarrow> ('c, 'f, 'g, 'i, 'j, 'm) conn_env \<Rightarrow> system \<Rightarrow> bool" where [inv_defs]:
  "system_inv H E s \<longleftrightarrow> peers_ok s \<and> server_runs H E (sy_server s) \<and>
     (\<forall>j < length (sy_peers s). link_runs E (link_at s j))"

lemma system_inv_init: "system_inv H E system0"
  unfolding system_inv_def peers_ok_def server_runs_def
  by (simp add: system0_def server0_def conn_of_def ran_def) (metis run.simps(1))

lemma system_peer_step:
  assumes "system_inv H E s" "link_step E (link_at s j) e = Some l" "peer_may s j e" "j < length (sy_peers s)"
  shows "system_inv H E (set_link j l s)"
proof -
  have ok: "peers_ok s" and sv: "server_runs H E (sy_server s)" using assms(1) by (simp_all add: system_inv_def)
  have "server_runs H E (sy_server (set_link j l s))"
    using set_link_server [OF assms(2-4) ok, of H] sv by (auto simp del: server_step.simps intro: server_runs_step)
  moreover have "link_runs E l" using assms(1,2,4) by (auto simp: system_inv_def intro: link_runs_step)
  moreover have "peers_ok (set_link j l s)" by (rule peers_ok_same [OF ok]) simp_all
  ultimately show ?thesis
    using assms(1) by (auto simp: system_inv_def set_link_at [OF assms(2-4) ok])
qed

text \<open>A step of the server: a connection stays, is told to close, or is new.\<close>

lemma server_step_links:
  assumes "server_step H E s e = Some t" "\<not> is_ConnStep e"
  shows "(\<forall>o' < length (sv_conns s). sv_conns t ! o' \<in> {sv_conns s ! o', conn_close (sv_conns s ! o')}) \<and>
    (length (sv_conns t) = length (sv_conns s) \<or> sv_conns t = sv_conns s @ [conn0])"
  using assms(1)
proof (cases rule: server_step_conns)
  case (step o' ce c)
  with assms(2) show ?thesis by (simp add: is_ConnStep_def)
qed (auto simp: nth_append)

lemma joining_new:
  assumes "server_step H E s e = Some t" "\<not> is_ConnStep e" "length (sv_conns t) \<noteq> length (sv_conns s)"
  shows "sv_conns t = sv_conns s @ [conn0]"
  using server_step_links [OF assms(1,2)] assms(3) by blast

lemma link_at_server:
  assumes "j < length (sy_peers s)" "peers_ok s" "server_step H E (sy_server s) e = Some t" "\<not> is_ConnStep e"
    and "link_runs E (link_at s j)"
  shows "link_runs E (link_at (s\<lparr>sy_server := t\<rparr>) j)"
proof (cases "pr_conn (sy_peers s ! j)")
  case (Some o')
  then have "o' < length (sv_conns (sy_server s))" using peers_okD(1) [OF assms(2,1)] by simp
  then consider "sv_conns t ! o' = sv_conns (sy_server s) ! o'" | "sv_conns t ! o' = conn_close (sv_conns (sy_server s) ! o')"
    using server_step_links [OF assms(3,4)] by blast
  then show ?thesis
    using assms(5) Some by cases (auto simp: link_at_def intro: link_runs_close)
qed (use assms(5) in \<open>simp add: link_at_def\<close>)

lemma system_server_step:
  assumes inv: "system_inv H E s" and st: "server_step H E (sy_server s) e = Some t" "\<not> is_ConnStep e"
    and len: "length (sv_conns t) = length (sv_conns (sy_server s))"
  shows "system_inv H E (s\<lparr>sy_server := t\<rparr>)"
proof -
  have ok: "peers_ok s" "server_runs H E (sy_server s)" using inv by (simp_all add: system_inv_def)
  have "peers_ok (s\<lparr>sy_server := t\<rparr>)" by (rule peers_ok_same [OF ok(1)]) (simp_all add: len conn_of_def fun_eq_iff)
  moreover have "link_runs E (link_at (s\<lparr>sy_server := t\<rparr>) j)" if "j < length (sy_peers s)" for j
    using link_at_server [OF that ok(1) st] inv that by (simp add: system_inv_def)
  ultimately show ?thesis using server_runs_step [OF ok(2) st(1)] by (simp add: system_inv_def)
qed

lemma system_join_step:
  assumes inv: "system_inv H E s" and st: "server_step H E (sy_server s) e = Some t" "\<not> is_ConnStep e"
    and new: "length (sv_conns t) \<noteq> length (sv_conns (sy_server s))"
    and u: "join j (length (sv_conns (sy_server s))) (s\<lparr>sy_server := t\<rparr>) = Some u"
  shows "system_inv H E u"
proof -
  let ?n = "length (sv_conns (sy_server s))"
  have ok: "peers_ok s" "server_runs H E (sy_server s)" using inv by (simp_all add: system_inv_def)
  have conns: "sv_conns t = sv_conns (sy_server s) @ [conn0]" by (rule joining_new [OF st new])
  have j: "j < length (sy_peers s)" "pr_conn (sy_peers s ! j) = None"
    and ueq: "sy_server u = t" "sy_peers u = (sy_peers s)[j := (sy_peers s ! j)\<lparr>pr_conn := Some ?n\<rparr>]"
    using u by (auto simp: join_def split: if_splits)
  have "conn_of s j = None" using j by (simp add: conn_of_def)
  moreover have "conn_of u = (conn_of s)(j \<mapsto> ?n)"
  proof
    show "conn_of u k = ((conn_of s)(j \<mapsto> ?n)) k" for k
      using j ueq(2) by (cases "k = j") (simp_all add: conn_of_def)
  qed
  moreover have "conn_of s k \<noteq> Some ?n" for k
    using ok(1) by (auto simp: peers_ok_def dest: ranI)
  ultimately have "peers_ok u" using ok(1) by (auto simp: peers_ok_def ueq(1) conns)
  moreover have "link_runs E (link_at u k)" if k: "k < length (sy_peers s)" for k
  proof (cases "k = j")
    case True
    then have "link_at u k = link_at s k" using j ueq conns by (simp add: link_at_def)
    with inv k show ?thesis by (simp add: system_inv_def)
  next
    case False
    then have "link_at u k = link_at (s\<lparr>sy_server := t\<rparr>) k"
      using ueq by (simp add: link_at_def Let_def split: option.split)
    with link_at_server [OF k ok(1) st] inv k show ?thesis by (simp add: system_inv_def)
  qed
  ultimately show ?thesis using server_runs_step [OF ok(2) st(1)] ueq by (simp add: system_inv_def)
qed

lemma system_dial_step:
  assumes inv: "system_inv H E s" and w: "fresh_writer wu" "fresh_writer wd"
  shows "system_inv H E (s\<lparr>sy_peers := sy_peers s @ [\<lparr>pr_link = link0 wu wd, pr_conn = None\<rparr>]\<rparr>)"
    (is "system_inv H E ?t")
proof -
  have ok: "peers_ok s" "server_runs H E (sy_server s)" using inv by (simp_all add: system_inv_def)
  have "conn_of ?t = conn_of s" by (auto simp: conn_of_def fun_eq_iff nth_append)
  then have "peers_ok ?t" by (rule peers_ok_same [OF ok(1)]) simp
  moreover have "link_at ?t (length (sy_peers s)) = link0 wu wd" by (simp add: link_at_def link0_def)
  moreover have "link_at ?t k = link_at s k" if "k < length (sy_peers s)" for k
    using that by (simp add: link_at_def nth_append Let_def split: option.split)
  ultimately show ?thesis using inv link_runs_init [OF w] by (auto simp: system_inv_def less_Suc_eq)
qed

lemma system_inv_step:
  assumes inv: "system_inv H E s" and st: "system_step H E s e = Some t"
  shows "system_inv H E t"
proof (cases e)
  case (OfServer ev)
  with st obtain u where u: "server_step H E (sy_server s) ev = Some u" "\<not> is_ConnStep ev"
    by (auto simp del: server_step.simps split: if_splits option.splits)
  show ?thesis
  proof (cases "length (sv_conns u) = length (sv_conns (sy_server s))")
    case True
    with st OfServer u have "t = s\<lparr>sy_server := u\<rparr>" by (simp del: server_step.simps split: if_splits)
    with system_server_step [OF inv u True] show ?thesis by simp
  next
    case False
    with st OfServer u obtain j where "join j (length (sv_conns (sy_server s))) (s\<lparr>sy_server := u\<rparr>) = Some t"
      by (auto simp del: server_step.simps split: if_splits option.splits)
    then show ?thesis by (rule system_join_step [OF inv u False])
  qed
next
  case (OfPeer j le)
  with st obtain l where l: "link_step E (link_at s j) le = Some l" "peer_may s j le" "j < length (sy_peers s)"
    "t = set_link j l s"
    by (auto simp del: link_step.simps split: if_splits option.splits)
  with system_peer_step [OF inv l(1-3)] show ?thesis by simp
qed (use st system_dial_step [OF inv] in \<open>auto split: if_splits\<close>)

interpretation system_run: step_invariant "system_step H E" "system_inv H E" for H E
  by unfold_locales (rule system_inv_step)

lemma system_run_links:
  assumes "run (system_step H E) system0 es = Some s" "j < length (sy_peers s)"
  obtains wu wd ls where "fresh_writer wu" "fresh_writer wd" "run (link_step E) (link0 wu wd) ls = Some (link_at s j)"
  using system_run.inv_run [OF system_inv_init assms(1)] assms(2) that by (auto simp: system_inv_def link_runs_def)

lemma system_run_server:
  assumes "run (system_step H E) system0 es = Some s"
  shows "peers_ok s" "\<exists>ss. run (server_step H E) server0 ss = Some (sy_server s)"
  using system_run.inv_run [OF system_inv_init assms] by (simp_all add: system_inv_def server_runs_def)

text \<open>A server whose process has ended does nothing more.\<close>

lemma dead_step:
  assumes "system_step H E s e = Some t" "\<not> server_alive (sy_server s)"
  shows "sy_server t = sy_server s"
proof (cases e)
  case (OfPeer j le)
  with assms obtain l where l: "link_step E (link_at s j) le = Some l" "peer_may s j le" "j < length (sy_peers s)"
    "t = set_link j l s"
    by (auto simp del: link_step.simps split: if_splits option.splits)
  have "\<not> server_part s j le" using assms(2) by (simp add: server_part_def split: option.split)
  then have c: "ln_conn l = ln_conn (link_at s j)"
    using link_step_conn [OF l(1)] l(2) by (auto simp: peer_may_def)
  show ?thesis
  proof (cases "pr_conn (sy_peers s ! j)")
    case (Some o')
    with c l(4) show ?thesis by (simp add: set_link_def link_at_def)
  qed (simp add: l(4) set_link_def)
qed (use assms in \<open>auto split: if_splits\<close>)

lemma dead_run:
  assumes "run (system_step H E) s es = Some t" "\<not> server_alive (sy_server s)"
  shows "sy_server t = sy_server s"
  using assms
proof (induction es arbitrary: s)
  case (Cons e es)
  then obtain u where u: "system_step H E s e = Some u" "run (system_step H E) u es = Some t"
    by (auto simp del: system_step.simps split: option.splits)
  have "sy_server u = sy_server s" by (rule dead_step [OF u(1) Cons.prems(2)])
  with Cons.IH [OF u(2)] Cons.prems(2) show ?case by simp
qed simp

section \<open>Two clients of one server\<close>

definition system_start :: "system_event list" where
  "system_start =
     [Dial (calm_writer []) (calm_writer []), Dial (calm_writer []) (calm_writer []), OfServer (ServeCall 5), OfServer (ServeStart 0),
      OfServer (Accepted 0 (Inl root_conn)), OfServer (Handshaken 0), OfServer (ServeNew 0),
      OfServer (Accepted 0 (Inl (root_conn\<lparr>conn_id := 0\<rparr>))), OfServer (Handshaken 0), OfServer (ServeNew 0)]"

lemmas system_eval = system0_def link_at_def set_link_def server_alive_def joining_def join_def server_part_def peer_may_def
  is_ConnStep_def

definition system1 :: system where
  "system1 = \<lparr>sy_server = server0\<lparr>sv_listeners := [5],
            sv_serves := [\<lparr>v_listener = 5, v_backoff = 0, v_pc = SvAccept, v_fails = 0, v_sleeps = []\<rparr>],
            sv_conns := [conn0, conn0], sv_connections := [0, 1], sv_net := [root_conn, root_conn\<lparr>conn_id := 0\<rparr>]\<rparr>,
          sy_peers = [\<lparr>pr_link = calm_link, pr_conn = Some 1\<rparr>, \<lparr>pr_link = calm_link, pr_conn = Some 0\<rparr>]\<rparr>"

lemma system_start_result:
  "run (system_step (serve_handshaker root_config) demo_env) system0 system_start = Some system1"
  by (simp add: system1_def system_start_def system_eval server_eval fresh_calm calm_link_def)

text \<open>The calls of the two clients; then the second sends data on the stream of a unary call.\<close>

definition system_run1 :: "system_event list" where
  "system_run1 = map (OfPeer 0) link_run1"

definition system_run2 :: "system_event list" where
  "system_run2 = map (OfPeer 1) link_run2"

lemma system_run1_result:
  "\<exists>s m. run (system_step (serve_handshaker root_config) demo_env) system1 system_run1 = Some s \<and> length (sy_peers s) = 2 \<and>
     caller_at (ln_client (link_at s 0)) 0 = Some (KDelete 0 (GotMsg m)) \<and> ln_up_got (link_at s 0) \<noteq> []"
  by (simp add: system_run1_def link_run1_def link_call_up_def system1_def server0_def system_eval conn_may_def link_eval
      messageHeaderLength_def)

lemma system_run2_result:
  "\<exists>s. run (system_step (serve_handshaker root_config) demo_env) system1 system_run2 = Some s \<and> length (sy_peers s) = 2 \<and>
     \<not> server_alive (sy_server s)"
  by (simp add: system_run2_def link_run2_def link_call_up_def system1_def server0_def system_eval conn_may_def link_eval
      messageHeaderLength_def flagRemoteOpen_def)

section \<open>Whom the server serves\<close>

lemma link_step_up_got:
  "link_step E l e = Some l' \<Longrightarrow> ln_up_got l' = ln_up_got l \<or> (\<exists>x c p. e = ServerRecv x c p)"
  by (cases e) (auto simp: client_sends_def simp del: client_step.simps conn_step.simps
      split: if_splits option.splits caller_pc.splits main_pc.splits sum.splits prod.splits)

text \<open>
  The connection of a client is one the handshake made of what the client dialed, and of a client
  without a connection nothing has been read.
\<close>

definition joined_inv :: "'a Handshaker \<Rightarrow> system \<Rightarrow> bool" where [inv_defs]:
  "joined_inv H s \<longleftrightarrow>
     (\<forall>j o'. conn_of s j = Some o' \<longrightarrow> (\<exists>raw. conn_id raw = j \<and> approved_as H raw (sv_net (sy_server s) ! o'))) \<and>
     (\<forall>j < length (sy_peers s). pr_conn (sy_peers s ! j) = None \<longrightarrow> ln_up_got (pr_link (sy_peers s ! j)) = [])"

lemma joined_inv_init: "joined_inv H system0"
  by (simp add: joined_inv_def system0_def conn_of_def)

lemma server_runs_facts:
  assumes "server_runs H E s"
  shows "approved_inv H s" "length (sv_net s) = length (sv_conns s)"
proof -
  obtain ss where r: "run (server_step H E) server0 ss = Some s" using assms by (auto simp: server_runs_def)
  show "approved_inv H s" by (rule server_approved.inv_run [OF approved_inv_init r])
  have "table_inv s" by (rule server_table.inv_run [OF table_inv_init r])
  then show "length (sv_net s) = length (sv_conns s)" by (simp add: table_inv_def)
qed

lemma joined_inv_step:
  assumes inv: "system_inv H E s" "joined_inv H s" and st: "system_step H E s e = Some t"
  shows "joined_inv H t"
proof (cases e)
  case (Dial wu wd)
  with st have t: "t = s\<lparr>sy_peers := sy_peers s @ [\<lparr>pr_link = link0 wu wd, pr_conn = None\<rparr>]\<rparr>" by (auto split: if_splits)
  have "conn_of t = conn_of s" by (auto simp: t conn_of_def fun_eq_iff nth_append)
  with inv(2) show ?thesis by (auto simp: joined_inv_def t nth_append link0_def)
next
  case (OfPeer j le)
  with st obtain l where l: "link_step E (link_at s j) le = Some l" "peer_may s j le" "j < length (sy_peers s)"
    "t = set_link j l s"
    by (auto simp del: link_step.simps split: if_splits option.splits)
  have net: "sv_net (sy_server t) = sv_net (sy_server s)" by (simp add: l(4) set_link_def split: option.split)
  have "ln_up_got (pr_link (sy_peers t ! k)) = []" if k: "k < length (sy_peers s)" "pr_conn (sy_peers t ! k) = None" for k
  proof (cases "k = j")
    case True
    then have c: "pr_conn (sy_peers s ! j) = None" using k l(3,4) by (simp add: set_link_def)
    then have "ln_up_got l = ln_up_got (link_at s j)"
      using link_step_up_got [OF l(1)] l(2) by (auto simp: peer_may_def server_part_def)
    with c inv(2) l(3,4) True show ?thesis by (simp add: joined_inv_def set_link_def link_at_def)
  next
    case False
    with k l(4) inv(2) show ?thesis by (simp add: joined_inv_def set_link_def)
  qed
  with inv(2) l(4) net show ?thesis by (simp add: joined_inv_def)
next
  case (OfServer ev)
  with st obtain u where u: "server_step H E (sy_server s) ev = Some u" "\<not> is_ConnStep ev"
    by (auto simp del: server_step.simps split: if_splits option.splits)
  have old: "o' < length (sv_net (sy_server s))" if "conn_of s j = Some o'" for j o'
    using inv(1) that server_runs_facts(2) [of H E "sy_server s"]
    by (auto simp: system_inv_def peers_ok_def dest: ranI)
  show ?thesis
  proof (cases "length (sv_conns u) = length (sv_conns (sy_server s))")
    case True
    with st OfServer u have t: "t = s\<lparr>sy_server := u\<rparr>" by (simp del: server_step.simps split: if_splits)
    have "sv_net u = sv_net (sy_server s)"
      using u(1)
    proof (cases rule: server_step_conns)
      case (step o' ce c)
      with u(2) show ?thesis by (simp add: is_ConnStep_def)
    qed (use True in simp_all)
    with inv(2) t show ?thesis by (simp add: joined_inv_def conn_of_def)
  next
    case False
    from u(1) show ?thesis
    proof (cases rule: server_step_conns)
      case (new i raw c)
      let ?n = "length (sv_conns (sy_server s))"
      have "joining (sy_server s) ev = Some (conn_id raw)" using new by (simp add: joining_def)
      with st OfServer u False have "join (conn_id raw) ?n (s\<lparr>sy_server := u\<rparr>) = Some t"
        by (simp del: server_step.simps split: if_splits)
      then have j: "conn_id raw < length (sy_peers s)" "pr_conn (sy_peers s ! conn_id raw) = None"
        and t: "sy_server t = u" "sy_peers t = (sy_peers s)[conn_id raw := (sy_peers s ! conn_id raw)\<lparr>pr_conn := Some ?n\<rparr>]"
        by (auto simp: join_def split: if_splits)
      have "sv_serves (sy_server s) ! i \<in> set (sv_serves (sy_server s))" "v_pc (sv_serves (sy_server s) ! i) = SvNew raw c"
        using new(2) by (simp_all add: serve_at_Some)
      then have c: "approved_as H raw c"
        using server_runs_facts(1) [of H E "sy_server s"] inv(1) unfolding system_inv_def approved_inv_def by blast
      have len: "length (sv_net (sy_server s)) = ?n"
        using server_runs_facts(2) [of H E "sy_server s"] inv(1) by (simp add: system_inv_def)
      have "conn_of t k = (if k = conn_id raw then Some ?n else conn_of s k)" for k
        using j(1) t(2) by (cases "k = conn_id raw") (simp_all add: conn_of_def)
      moreover have "\<exists>raw. conn_id raw = k \<and> approved_as H raw ((sv_net (sy_server s) @ [c]) ! o')" if "conn_of s k = Some o'" for k o'
        using inv(2) that old [OF that] by (auto simp: joined_inv_def nth_append)
      moreover have "\<exists>raw'. conn_id raw' = conn_id raw \<and> approved_as H raw' ((sv_net (sy_server s) @ [c]) ! ?n)"
        using c len by (auto simp: nth_append)
      moreover have "ln_up_got (pr_link (sy_peers t ! k)) = []" if "k < length (sy_peers s)" "pr_conn (sy_peers t ! k) = None" for k
        using inv(2) that t(2) by (cases "k = conn_id raw") (simp_all add: joined_inv_def)
      ultimately show ?thesis using t new(6) by (auto simp: joined_inv_def split: if_splits)
    next
      case (step o' ce c)
      with u(2) show ?thesis by (simp add: is_ConnStep_def)
    qed (use False in simp_all)
  qed
qed

interpretation system_joined: step_invariant "system_step H E" "\<lambda>s. system_inv H E s \<and> joined_inv H s" for H E
  by unfold_locales (use system_inv_step joined_inv_step in blast)

text \<open>A client from which the server has read, or which has received something, is connected.\<close>

lemma served_connected:
  assumes "status_lib_ok (e_lib E)" "run (system_step H E) system0 es = Some s" "j < length (sy_peers s)"
    and "ln_up_got (link_at s j) \<noteq> [] \<or> ln_down_got (link_at s j) \<noteq> []"
  obtains o' raw where "pr_conn (sy_peers s ! j) = Some o'" "conn_id raw = j" "approved_as H raw (sv_net (sy_server s) ! o')"
proof (cases "pr_conn (sy_peers s ! j)")
  case None
  have inv: "joined_inv H s" using system_joined.inv_run [OF _ assms(2)] system_inv_init joined_inv_init by blast
  have "ln_up_got (link_at s j) = []" using inv assms(3) None by (simp add: joined_inv_def link_at_def)
  moreover have "ln_down_got (link_at s j) = []"
  proof -
    obtain wu wd ls where l: "fresh_writer wu" "fresh_writer wd" "run (link_step E) (link0 wu wd) ls = Some (link_at s j)"
      by (rule system_run_links [OF assms(2,3)])
    have "prefix (ln_down_got (link_at s j)) (server_msgs (e_proto E) (ln_conn (link_at s j)))"
      by (rule link_baseD(3) [OF link_run_facts(1) [OF assms(1) l]])
    then show ?thesis using None by (simp add: link_at_def server_msgs_def conn0_def)
  qed
  ultimately show ?thesis using assms(4) by simp
next
  case (Some o')
  have inv: "joined_inv H s" using system_joined.inv_run [OF _ assms(2)] system_inv_init joined_inv_init by blast
  have "conn_of s j = Some o'" using Some assms(3) by (simp add: conn_of_def)
  with inv obtain raw where "conn_id raw = j" "approved_as H raw (sv_net (sy_server s) ! o')"
    unfolding joined_inv_def by blast
  with Some that show ?thesis by blast
qed

section \<open>Properties\<close>

text \<open>
  A server with any number of clients is made of its parts. However clients connect, accept loop,
  shutdowns and the goroutines of all connections interleave, the server is in a state its own steps
  reach, each client and its connection are in a state that the two reach alone over their network
  connection, and every connection belongs to exactly one client. So everything proved of the
  server, of one connection and of one link holds in the system.
\<close>

theorem system_composes:
  assumes "run (system_step H E) system0 es = Some s"
  shows "(\<exists>ss. run (server_step H E) server0 ss = Some (sy_server s)) \<and>
    (\<forall>j < length (sy_peers s). \<exists>wu wd ls. fresh_writer wu \<and> fresh_writer wd \<and>
       run (link_step E) (link0 wu wd) ls = Some (link_at s j)) \<and>
    (\<forall>o' < length (sv_conns (sy_server s)). \<exists>!j. j < length (sy_peers s) \<and> pr_conn (sy_peers s ! j) = Some o') \<and>
    (\<forall>j < length (sy_peers s). \<forall>o'. pr_conn (sy_peers s ! j) = Some o' \<longrightarrow>
       o' < length (sv_conns (sy_server s)) \<and> ln_conn (link_at s j) = sv_conns (sy_server s) ! o')"
proof (intro conjI)
  note ok = system_run_server [OF assms]
  show "\<exists>ss. run (server_step H E) server0 ss = Some (sy_server s)" by (rule ok(2))
  show "\<forall>j < length (sy_peers s). \<exists>wu wd ls. fresh_writer wu \<and> fresh_writer wd \<and>
      run (link_step E) (link0 wu wd) ls = Some (link_at s j)"
    using system_run_links [OF assms] by metis
  show "\<forall>o' < length (sv_conns (sy_server s)). \<exists>!j. j < length (sy_peers s) \<and> pr_conn (sy_peers s ! j) = Some o'"
  proof (intro allI impI)
    fix o' assume "o' < length (sv_conns (sy_server s))"
    from peers_ok_conn [OF ok(1) this] obtain j where j: "j < length (sy_peers s)" "pr_conn (sy_peers s ! j) = Some o'" .
    with peers_okD(2) [OF ok(1) j]
    show "\<exists>!j. j < length (sy_peers s) \<and> pr_conn (sy_peers s ! j) = Some o'" by blast
  qed
  show "\<forall>j < length (sy_peers s). \<forall>o'. pr_conn (sy_peers s ! j) = Some o' \<longrightarrow>
      o' < length (sv_conns (sy_server s)) \<and> ln_conn (link_at s j) = sv_conns (sy_server s) ! o'"
    using peers_okD(1) [OF ok(1)] by (simp add: link_at_def)
qed

theorem system_composes_witness:
  "\<exists>s ls wu wd. run (system_step (serve_handshaker root_config) demo_env) system0 (system_start @ system_run1) = Some s \<and>
     run (link_step demo_env) (link0 wu wd) ls = Some (link_at s 0)"
proof -
  obtain s where s: "run (system_step (serve_handshaker root_config) demo_env) system1 system_run1 = Some s"
    "length (sy_peers s) = 2"
    using system_run1_result by blast
  have r: "run (system_step (serve_handshaker root_config) demo_env) system0 (system_start @ system_run1) = Some s"
    using s(1) system_start_result by (simp add: run_append)
  have "0 < length (sy_peers s)" by (simp add: s(2))
  with system_composes [OF r] r show ?thesis by blast
qed

text \<open>
  C2: With any number of clients on one server, a caller gets the answer to its own request. When a
  caller has taken a message, the connection of its own client, and of no other, wrote a response
  for the caller's stream whose frame is exactly that message, and the caller had written its own
  request there; unless the response is the status of a refusal, the server had started a call for
  the stream, and the only request it ever received for it is this caller's.
\<close>

theorem clients_get_their_answers:
  assumes "status_lib_ok (e_lib E)" "run (system_step H E) system0 es = Some s" "j < length (sy_peers s)"
    and "caller_at (ln_client (link_at s j)) k = Some (KDelete o' (GotMsg m))"
  shows "\<exists>c r from_status t flags p. pr_conn (sy_peers s ! j) = Some c \<and>
    (\<forall>i < length (sy_peers s). pr_conn (sy_peers s ! i) = Some c \<longrightarrow> i = j) \<and>
    (r, from_status) \<in> set (responses_sent (sv_conns (sy_server s) ! c)) \<and>
    resp_id r = sid (cl_objs (ln_client (link_at s j)) ! o') \<and> response_frame (e_proto E) r = Inr (resp_id r, t, flags, p) \<and>
    (header m, payload m, None) = received (resp_id r, t, flags, bytes_of p) \<and> asked (ln_client (link_at s j)) k o' \<and>
    (\<not> from_status \<and> length (cl_objs (ln_client (link_at s j))) \<le> 2 ^ 31 \<longrightarrow>
       resp_id r \<in> set (map w_id (workers (sv_conns (sy_server s) ! c))) \<and>
       (\<forall>x. (resp_id r, messageTypeRequest, x) \<in> set (ln_up_got (link_at s j)) \<longleftrightarrow>
          x = (k_flags (cl_callers (ln_client (link_at s j)) ! k),
               bytes_of (k_data (cl_callers (ln_client (link_at s j)) ! k)))))"
proof -
  obtain wu wd ls where l: "fresh_writer wu" "fresh_writer wd" "run (link_step E) (link0 wu wd) ls = Some (link_at s j)"
    by (rule system_run_links [OF assms(2,3)])
  note A = calls_get_their_answers [OF assms(1) l assms(4)]
  show ?thesis
  proof (cases "pr_conn (sy_peers s ! j)")
    case None
    then have "responses_sent (ln_conn (link_at s j)) = []" by (simp add: link_at_def conn0_def)
    with A show ?thesis by simp
  next
    case (Some c)
    then have c: "ln_conn (link_at s j) = sv_conns (sy_server s) ! c" by (simp add: link_at_def)
    have one: "\<forall>i < length (sy_peers s). pr_conn (sy_peers s ! i) = Some c \<longrightarrow> i = j"
      using peers_okD(2) [OF system_run_server(1) [OF assms(2)] assms(3) Some] by blast
    from A [unfolded c] show ?thesis
      by (elim exE) (rule exI, rule exI, rule exI, rule exI, rule exI, rule exI, rule conjI [OF Some], rule conjI [OF one], assumption)
  qed
qed

theorem clients_get_their_answers_witness:
  "\<exists>s m r b. run (system_step (serve_handshaker root_config) demo_env) system0 (system_start @ system_run1) = Some s \<and>
     caller_at (ln_client (link_at s 0)) 0 = Some (KDelete 0 (GotMsg m)) \<and>
     (r, b) \<in> set (responses_sent (ln_conn (link_at s 0)))"
proof -
  obtain s m where s: "run (system_step (serve_handshaker root_config) demo_env) system1 system_run1 = Some s"
    "length (sy_peers s) = 2" "caller_at (ln_client (link_at s 0)) 0 = Some (KDelete 0 (GotMsg m))"
    using system_run1_result by blast
  have r: "run (system_step (serve_handshaker root_config) demo_env) system0 (system_start @ system_run1) = Some s"
    using s(1) system_start_result by (simp add: run_append)
  have lib: "status_lib_ok (e_lib demo_env)" using example_status_lib_ok by (simp add: demo_env_def)
  have "0 < length (sy_peers s)" by (simp add: s(2))
  from clients_get_their_answers [OF lib r this s(3)] obtain c x b where
    "pr_conn (sy_peers s ! 0) = Some c" "(x, b) \<in> set (responses_sent (sv_conns (sy_server s) ! c))"
    by blast
  then have "(x, b) \<in> set (responses_sent (ln_conn (link_at s 0)))" by (simp add: link_at_def)
  with r s(3) show ?thesis by blast
qed

text \<open>
  C12: The only crash of the server process, its methods and interceptors aside. The process of a
  server with any number of clients ends by a panic only after one of them wrote, and the server
  received, a data message on the stream of a unary call; the goroutines of \<open>Serve\<close> never panic.
  Then every connection is gone with it: nothing of the server, whichever client it belongs to,
  moves again.
\<close>

theorem server_process_crash:
  assumes "status_lib_ok (e_lib E)" "run (system_step H E) system0 es = Some s" "\<not> server_alive (sy_server s)"
    and "run (system_step H E) s fs = Some t"
  shows "sy_server t = sy_server s \<and>
    (\<exists>j < length (sy_peers s). \<exists>x \<in> set (ln_up_got (link_at s j)) \<inter> set (client_msgs (ln_client (link_at s j))).
       fst (snd x) = messageTypeData \<and> unary_call (ln_conn (link_at s j)) (fst x))"
proof
  note ok = system_run_server [OF assms(2)]
  show "sy_server t = sy_server s" by (rule dead_run [OF assms(4,3)])
  obtain ss where "run (server_step H E) server0 ss = Some (sy_server s)" using ok(2) by blast
  then have "backoff_inv (sy_server s)" by (rule server_backoff.inv_run [OF backoff_inv_init])
  then obtain c where "c \<in> set (sv_conns (sy_server s))" "rpc c = RPanic"
    using assms(3) by (auto simp: server_alive_def list_all_iff backoff_inv_def serve_ok_def)
  then obtain o' where o': "o' < length (sv_conns (sy_server s))" "rpc (sv_conns (sy_server s) ! o') = RPanic"
    by (auto simp: in_set_conv_nth)
  obtain j where j: "j < length (sy_peers s)" "pr_conn (sy_peers s ! j) = Some o'"
    by (rule peers_ok_conn [OF ok(1) o'(1)])
  obtain wu wd ls where l: "fresh_writer wu" "fresh_writer wd" "run (link_step E) (link0 wu wd) ls = Some (link_at s j)"
    by (rule system_run_links [OF assms(2) j(1)])
  have "rpc (ln_conn (link_at s j)) = RPanic" using j(2) o'(2) by (simp add: link_at_def)
  from client_crashes_server_by_data [OF assms(1) l this] j(1)
  show "\<exists>j < length (sy_peers s). \<exists>x \<in> set (ln_up_got (link_at s j)) \<inter> set (client_msgs (ln_client (link_at s j))).
      fst (snd x) = messageTypeData \<and> unary_call (ln_conn (link_at s j)) (fst x)" by blast
qed

text \<open>
  The interface of the client is enough: one of two clients calls \<open>NewStream\<close> on a unary method,
  then \<open>SendMsg\<close>.
\<close>

theorem server_process_crash_witness:
  "\<exists>s. run (system_step (serve_handshaker root_config) demo_env) system0 (system_start @ system_run2) = Some s \<and>
     length (sy_peers s) = 2 \<and> \<not> server_alive (sy_server s) \<and>
     (\<exists>j < 2. \<exists>x \<in> set (client_msgs (ln_client (link_at s j))). fst (snd x) = messageTypeData)"
proof -
  obtain s where s: "run (system_step (serve_handshaker root_config) demo_env) system1 system_run2 = Some s"
    "length (sy_peers s) = 2" "\<not> server_alive (sy_server s)"
    using system_run2_result by blast
  have r: "run (system_step (serve_handshaker root_config) demo_env) system0 (system_start @ system_run2) = Some s"
    using s(1) system_start_result by (simp add: run_append)
  have lib: "status_lib_ok (e_lib demo_env)" using example_status_lib_ok by (simp add: demo_env_def)
  have "run (system_step (serve_handshaker root_config) demo_env) s [] = Some s" by simp
  from server_process_crash [OF lib r s(3) this] obtain j x where "j < 2"
    "x \<in> set (client_msgs (ln_client (link_at s j)))" "fst (snd x) = messageTypeData"
    unfolding s(2) by blast
  with r s(2,3) show ?thesis by blast
qed

text \<open>
  C18: Only the allowed users are served. Of a server whose only option is the handshake with
  \<open>UnixSocketRequireUidGid\<close>, with any number of clients, whoever dials and however everything
  interleaves: when the server's receive loop has taken a message of a client, or the client has
  received one, then the server's connection to it is the one this client dialed, a Unix socket, and
  its peer has exactly that user and group. Of any other client not a single message is read.
\<close>

theorem only_allowed_clients_served:
  assumes "status_lib_ok (e_lib E)"
    and "NewServer [WithServerHandshaker (Some (UnixCredentialsFunc_Handshake L (UnixSocketRequireUidGid (uint u) (uint g))))] =
      Inr (cfg, sset)"
    and "run (system_step (serve_handshaker cfg) E) system0 es = Some s" "j < length (sy_peers s)"
    and "ln_up_got (link_at s j) \<noteq> [] \<or> ln_down_got (link_at s j) \<noteq> []"
  shows "\<exists>o' ucred. pr_conn (sy_peers s ! j) = Some o' \<and> conn_id (sv_net (sy_server s) ! o') = j \<and>
    conn_is_unix (sv_net (sy_server s) ! o') \<and> conn_ucred (sv_net (sy_server s) ! o') = Inr ucred \<and>
    Uid ucred = u \<and> Gid ucred = g"
proof -
  have cfg: "serve_handshaker cfg = UnixCredentialsFunc_Handshake L (UnixSocketRequireUidGid (uint u) (uint g))"
    using assms(2)
    by (auto simp: NewServer_def NewServer_config_def WithServerHandshaker_def emptyConfig_def serve_handshaker_def
        split: option.splits)
  have pos: "uint w \<noteq> -1" for w :: u32 using uint_ge_0 [of w] by linarith
  obtain o' raw where o': "pr_conn (sy_peers s ! j) = Some o'" "conn_id raw = j"
    "approved_as (serve_handshaker cfg) raw (sv_net (sy_server s) ! o')"
    by (rule served_connected [OF assms(1,3,4,5)])
  then have "sv_net (sy_server s) ! o' = raw \<and> conn_is_unix raw \<and>
      (\<exists>ucred. conn_ucred raw = Inr ucred \<and> requireUidGid ucred (uint u) (uint g) = None)"
    by (auto simp: approved_as_def cfg handshake_Inr_iff UnixSocketRequireUidGid_def)
  with o' pos show ?thesis by (auto simp: requireUidGid_None_iff)
qed

theorem only_allowed_clients_served_witness:
  "\<exists>s o'. run (system_step (serve_handshaker root_config) demo_env) system0 (system_start @ system_run1) = Some s \<and>
     pr_conn (sy_peers s ! 0) = Some o' \<and> conn_id (sv_net (sy_server s) ! o') = 0 \<and> conn_is_unix (sv_net (sy_server s) ! o')"
proof -
  have n: "NewServer [WithServerHandshaker (Some (UnixCredentialsFunc_Handshake example_status_lib
        (UnixSocketRequireUidGid (uint (0 :: u32)) (uint (0 :: u32)))))] = Inr (root_config, newServiceSet defaultServerInterceptor)"
    by (simp add: NewServer_def NewServer_config_def WithServerHandshaker_def emptyConfig_def root_config_def UnixSocketRequireRoot_def)
  obtain s where s: "run (system_step (serve_handshaker root_config) demo_env) system1 system_run1 = Some s"
    "length (sy_peers s) = 2" "ln_up_got (link_at s 0) \<noteq> []"
    using system_run1_result by blast
  have r: "run (system_step (serve_handshaker root_config) demo_env) system0 (system_start @ system_run1) = Some s"
    using s(1) system_start_result by (simp add: run_append)
  have lib: "status_lib_ok (e_lib demo_env)" using example_status_lib_ok by (simp add: demo_env_def)
  have "0 < length (sy_peers s)" "ln_up_got (link_at s 0) \<noteq> [] \<or> ln_down_got (link_at s 0) \<noteq> []" using s(2,3) by simp_all
  from only_allowed_clients_served [OF lib n r this] r show ?thesis by blast
qed

end
