(* ===== verification/Example.thy ===== *)
theory Example
  imports EndToEnd Server
begin

text \<open>
  The example program (\<open>src/example/cmd\<close>) with the code generated for its service
  (\<open>src/example/example_ttrpc.pb.go\<close>): a server with one service behind interceptors that print
  the metadata of every call, and a client that makes one call. Printing is an argument: what
  writing to standard output returns. A panic in any goroutine ends the process.
\<close>

section \<open>The service\<close>

record Method1Request =
  rq_Foo :: string
  rq_Bar :: string

record Method1Response =
  rp_Foo :: string
  rp_Bar :: string

text \<open>The contents of the messages of the service; the zero values are what \<open>var\<close> declares.\<close>

datatype example_message = Request1 Method1Request | Response1 Method1Response | EmptyMessage

definition zero_request :: example_message where
  "zero_request = Request1 \<lparr>rq_Foo = '''', rq_Bar = ''''\<rparr>"

definition zero_response :: example_message where
  "zero_response = Response1 \<lparr>rp_Foo = '''', rp_Bar = ''''\<rparr>"

definition request_type :: string where
  "request_type = ''*example.Method1Request''"

definition response_type :: string where
  "response_type = ''*example.Method1Response''"

definition empty_type :: string where
  "empty_type = ''*emptypb.Empty''"

definition request_in :: "example_message any \<Rightarrow> Method1Request" where
  "request_in v = (case content v of Some (Request1 r) \<Rightarrow> r | _ \<Rightarrow> \<lparr>rq_Foo = '''', rq_Bar = ''''\<rparr>)"

definition response_in :: "example_message any \<Rightarrow> Method1Response" where
  "response_in v = (case content v of Some (Response1 r) \<Rightarrow> r | _ \<Rightarrow> \<lparr>rp_Foo = '''', rp_Bar = ''''\<rparr>)"

text \<open>Methods return a pointer, nil for \<open>None\<close>, and an error.\<close>

record 'c ExampleService =
  Method1 :: "'c \<Rightarrow> Method1Request \<Rightarrow> Method1Response option \<times> go_error option"
  Method2 :: "'c \<Rightarrow> Method1Request \<Rightarrow> unit option \<times> go_error option"

definition exampleServer :: "'c ExampleService" where
  "exampleServer =
     \<lparr>Method1 = (\<lambda>ctx r. (Some \<lparr>rp_Foo = rq_Foo r, rp_Bar = rq_Bar r\<rparr>, None)),
      Method2 = (\<lambda>ctx r. (Some (), None))\<rparr>"

section \<open>Generated code\<close>

text \<open>The entries of the table of methods; a nil pointer becomes a typed nil.\<close>

definition method1_entry :: "'c ExampleService \<Rightarrow> ('c, example_message) MethodFn" where
  "method1_entry svc ctx unmarshal =
     (case unmarshal (ProtoMsg request_type (Some zero_request)) of
        (Some err, req) \<Rightarrow> (NilAny, Some err)
      | (None, req) \<Rightarrow>
          (case Method1 svc ctx (request_in req) of
             (resp, err) \<Rightarrow> (ProtoMsg response_type (map_option Response1 resp), err)))"

definition method2_entry :: "'c ExampleService \<Rightarrow> ('c, example_message) MethodFn" where
  "method2_entry svc ctx unmarshal =
     (case unmarshal (ProtoMsg request_type (Some zero_request)) of
        (Some err, req) \<Rightarrow> (NilAny, Some err)
      | (None, req) \<Rightarrow>
          (case Method2 svc ctx (request_in req) of
             (resp, err) \<Rightarrow> (ProtoMsg empty_type (map_option (\<lambda>_. EmptyMessage) resp), err)))"

definition example_service :: string where
  "example_service = ''ttrpc.example.v1.Example''"

definition RegisterExampleService ::
    "'c ExampleService \<Rightarrow> ((('c, example_message) MethodFn, 's) ServiceDesc, 'i, 'j) serviceSet \<Rightarrow>
     string + ((('c, example_message) MethodFn, 's) ServiceDesc, 'i, 'j) serviceSet" where
  "RegisterExampleService svc S =
     RegisterService example_service
       \<lparr>Methods = [''Method1'' \<mapsto> method1_entry svc, ''Method2'' \<mapsto> method2_entry svc], Streams = Map.empty\<rparr> S"

text \<open>
  The methods of the client. \<open>call\<close> is its \<open>Call\<close> with everything but service, method, request and
  response given.
\<close>

type_synonym example_call =
  "string \<Rightarrow> string \<Rightarrow> example_message any \<Rightarrow> example_message any \<Rightarrow> (go_error option \<times> example_message any) outcome"

definition exampleClient_Method1 ::
    "example_call \<Rightarrow> Method1Request \<Rightarrow> (Method1Response option \<times> go_error option) outcome" where
  "exampleClient_Method1 call req =
     map_outcome (\<lambda>(err, resp). case err of Some e \<Rightarrow> (None, Some e) | None \<Rightarrow> (Some (response_in resp), None))
       (call example_service ''Method1'' (ProtoMsg request_type (Some (Request1 req)))
          (ProtoMsg response_type (Some zero_response)))"

definition exampleClient_Method2 ::
    "example_call \<Rightarrow> Method1Request \<Rightarrow> (unit option \<times> go_error option) outcome" where
  "exampleClient_Method2 call req =
     map_outcome (\<lambda>(err, resp). case err of Some e \<Rightarrow> (None, Some e) | None \<Rightarrow> (Some (), None))
       (call example_service ''Method2'' (ProtoMsg request_type (Some (Request1 req)))
          (ProtoMsg empty_type (Some EmptyMessage)))"

section \<open>Interceptors\<close>

definition dumpMetadata :: "(md option \<Rightarrow> go_error option) \<Rightarrow> 'c go_context \<Rightarrow> unit outcome" where
  "dumpMetadata print ctx =
     (case GetMetadata ctx of
        (m, ok) \<Rightarrow> if \<not> ok then Panic else (case print m of Some err \<Rightarrow> Panic | None \<Rightarrow> Ok ()))"

definition serverIntercept ::
    "(md option \<Rightarrow> go_error option) \<Rightarrow> ('c go_context, 'u, 'r outcome) UnaryServerInterceptor" where
  "serverIntercept print ctx um i m =
     (case dumpMetadata print ctx of Ok _ \<Rightarrow> m ctx um | Panic \<Rightarrow> Panic | Blocks \<Rightarrow> Blocks)"

definition clientIntercept ::
    "(md option \<Rightarrow> go_error option) \<Rightarrow> ('c go_context, 'q, 'p, 'r outcome) UnaryClientInterceptor" where
  "clientIntercept print ctx req resp i invoker =
     (case dumpMetadata print ctx of Ok _ \<Rightarrow> invoker ctx req resp | Panic \<Rightarrow> Panic | Blocks \<Rightarrow> Blocks)"

text \<open>\<open>(*Client).Call\<close> and \<open>(*serviceSet).unaryCall\<close> with interceptors that may panic.\<close>

definition example_Call ::
    "'m proto_lib \<Rightarrow> ('c go_context, Request, Response, (go_error option \<times> Response) outcome) UnaryClientInterceptor \<Rightarrow>
     ('c go_context, Request, Response, (go_error option \<times> Response) outcome) Invoker \<Rightarrow>
     string list \<Rightarrow> heap \<Rightarrow> 'c go_context \<Rightarrow> string \<Rightarrow> string \<Rightarrow> 'm any \<Rightarrow> 'm any \<Rightarrow> (go_error option \<times> 'm any) outcome" where
  "example_Call P intercept dispatch ks h ctx service meth req resp =
     (case codec_Marshal P req of
        Inl e \<Rightarrow> Ok (Some e, resp)
      | Inr p \<Rightarrow>
          map_outcome (Call_result P resp)
            (intercept ctx (Call_request ks h ctx None service meth p) empty_response
               \<lparr>uc_FullMethod = fullPath service meth\<rparr> dispatch))"

definition example_unaryCall ::
    "status_lib \<Rightarrow> 'm proto_lib \<Rightarrow> ('c, 'm Unmarshaler, 'm reply outcome) UnaryServerInterceptor \<Rightarrow>
     'c \<Rightarrow> ('c, 'm) MethodFn \<Rightarrow> UnaryServerInfo \<Rightarrow> bytes \<Rightarrow> (bytes \<times> status option) outcome" where
  "example_unaryCall L P intercept ctx method info dat =
     map_outcome (unaryCall_reply L P) (intercept ctx (protoUnmarshal L P dat) info (\<lambda>c u. Ok (method c u)))"

section \<open>The two commands\<close>

text \<open>The handshaker of the platform; \<open>euid\<close> and \<open>egid\<close> are the ids of the process.\<close>

definition defaultHandshaker :: "bool \<Rightarrow> status_lib \<Rightarrow> int \<Rightarrow> int \<Rightarrow> Ucred Handshaker option" where
  "defaultHandshaker linux L euid egid =
     (if linux then Some (UnixCredentialsFunc_Handshake L (UnixSocketRequireSameUser euid egid)) else None)"

datatype example_effect = CloseServer | CloseListener | RemoveSocket

text \<open>
  \<open>server()\<close>: \<open>lst\<close> is the error of \<open>net.Listen\<close>, \<open>sv\<close> what \<open>Serve\<close> returns with the configuration
  and the table of services it is called with. Its result comes with the deferred calls, in the
  order they run.
\<close>

definition example_server ::
    "Ucred Handshaker option \<Rightarrow> (md option \<Rightarrow> go_error option) \<Rightarrow> go_error option \<Rightarrow>
     (('c go_context, 'u, 'r outcome, Ucred) serverConfig \<Rightarrow>
      ((('c go_context, example_message) MethodFn, 's) ServiceDesc, ('c go_context, 'u, 'r outcome) UnaryServerInterceptor,
        'x \<Rightarrow> 'y \<Rightarrow> StreamServerInfo \<Rightarrow> ('x \<Rightarrow> 'y \<Rightarrow> 'z) \<Rightarrow> 'z) serviceSet \<Rightarrow> go_error option outcome) \<Rightarrow>
     (go_error option \<times> example_effect list) outcome" where
  "example_server hsk print lst sv =
     (case NewServer [WithServerHandshaker hsk, WithUnaryServerInterceptor (Some (serverIntercept print))] of
        Inl err \<Rightarrow> Ok (Some err, [])
      | Inr (c, S) \<Rightarrow>
          (case RegisterExampleService exampleServer S of
             Inl _ \<Rightarrow> Panic
           | Inr S' \<Rightarrow>
               (case lst of
                  Some err \<Rightarrow> Ok (Some err, [CloseServer])
                | None \<Rightarrow> map_outcome (\<lambda>err. (err, [CloseListener, RemoveSocket, CloseServer])) (sv c S'))))"

text \<open>
  \<open>client()\<close>: \<open>dial\<close> is the error of \<open>net.Dial\<close>, \<open>dispatch\<close> the \<open>dispatch\<close> of the new client. The
  result is the error and, if the call succeeded, the response printed.
\<close>

definition example_client ::
    "'c go_context \<Rightarrow> heap \<Rightarrow> example_message proto_lib \<Rightarrow> (md option \<Rightarrow> go_error option) \<Rightarrow>
     (Method1Response \<Rightarrow> go_error option) \<Rightarrow> go_error option \<Rightarrow>
     ('c go_context, Request, Response, (go_error option \<times> Response) outcome) Invoker \<Rightarrow> string list \<Rightarrow>
     (go_error option \<times> Method1Response option) outcome" where
  "example_client background h P print print_resp dial dispatch args =
     (case dial of
        Some err \<Rightarrow> Ok (Some err, None)
      | None \<Rightarrow>
          (case c_interceptor (NewClient_config [WithUnaryClientInterceptor (Some (clientIntercept print))]) of
             None \<Rightarrow> Panic
           | Some icpt \<Rightarrow>
               if length args < 4 then Panic
               else (case new_slice h [''koye''] of
                   (h1, vals) \<Rightarrow>
                     (case md_Set (Some Map.empty) ''name'' vals of
                        None \<Rightarrow> Panic
                      | Some m \<Rightarrow>
                          (case exampleClient_Method1
                                  (example_Call P icpt dispatch [''name''] h1 (WithMetadata background m))
                                  \<lparr>rq_Foo = args ! 2, rq_Bar = args ! 3\<rparr> of
                             Panic \<Rightarrow> Panic
                           | Blocks \<Rightarrow> Blocks
                           | Ok (_, Some err) \<Rightarrow> Ok (Some err, None)
                           | Ok (None, None) \<Rightarrow> Ok (None, None)
                           | Ok (Some resp, None) \<Rightarrow> Ok (print_resp resp, Some resp))))))"

text \<open>\<open>handle()\<close> and \<open>main()\<close>: the exit status, 1 for \<open>log.Fatal\<close> and 2 for a panic.\<close>

definition example_handle ::
    "string list \<Rightarrow> go_error option outcome \<Rightarrow> go_error option outcome \<Rightarrow> go_error option outcome" where
  "example_handle args server_cmd client_cmd =
     (if length args < 2 then Panic
      else if args ! 1 = ''server'' then server_cmd
      else if args ! 1 = ''client'' then client_cmd
      else Ok (Some (ErrString ''invalid command'')))"

definition example_main ::
    "string list \<Rightarrow> go_error option outcome \<Rightarrow> go_error option outcome \<Rightarrow> nat outcome" where
  "example_main args server_cmd client_cmd =
     (case example_handle args server_cmd client_cmd of
        Ok (Some err) \<Rightarrow> Ok 1
      | Ok None \<Rightarrow> Ok 0
      | Panic \<Rightarrow> Ok 2
      | Blocks \<Rightarrow> Blocks)"

section \<open>Laws\<close>

text \<open>What protobuf promises of the messages of the service: decoding replaces what was there.\<close>

definition example_codec_ok :: "example_message proto_lib \<Rightarrow> bool" where
  "example_codec_ok P \<longleftrightarrow>
     (\<forall>t x b b' m. pMarshal P t (Some x) = Inr b \<and> bytes_of b' = bytes_of b \<longrightarrow> pUnmarshal P b' t m = (None, Some x))"

lemma example_codecD:
  "example_codec_ok P \<Longrightarrow> pMarshal P t (Some x) = Inr b \<Longrightarrow> bytes_of b' = bytes_of b \<Longrightarrow> pUnmarshal P b' t m = (None, Some x)"
  by (simp add: example_codec_ok_def)

text \<open>The table the server of the example serves.\<close>

definition example_services ::
    "((('c go_context, example_message) MethodFn, 's) ServiceDesc, 'i, 'j) serviceSet \<Rightarrow> bool" where
  "example_services S \<longleftrightarrow> services S =
     [example_service \<mapsto> \<lparr>Methods = [''Method1'' \<mapsto> method1_entry exampleServer, ''Method2'' \<mapsto> method2_entry exampleServer],
                           Streams = Map.empty\<rparr>]"

text \<open>
  The example server serves what it should: with a listener it calls \<open>Serve\<close> with exactly its
  one service, its own interceptor and the handshaker of the platform, and closes the listener,
  the socket and the server when that returns, in this order; without one it only closes the
  server. It never fails to set the server up.
\<close>

theorem example_server_setup:
  "(\<exists>c S. interceptor c = Some (serverIntercept print) \<and> serve_handshaker c = (case hsk of None \<Rightarrow> noopHandshake | Some h \<Rightarrow> h) \<and>
     example_services S \<and>
     (\<forall>sv. example_server hsk print None sv =
        map_outcome (\<lambda>err. (err, [CloseListener, RemoveSocket, CloseServer])) (sv c S))) \<and>
   (\<forall>e sv. example_server hsk print (Some e) sv = Ok (Some e, [CloseServer]))"
proof -
  let ?c = "\<lparr>handshaker = hsk, interceptor = Some (serverIntercept print)\<rparr>"
  let ?S = "(newServiceSet (serverIntercept print))\<lparr>services := [example_service \<mapsto> \<lparr>Methods = [''Method1'' \<mapsto> method1_entry exampleServer, ''Method2'' \<mapsto> method2_entry exampleServer],
                           Streams = Map.empty\<rparr>]\<rparr>"
  have n: "NewServer [WithServerHandshaker hsk, WithUnaryServerInterceptor (Some (serverIntercept print))] =
      Inr (?c, newServiceSet (serverIntercept print))"
    by (simp add: NewServer_def NewServer_config_def emptyConfig_def WithServerHandshaker_def WithUnaryServerInterceptor_def)
  have r: "RegisterExampleService exampleServer (newServiceSet (serverIntercept print)) = Inr ?S"
    by (simp add: RegisterExampleService_def RegisterService_def register_def newServiceSet_def)
  have "\<forall>sv. example_server hsk print None sv =
        map_outcome (\<lambda>err. (err, [CloseListener, RemoveSocket, CloseServer])) (sv ?c ?S)"
    and "\<forall>e sv. example_server hsk print (Some e) sv = Ok (Some e, [CloseServer])"
    by (simp_all add: example_server_def n r)
  moreover have "example_services ?S" by (simp add: example_services_def)
  moreover have "serve_handshaker ?c = (case hsk of None \<Rightarrow> noopHandshake | Some h \<Rightarrow> h)" by (simp add: serve_handshaker_def)
  ultimately show ?thesis by (intro conjI exI [of _ ?c] exI [of _ ?S]) simp_all
qed

text \<open>The metadata of the client: one key with one value.\<close>

definition example_kvs :: "KeyValue list" where
  "example_kvs = [\<lparr>Key = ''name'', Value = ''koye''\<rparr>]"

lemma example_metadata:
  "new_slice h [''koye''] = (h @ [[''koye'']], Some \<lparr>base = length h, off = 0, len = 1, cap = 1\<rparr>)"
  "md_Set (Some Map.empty) ''name'' (Some \<lparr>base = length h, off = 0, len = 1, cap = 1\<rparr>) =
     Some (Some [''name'' \<mapsto> Some \<lparr>base = length h, off = 0, len = 1, cap = 1\<rparr>])"
  "md_setRequest [''name''] (h @ [[''koye'']]) [''name'' \<mapsto> Some \<lparr>base = length h, off = 0, len = 1, cap = 1\<rparr>] [] = example_kvs"
  by (simp_all add: new_slice_def md_Set_def slen_def read_slice_def example_kvs_def ToLower_def lower_char_def)

lemma request_context_example:
  assumes "req_Metadata r = example_kvs" "getRequestContext extra h ctx r = (h', ctx', fin)"
  shows "\<exists>m. ctx' = WithMetadata ctx (Some m) \<and> md_abs h' m = [''name'' \<mapsto> [''koye'']] \<and>
    GetMetadataValue h' ctx' ''name'' = (''koye'', True)"
proof -
  have "append_slice extra h None [''koye''] = (h @ [[''koye''] @ replicate extra ''''], Some \<lparr>base = length h, off = 0, len = 1, cap = 1 + extra\<rparr>)"
    by (simp add: append_slice_def)
  with assms obtain m where m: "m = [''name'' \<mapsto> Some \<lparr>base = length h, off = 0, len = 1, cap = 1 + extra\<rparr>]"
    "h' = h @ [[''koye''] @ replicate extra '''']" "ctx' = WithMetadata ctx (Some m)"
    by (auto simp: getRequestContext_def example_kvs_def split: if_splits)
  have "md_abs h' m = [''name'' \<mapsto> [''koye'']]" by (auto simp: md_abs_def m read_slice_def)
  moreover have "GetMetadataValue h' ctx' ''name'' = (''koye'', True)"
    by (simp add: GetMetadataValue_def GetMetadata_def m WithMetadata_def md_Get_def slen_def read_slice_def ToLower_def lower_char_def)
  ultimately show ?thesis using m(3) by blast
qed

lemma dumpMetadata_with: "dumpMetadata print (WithMetadata ctx m) = (if print m = None then Ok () else Panic)"
  by (simp add: dumpMetadata_def GetMetadata_def WithMetadata_def split: option.split)

text \<open>The call on the server: the interceptor finds the metadata, the method answers.\<close>

lemma example_call_served:
  assumes codec: "example_codec_ok P" and ok: "\<And>m. print m = None"
    and b: "pMarshal P request_type (Some (Request1 r)) = Inr b" "bytes_of b' = bytes_of b"
    and b2: "pMarshal P response_type (Some (Response1 \<lparr>rp_Foo = rq_Foo r, rp_Bar = rq_Bar r\<rparr>)) = Inr b2"
    and ctx: "snd (GetMetadata ctx)"
  shows "example_unaryCall L P (serverIntercept print) ctx (method1_entry exampleServer) info b' = Ok (b2, error_status L None)"
proof -
  have u: "protoUnmarshal L P b' (ProtoMsg request_type (Some zero_request)) = (None, ProtoMsg request_type (Some (Request1 r)))"
    using example_codecD [OF codec b] by (simp add: protoUnmarshal_def)
  have "method1_entry exampleServer ctx (protoUnmarshal L P b') =
      (ProtoMsg response_type (Some (Response1 \<lparr>rp_Foo = rq_Foo r, rp_Bar = rq_Bar r\<rparr>)), None)"
    by (simp add: method1_entry_def u exampleServer_def request_in_def)
  moreover obtain m where "GetMetadata ctx = (m, True)" using ctx by (cases "GetMetadata ctx") simp
  ultimately show ?thesis
    by (simp add: example_unaryCall_def serverIntercept_def dumpMetadata_def ok unaryCall_reply_def isNil_def protoMarshal_def b2)
qed

text \<open>
  C38: The example client gets its answer. Run with two words against the example server over a
  connection that delivers the frames, the client's one call returns a response with exactly those
  words, which it prints; on the way neither interceptor panics, and the method's context has the
  client's metadata: the value of \<open>name\<close> there is \<open>koye\<close>.
\<close>

theorem example_client_answered:
  assumes "status_lib_ok L" "proto_ok P" "example_codec_ok P" "\<And>m. print m = None" "example_services S"
    and "length args = 4"
    and "pMarshal P request_type (Some (Request1 \<lparr>rq_Foo = args ! 2, rq_Bar = args ! 3\<rparr>)) = Inr b"
    and "r = \<lparr>Service = example_service, req_Method = ''Method1'', Payload = b, TimeoutNano = 0, req_Metadata = example_kvs\<rparr>"
    and "mRequest P r = Inr rb"
    and "pMarshal P response_type (Some (Response1 \<lparr>rp_Foo = args ! 2, rp_Bar = args ! 3\<rparr>)) = Inr b2"
    and "mResponse P \<lparr>rs_status = error_status L None, rs_payload = b2\<rparr> = Inr fb" "length (bytes_of fb) \<le> messageLengthMax"
  shows "example_client \<lparr>md_value = None, ctx_rest = cr\<rparr> h P print print_resp None
      (\<lambda>c q a. wire_call L P (example_unaryCall L P (serverIntercept print)) extra sh S \<lparr>md_value = None, ctx_rest = sr\<rparr> i q a) args =
    Ok (print_resp \<lparr>rp_Foo = args ! 2, rp_Bar = args ! 3\<rparr>, Some \<lparr>rp_Foo = args ! 2, rp_Bar = args ! 3\<rparr>) \<and>
    (\<forall>h' ctx' fin. getRequestContext extra sh \<lparr>md_value = None, ctx_rest = sr\<rparr> (r\<lparr>Payload := norm_bytes b\<rparr>) = (h', ctx', fin) \<longrightarrow>
       GetMetadataValue h' ctx' ''name'' = (''koye'', True))"
proof -
  let ?bg = "\<lparr>md_value = None, ctx_rest = sr\<rparr>" and ?q = "\<lparr>rq_Foo = args ! 2, rq_Bar = args ! 3\<rparr>"
  let ?p = "\<lparr>rp_Foo = args ! 2, rp_Bar = args ! 3\<rparr>"
  let ?call = "example_unaryCall L P (serverIntercept print)"
  obtain h' ctx' fin where g: "getRequestContext extra sh ?bg (r\<lparr>Payload := norm_bytes b\<rparr>) = (h', ctx', fin)"
    by (cases "getRequestContext extra sh ?bg (r\<lparr>Payload := norm_bytes b\<rparr>)")
  have "req_Metadata (r\<lparr>Payload := norm_bytes b\<rparr>) = example_kvs" by (simp add: assms(8))
  from request_context_example [OF this g] obtain m where m: "ctx' = WithMetadata ?bg (Some m)"
    "GetMetadataValue h' ctx' ''name'' = (''koye'', True)" by blast
  have c: "?call ctx' (method1_entry exampleServer) \<lparr>us_FullMethod = fullPath (Service r) (req_Method r)\<rparr>
      (norm_bytes (Payload r)) = Ok (b2, error_status L None)"
    by (rule example_call_served [where b = b and r = ?q]) (use assms in \<open>simp_all add: m(1) WithMetadata_def GetMetadata_def\<close>)
  have g': "getRequestContext extra sh ?bg (r\<lparr>Payload := norm_bytes (Payload r)\<rparr>) = (h', ctx', fin)"
    using g assms(8) by simp
  have srv: "services S (Service r) = Some \<lparr>Methods = [''Method1'' \<mapsto> method1_entry exampleServer, ''Method2'' \<mapsto> method2_entry exampleServer], Streams = Map.empty\<rparr>"
    using assms(5) by (simp add: example_services_def assms(8))
  have w: "wire_call L P ?call extra sh S ?bg i r empty_response = Ok (None, \<lparr>rs_status = error_status L None, rs_payload = norm_bytes b2\<rparr>)"
    by (rule wire_call_unary [where call = ?call and ctx' = ctx', OF assms(2,9) srv _ g' c assms(11,12)]) (simp add: assms(8))
  have st: "response_failed \<lparr>rs_status = error_status L None, rs_payload = norm_bytes b2\<rparr> = None"
    using error_status_OK_iff [OF assms(1), of None] by (auto simp: response_failed_def split: option.split)
  have u: "codec_Unmarshal P (norm_bytes b2) (ProtoMsg response_type (Some zero_response)) = (None, ProtoMsg response_type (Some (Response1 ?p)))"
    using example_codecD [OF assms(3,10)] by (simp add: codec_Unmarshal_def)
  have ma: "codec_Marshal P (ProtoMsg request_type (Some (Request1 ?q))) = Inr b" using assms(7) by (simp add: codec_Marshal_def)
  have ic: "c_interceptor (NewClient_config [WithUnaryClientInterceptor (Some (clientIntercept print))]) = Some (clientIntercept print)"
    by (simp add: NewClient_config_def WithUnaryClientInterceptor_def)
  have q: "Call_request [''name''] (h @ [[''koye'']])
      (WithMetadata \<lparr>md_value = None, ctx_rest = cr\<rparr> (Some [''name'' \<mapsto> Some \<lparr>base = length h, off = 0, len = 1, cap = 1\<rparr>]))
      None example_service ''Method1'' b = r"
    by (simp add: Call_request_def GetMetadata_def WithMetadata_def example_metadata(3) assms(8) example_kvs_def [symmetric]
        del: md_setRequest.simps One_nat_def)
  have "example_Call P (clientIntercept print) (\<lambda>c q a. wire_call L P ?call extra sh S ?bg i q a) [''name''] (h @ [[''koye'']])
      (WithMetadata \<lparr>md_value = None, ctx_rest = cr\<rparr> (Some [''name'' \<mapsto> Some \<lparr>base = length h, off = 0, len = 1, cap = 1\<rparr>]))
      example_service ''Method1'' (ProtoMsg request_type (Some (Request1 ?q))) (ProtoMsg response_type (Some zero_response)) =
    Ok (None, ProtoMsg response_type (Some (Response1 ?p)))"
    by (simp add: example_Call_def ma q w clientIntercept_def dumpMetadata_with assms(4)
        Call_result_def u st del: One_nat_def)
  then have "example_client \<lparr>md_value = None, ctx_rest = cr\<rparr> h P print print_resp None
      (\<lambda>c q a. wire_call L P ?call extra sh S ?bg i q a) args = Ok (print_resp ?p, Some ?p)"
    by (simp add: example_client_def ic assms(6) example_metadata exampleClient_Method1_def response_in_def del: One_nat_def)
  with g m(2) show ?thesis by simp
qed

text \<open>A library that encodes the two messages of one exchange.\<close>

definition example_wire_proto :: "example_message proto_lib" where
  "example_wire_proto =
     \<lparr>pMarshal = (\<lambda>t m. if m = Some (Request1 \<lparr>rq_Foo = ''a'', rq_Bar = ''b''\<rparr>) then Inr (Some [1])
        else if m = Some (Response1 \<lparr>rp_Foo = ''a'', rp_Bar = ''b''\<rparr>) then Inr (Some [2]) else Inl (ErrString ''too much'')),
      pUnmarshal = (\<lambda>p t m. (None, Some (if bytes_of p = [1] then Request1 \<lparr>rq_Foo = ''a'', rq_Bar = ''b''\<rparr>
        else Response1 \<lparr>rp_Foo = ''a'', rp_Bar = ''b''\<rparr>))),
      mRequest = (\<lambda>r. if Service r = example_service \<and> req_Method r = ''Method1'' \<and> Payload r = Some [1] \<and> TimeoutNano r = 0 \<and>
          (req_Metadata r = example_kvs \<or> req_Metadata r = [])
        then Inr (Some (if req_Metadata r = [] then [4] else [5])) else Inl (ErrString ''too much'')),
      uRequest = (\<lambda>p. Inr \<lparr>Service = example_service, req_Method = ''Method1'', Payload = Some [1], TimeoutNano = 0,
          req_Metadata = (if bytes_of p = [4] then [] else example_kvs)\<rparr>),
      mResponse = (\<lambda>r. if r = \<lparr>rs_status = error_status example_status_lib None, rs_payload = Some [2]\<rparr>
        then Inr (Some [3]) else Inl (ErrString ''too much'')),
      uResponse = (\<lambda>p. Inr \<lparr>rs_status = error_status example_status_lib None, rs_payload = Some [2]\<rparr>)\<rparr>"

lemma example_wire_proto_ok: "proto_ok example_wire_proto" "example_codec_ok example_wire_proto"
  by (auto simp: proto_ok_def example_codec_ok_def example_wire_proto_def example_kvs_def split: if_splits)

definition example_table ::
    "(((unit go_context, example_message) MethodFn, nat Stream) ServiceDesc, unit, unit) serviceSet" where
  "example_table = \<lparr>services =
     [example_service \<mapsto> \<lparr>Methods = [''Method1'' \<mapsto> method1_entry exampleServer, ''Method2'' \<mapsto> method2_entry exampleServer],
                           Streams = Map.empty\<rparr>], unaryInterceptor = (), streamInterceptor = ()\<rparr>"

theorem example_client_answered_witness:
  "example_client \<lparr>md_value = None, ctx_rest = ()\<rparr> [] example_wire_proto (\<lambda>m. None) (\<lambda>r. None) None
     (\<lambda>c q a. wire_call example_status_lib example_wire_proto
        (example_unaryCall example_status_lib example_wire_proto (serverIntercept (\<lambda>m. None))) 0 [] example_table
        \<lparr>md_value = None, ctx_rest = ()\<rparr> 1 q a)
     [''example'', ''client'', ''a'', ''b''] =
   Ok (None, Some \<lparr>rp_Foo = ''a'', rp_Bar = ''b''\<rparr>)"
proof -
  let ?args = "[''example'', ''client'', ''a'', ''b''] :: string list" and ?P = example_wire_proto
  let ?r = "\<lparr>Service = example_service, req_Method = ''Method1'', Payload = Some [1], TimeoutNano = 0, req_Metadata = example_kvs\<rparr>"
  have b: "pMarshal ?P request_type (Some (Request1 \<lparr>rq_Foo = ?args ! 2, rq_Bar = ?args ! 3\<rparr>)) = Inr (Some [1])"
    "mRequest ?P ?r = Inr (Some [5])"
    "pMarshal ?P response_type (Some (Response1 \<lparr>rp_Foo = ?args ! 2, rp_Bar = ?args ! 3\<rparr>)) = Inr (Some [2])"
    "mResponse ?P \<lparr>rs_status = error_status example_status_lib None, rs_payload = Some [2]\<rparr> = Inr (Some [3])"
    by (simp_all add: example_wire_proto_def example_kvs_def)
  have l: "length (bytes_of (Some [3])) \<le> messageLengthMax" by (simp add: messageLengthMax_def)
  have S: "example_services example_table" by (simp add: example_services_def example_table_def)
  from example_client_answered [where print = "\<lambda>m. None" and print_resp = "\<lambda>r. None" and args = ?args and h = "[]" and cr = "()" and sr = "()"
      and sh = "[]" and extra = 0 and i = 1,
      OF example_status_lib_ok example_wire_proto_ok refl S _ b(1) refl b(2-4) l]
  show ?thesis by simp
qed

lemma map_outcome_Panic: "map_outcome f x = Panic \<longleftrightarrow> x = Panic"
  by (cases x) simp_all

text \<open>
  C39: The example server needs the metadata. A request for one of its methods ends the server
  process, by the panic in its interceptor, exactly when it carries no metadata, whatever else it
  says and whoever sent it.
\<close>

theorem example_server_panics:
  assumes "proto_ok P" "example_services S" "\<And>m. print m = None" "mRequest P r = Inr rb"
    and "Service r = example_service" "req_Method r = ''Method1'' \<or> req_Method r = ''Method2''"
  shows "wire_call L P (example_unaryCall L P (serverIntercept print)) extra h S \<lparr>md_value = None, ctx_rest = sr\<rparr> i r resp = Panic
    \<longleftrightarrow> req_Metadata r = []"
proof -
  let ?r = "r\<lparr>Payload := norm_bytes (Payload r)\<rparr>"
  obtain h' ctx' fin where g: "getRequestContext extra h \<lparr>md_value = None, ctx_rest = sr\<rparr> ?r = (h', ctx', fin)"
    by (cases "getRequestContext extra h \<lparr>md_value = None, ctx_rest = sr\<rparr> ?r")
  then have md: "snd (GetMetadata ctx') \<longleftrightarrow> req_Metadata r \<noteq> []"
    by (auto simp: getRequestContext_def GetMetadata_def WithMetadata_def split: if_splits prod.splits)
  have panic: "example_unaryCall L P (serverIntercept print) ctx' m info dat = Panic \<longleftrightarrow> \<not> snd (GetMetadata ctx')" for m info dat
    by (cases "GetMetadata ctx'") (simp add: example_unaryCall_def serverIntercept_def dumpMetadata_def assms(3))
  from assms(5,6) show ?thesis
    by (auto simp: wire_call_def assms(4) proto_request [OF assms(1,4)] handle_def assms(2) [unfolded example_services_def] g
        map_outcome_Panic panic md)
qed

theorem example_server_panics_witness:
  "wire_call example_status_lib example_wire_proto
     (example_unaryCall example_status_lib example_wire_proto (serverIntercept (\<lambda>m. None))) 0 [] example_table
     \<lparr>md_value = None, ctx_rest = ()\<rparr> 1
     \<lparr>Service = example_service, req_Method = ''Method1'', Payload = Some [1], TimeoutNano = 0, req_Metadata = []\<rparr> empty_response = Panic"
proof -
  have S: "example_services example_table" by (simp add: example_services_def example_table_def)
  have "mRequest example_wire_proto
     \<lparr>Service = example_service, req_Method = ''Method1'', Payload = Some [1], TimeoutNano = 0, req_Metadata = []\<rparr> = Inr (Some [4])"
    by (simp add: example_wire_proto_def)
  from example_server_panics [OF example_wire_proto_ok(1) S refl this] show ?thesis by simp
qed

end
