(* ===== verification/Generator.thy ===== *)
theory Generator
  imports Metadata "HOL-Library.Sublist"
begin

text \<open>
  The code generator (\<open>src/cmd/protoc-gen-go-ttrpc/generator.go\<close> and \<open>main.go\<close>). Its input are the
  descriptors of \<open>protogen\<close>, as records with the fields the generator reads; its output is the list
  of the lines it prints. \<open>QualifiedGoIdent\<close>, which chooses the package names of the output file,
  is the parameter \<open>Q\<close>; printing an identifier with \<open>P\<close> applies it too.
\<close>

section \<open>Descriptors\<close>

record GoIdent =
  GoImportPath :: string
  GoName :: string

text \<open>A method: its Go name, its name in the descriptor, its kind, and its message types.\<close>

record method_desc =
  m_GoName :: string
  m_Name :: string
  IsStreamingClient :: bool
  IsStreamingServer :: bool
  Input :: GoIdent
  Output :: GoIdent

record service_desc =
  sv_GoName :: string
  FullName :: string
  sv_Methods :: "method_desc list"

record file_desc =
  f_Services :: "service_desc list"
  GeneratedFilenamePrefix :: string
  f_Path :: string
  GoPackageName :: string
  f_Generate :: bool

text \<open>A string between double quotes; strings follow one another in a printed line.\<close>

definition quoted :: "string \<Rightarrow> string" where
  "quoted s = [CHR 0x22] @ s @ [CHR 0x22]"

definition is_stream :: "method_desc \<Rightarrow> bool" where
  "is_stream m \<longleftrightarrow> IsStreamingClient m \<or> IsStreamingServer m"

section \<open>The identifiers of the runtime\<close>

definition ttrpc_ident :: "string \<Rightarrow> GoIdent" where
  "ttrpc_ident n = \<lparr>GoImportPath = ''github.com/containerd/ttrpc'', GoName = n\<rparr>"

record gen_ident =
  i_context :: string
  i_server :: string
  i_client :: string
  i_method :: string
  i_stream :: string
  i_serviceDesc :: string
  i_streamDesc :: string
  i_streamClientIdent :: GoIdent
  i_streamServer :: string
  i_streamClient :: string

definition newGenerator :: "(GoIdent \<Rightarrow> string) \<Rightarrow> gen_ident" where
  "newGenerator Q =
     \<lparr>i_context = Q \<lparr>GoImportPath = ''context'', GoName = ''Context''\<rparr>,
      i_server = Q (ttrpc_ident ''Server''), i_client = Q (ttrpc_ident ''Client''),
      i_method = Q (ttrpc_ident ''Method''), i_stream = Q (ttrpc_ident ''Stream''),
      i_serviceDesc = Q (ttrpc_ident ''ServiceDesc''), i_streamDesc = Q (ttrpc_ident ''StreamDesc''),
      i_streamClientIdent = ttrpc_ident ''ClientStream'',
      i_streamServer = Q (ttrpc_ident ''StreamServer''), i_streamClient = Q (ttrpc_ident ''ClientStream'')\<rparr>"

section \<open>The parts of a service\<close>

text \<open>The interface of the service: one line for each method.\<close>

definition service_method_line :: "(GoIdent \<Rightarrow> string) \<Rightarrow> gen_ident \<Rightarrow> string \<Rightarrow> method_desc \<Rightarrow> string" where
  "service_method_line Q g svc m =
     (let (sendArgs, retArgs) =
        (if is_stream m
         then (let a = svc @ ''_'' @ m_GoName m @ ''Server''
               in ((if \<not> IsStreamingClient m then ''*'' @ Q (Input m) @ '', '' @ a else a),
                   (if IsStreamingServer m then ''error'' else ''(*'' @ Q (Output m) @ '', error)'')))
         else (''*'' @ Q (Input m), ''(*'' @ Q (Output m) @ '', error)''))
      in m_GoName m @ ''('' @ i_context g @ '', '' @ sendArgs @ '') '' @ retArgs)"

definition service_interface :: "(GoIdent \<Rightarrow> string) \<Rightarrow> gen_ident \<Rightarrow> service_desc \<Rightarrow> string list" where
  "service_interface Q g s =
     [''type '' @ sv_GoName s @ ''Service'' @ '' interface{''] @
     map (service_method_line Q g (sv_GoName s)) (sv_Methods s) @
     [''}'', '''']"

text \<open>The server's end of a stream.\<close>

definition server_struct :: "string \<Rightarrow> method_desc \<Rightarrow> string" where
  "server_struct svc m = ToLower svc @ m_GoName m @ ''Server''"

definition server_stream_types :: "(GoIdent \<Rightarrow> string) \<Rightarrow> gen_ident \<Rightarrow> string \<Rightarrow> method_desc \<Rightarrow> string list" where
  "server_stream_types Q g svc m =
     (let st = server_struct svc m in
      [''type '' @ svc @ ''_'' @ m_GoName m @ ''Server interface {''] @
      (if IsStreamingServer m then [''Send(*'' @ Q (Output m) @ '') error''] else []) @
      (if IsStreamingClient m then [''Recv() (*'' @ Q (Input m) @ '', error)''] else []) @
      [i_streamServer g, ''}'', '''',
       ''type '' @ st @ '' struct {'', i_streamServer g, ''}'', ''''] @
      (if IsStreamingServer m
       then [''func (x *'' @ st @ '') Send(m *'' @ Q (Output m) @ '') error {'',
             ''return x.StreamServer.SendMsg(m)'', ''}'', ''''] else []) @
      (if IsStreamingClient m
       then [''func (x *'' @ st @ '') Recv() (*'' @ Q (Input m) @ '', error) {'',
             ''m := new('' @ Q (Input m) @ '')'',
             ''if err := x.StreamServer.RecvMsg(m); err != nil {'', ''return nil, err'', ''}'',
             ''return m, nil'', ''}'', ''''] else []))"

text \<open>The registration function, with one entry for each method.\<close>

definition method_entry :: "(GoIdent \<Rightarrow> string) \<Rightarrow> gen_ident \<Rightarrow> method_desc \<Rightarrow> string list" where
  "method_entry Q g m =
     [quoted (m_GoName m) @ '': func(ctx '' @ i_context g @ '', unmarshal func(interface{}) error)(interface{}, error){'',
      ''var req '' @ Q (Input m), ''if err := unmarshal(&req); err != nil {'', ''return nil, err'', ''}'',
      ''return svc.'' @ m_GoName m @ ''(ctx, &req)'', ''},'']"

definition bool_line :: "string \<Rightarrow> bool \<Rightarrow> string" where
  "bool_line field b = field @ '': '' @ (if b then ''true'' else ''false'') @ '',''"

definition stream_entry :: "(GoIdent \<Rightarrow> string) \<Rightarrow> gen_ident \<Rightarrow> string \<Rightarrow> method_desc \<Rightarrow> string list" where
  "stream_entry Q g svc m =
     (let sendArg = (if \<not> IsStreamingClient m then ''m, '' else '''');
          call = ''svc.'' @ m_GoName m @ ''(ctx, '' @ sendArg @ ''&'' @ server_struct svc m @ ''{stream})''
      in [quoted (m_GoName m) @ '': {'',
          ''Handler: func(ctx '' @ i_context g @ '', stream '' @ i_streamServer g @ '') (interface{}, error) {''] @
         (if \<not> IsStreamingClient m
          then [''m := new('' @ Q (Input m) @ '')'', ''if err := stream.RecvMsg(m); err != nil {'', ''return nil, err'', ''}'']
          else []) @
         [(if IsStreamingServer m then ''return nil, '' else ''return '') @ call,
          ''},'',
          bool_line ''StreamingClient'' (IsStreamingClient m),
          bool_line ''StreamingServer'' (IsStreamingServer m),
          ''},''])"

definition registration :: "(GoIdent \<Rightarrow> string) \<Rightarrow> gen_ident \<Rightarrow> service_desc \<Rightarrow> string list" where
  "registration Q g s =
     (let methods = filter (\<lambda>m. \<not> is_stream m) (sv_Methods s);
          streams = filter is_stream (sv_Methods s);
          serviceName = sv_GoName s @ ''Service''
      in [''func Register'' @ serviceName @ ''(srv *'' @ i_server g @ '', svc '' @ serviceName @ ''){'',
          ''srv.RegisterService('' @ quoted (FullName s) @ '', &'' @ i_serviceDesc g @ ''{''] @
         (if methods \<noteq> []
          then [''Methods: map[string]'' @ i_method g @ ''{''] @ concat (map (method_entry Q g) methods) @ [''},''] else []) @
         (if streams \<noteq> []
          then [''Streams: map[string]'' @ i_stream g @ ''{''] @ concat (map (stream_entry Q g (sv_GoName s)) streams) @ [''},'']
          else []) @
         [''})'', ''}'', ''''])"

text \<open>The client: its interface (only with streams), its struct, and its methods.\<close>

definition client_interface_line :: "(GoIdent \<Rightarrow> string) \<Rightarrow> gen_ident \<Rightarrow> string \<Rightarrow> method_desc \<Rightarrow> string" where
  "client_interface_line Q g svc m =
     (if is_stream m
      then m_GoName m @ ''('' @ i_context g @ '', '' @
        (if \<not> IsStreamingClient m then ''*'' @ Q (Input m) @ '', '' else '''') @
        '') ('' @ svc @ ''_'' @ m_GoName m @ ''Client, error)''
      else m_GoName m @ ''('' @ i_context g @ '', '' @ ''*'' @ Q (Input m) @ '')'' @ ''(*'' @ Q (Output m) @ '', error)'')"

definition client_types :: "(GoIdent \<Rightarrow> string) \<Rightarrow> gen_ident \<Rightarrow> service_desc \<Rightarrow> string list" where
  "client_types Q g s =
     (let clientType = sv_GoName s @ ''Client'';
          streaming = (filter is_stream (sv_Methods s) \<noteq> []);
          clientInterface = (if streaming then clientType else sv_GoName s @ ''Service'');
          clientStructType = ToLower (sv_GoName s) @ ''Client''
      in (if streaming
          then [''type '' @ clientInterface @ '' interface{''] @ map (client_interface_line Q g (sv_GoName s)) (sv_Methods s) @ [''}'', '''']
          else []) @
         [''type '' @ clientStructType @ '' struct{'', ''client *'' @ i_client g, ''}'',
          ''func New'' @ clientType @ ''(client *'' @ i_client g @ '')'' @ clientInterface @ ''{'',
          ''return &'' @ clientStructType @ ''{'', ''client:client,'', ''}'', ''}'', ''''])"

definition client_stream_method ::
    "(GoIdent \<Rightarrow> string) \<Rightarrow> gen_ident \<Rightarrow> string \<Rightarrow> string \<Rightarrow> method_desc \<Rightarrow> string list" where
  "client_stream_method Q g svc fullName m =
     (let intName = svc @ ''_'' @ m_GoName m @ ''Client'';
          structName = ToLower svc @ m_GoName m @ ''Client''
      in [''stream, err := c.client.NewStream(ctx, &'' @ i_streamDesc g @ ''{'',
          bool_line ''StreamingClient'' (IsStreamingClient m),
          bool_line ''StreamingServer'' (IsStreamingServer m),
          ''}, '' @ quoted fullName @ '', '' @ quoted (m_GoName m) @ '', '' @ (if IsStreamingClient m then ''nil'' else ''req'') @ '')'',
          ''if err != nil {'', ''return nil, err'', ''}'',
          ''x := &'' @ structName @ ''{stream}'', ''return x, nil'', ''}'', '''',
          ''type '' @ intName @ '' interface {''] @
         (if IsStreamingClient m then [''Send(*'' @ Q (Input m) @ '') error''] else []) @
         [(if IsStreamingServer m then ''Recv() (*'' else ''CloseAndRecv() (*'') @ Q (Output m) @ '', error)'',
          i_streamClient g, ''}'', '''',
          ''type '' @ structName @ '' struct {'', i_streamClient g, ''}'', ''''] @
         (if IsStreamingClient m
          then [''func (x *'' @ structName @ '') Send(m *'' @ Q (Input m) @ '') error {'',
                ''return x.'' @ GoName (i_streamClientIdent g) @ ''.SendMsg(m)'', ''}'', ''''] else []) @
         (if IsStreamingServer m
          then [''func (x *'' @ structName @ '') Recv() (*'' @ Q (Output m) @ '', error) {'']
          else [''func (x *'' @ structName @ '') CloseAndRecv() (*'' @ Q (Output m) @ '', error) {'',
                ''if err := x.ClientStream.CloseSend(); err != nil {'', ''return nil, err'', ''}'']) @
         [''m := new('' @ Q (Output m) @ '')'',
          ''if err := x.ClientStream.RecvMsg(m); err != nil {'', ''return nil, err'', ''}'',
          ''return m, nil'', ''}'', ''''])"

definition client_method :: "(GoIdent \<Rightarrow> string) \<Rightarrow> gen_ident \<Rightarrow> string \<Rightarrow> string \<Rightarrow> method_desc \<Rightarrow> string list" where
  "client_method Q g svc fullName m =
     (let sendArg = (if \<not> IsStreamingClient m then '', req *'' @ Q (Input m) else '''');
          retArg = (if is_stream m then svc @ ''_'' @ m_GoName m @ ''Client'' else ''*'' @ Q (Output m))
      in [''func (c *'' @ ToLower svc @ ''Client'' @ '') '' @ m_GoName m @ ''(ctx '' @ i_context g @ '''' @ sendArg @ '') '' @
          ''('' @ retArg @ '', error) {''] @
         (if is_stream m then client_stream_method Q g svc fullName m
          else [''var resp '' @ Q (Output m),
                ''if err := c.client.Call(ctx, '' @ quoted fullName @ '', '' @ quoted (m_Name m) @ '', req, &resp); err != nil {'',
                ''return nil, err'', ''}'', ''return &resp, nil'', ''}'', '''']))"

definition genService :: "(GoIdent \<Rightarrow> string) \<Rightarrow> gen_ident \<Rightarrow> service_desc \<Rightarrow> string list" where
  "genService Q g s =
     service_interface Q g s @
     concat (map (server_stream_types Q g (sv_GoName s)) (filter is_stream (sv_Methods s))) @
     registration Q g s @
     client_types Q g s @
     concat (map (client_method Q g (sv_GoName s) (FullName s)) (sv_Methods s))"

section \<open>Files\<close>

definition file_header :: "file_desc \<Rightarrow> string list" where
  "file_header f = [''// Code generated by protoc-gen-go-ttrpc. DO NOT EDIT.'', ''// source: '' @ f_Path f, ''package '' @ GoPackageName f]"

text \<open>The generated file, with its name, or none.\<close>

definition generate :: "(GoIdent \<Rightarrow> string) \<Rightarrow> file_desc \<Rightarrow> string \<Rightarrow> (string \<times> string list) option" where
  "generate Q f servicePrefix =
     (if f_Services f = [] then None
      else Some (GeneratedFilenamePrefix f @ ''_ttrpc.pb.go'',
        file_header f @
        concat (map (\<lambda>s. genService Q (newGenerator Q) (s\<lparr>sv_GoName := servicePrefix @ sv_GoName s\<rparr>)) (f_Services f))))"

text \<open>\<open>main\<close>: the parameters of the plugin, and one file after the other.\<close>

definition param_prefix :: "(string \<times> string) list \<Rightarrow> string" where
  "param_prefix ps = foldl (\<lambda>pre (n, v). if n = ''prefix'' then v else pre) '''' ps"

definition plugin_main :: "(file_desc \<Rightarrow> GoIdent \<Rightarrow> string) \<Rightarrow> (string \<times> string) list \<Rightarrow> file_desc list \<Rightarrow> (string \<times> string list) list" where
  "plugin_main Q ps fs =
     concat (map (\<lambda>f. if \<not> f_Generate f then []
        else (case generate (Q f) f (param_prefix ps) of None \<Rightarrow> [] | Some out \<Rightarrow> [out])) fs)"

section \<open>Blocks of the output\<close>

text \<open>
  Reading output at a depth of open braces: the depth at its end, or none when a brace is closed
  that was not opened.
\<close>

fun nest :: "nat \<Rightarrow> string \<Rightarrow> nat option" where
  "nest d [] = Some d"
| "nest d (c # cs) =
     (if c = CHR ''{'' then nest (Suc d) cs
      else if c = CHR ''}'' then (case d of 0 \<Rightarrow> None | Suc d' \<Rightarrow> nest d' cs)
      else nest d cs)"

text \<open>A name without braces.\<close>

definition plain :: "string \<Rightarrow> bool" where
  "plain n \<longleftrightarrow> CHR ''{'' \<notin> set n \<and> CHR ''}'' \<notin> set n"

lemma nest_plain: "plain n \<Longrightarrow> nest d (n @ cs) = nest d cs"
  by (induction n) (auto simp: plain_def)

lemma nest_append: "nest d (xs @ ys) = (case nest d xs of None \<Rightarrow> None | Some d' \<Rightarrow> nest d' ys)"
  by (induction d xs rule: nest.induct) (auto split: nat.split)

lemma nest_plain_end: "plain n \<Longrightarrow> nest d n = Some d"
  using nest_plain [of n d "[]"] by simp

text \<open>A block: it opens what it closes, at any depth.\<close>

definition block :: "string list \<Rightarrow> bool" where
  "block ls \<longleftrightarrow> (\<forall>d. nest d (concat ls) = Some d)"

lemma block_append [intro]: "block xs \<Longrightarrow> block ys \<Longrightarrow> block (xs @ ys)"
  by (simp add: block_def nest_append)

lemma block_Nil [simp]: "block []"
  by (simp add: block_def)

lemma block_concat [intro]: "(\<And>x. x \<in> set xs \<Longrightarrow> block (f x)) \<Longrightarrow> block (concat (map f xs))"
  by (induction xs) auto

lemma block_map [intro]: "(\<And>x. x \<in> set xs \<Longrightarrow> block [f x]) \<Longrightarrow> block (map f xs)"
proof (induction xs)
  case (Cons x xs)
  then have "block ([f x] @ map f xs)" by (intro block_append) auto
  then show ?case by simp
qed simp

text \<open>A block between a line that opens and a line that closes.\<close>

lemma nest_block: "block ls \<Longrightarrow> nest d (concat ls @ cs) = nest d cs"
  by (simp add: block_def nest_append)

lemma lower_char_brace:
  assumes "lower_char c = x" "122 < (of_char x :: nat)"
  shows "c = x"
proof (cases "65 \<le> (of_char c :: nat) \<and> (of_char c :: nat) \<le> 90")
  case True
  with assms(1) have "x = char_of ((of_char c :: nat) + 32)" by (simp add: lower_char_def)
  then have "(of_char x :: nat) = of_char c + 32" using True by simp
  with True assms(2) show ?thesis by simp
next
  case False
  with assms(1) show ?thesis by (simp add: lower_char_def)
qed

lemma plain_lower [simp]:
  assumes "plain n"
  shows "plain (ToLower n)"
proof -
  have "x \<notin> set (ToLower n)" if "x \<notin> set n" "122 < (of_char x :: nat)" for x
  proof
    assume "x \<in> set (ToLower n)"
    then obtain c where c: "c \<in> set n" "lower_char c = x" by (auto simp: ToLower_def)
    with lower_char_brace [OF c(2) that(2)] that(1) show False by simp
  qed
  from this [of "CHR ''{''"] this [of "CHR ''}''"] assms show ?thesis by (simp add: plain_def)
qed

definition plain_method :: "(GoIdent \<Rightarrow> string) \<Rightarrow> method_desc \<Rightarrow> bool" where
  "plain_method Q m \<longleftrightarrow> plain (m_GoName m) \<and> plain (m_Name m) \<and> plain (Q (Input m)) \<and> plain (Q (Output m))"

definition plain_service :: "(GoIdent \<Rightarrow> string) \<Rightarrow> service_desc \<Rightarrow> bool" where
  "plain_service Q s \<longleftrightarrow> plain (sv_GoName s) \<and> plain (FullName s) \<and> (\<forall>m \<in> set (sv_Methods s). plain_method Q m)"

definition plain_ident :: "gen_ident \<Rightarrow> bool" where
  "plain_ident g \<longleftrightarrow> plain (i_context g) \<and> plain (i_server g) \<and> plain (i_client g) \<and> plain (i_method g) \<and>
     plain (i_stream g) \<and> plain (i_serviceDesc g) \<and> plain (i_streamDesc g) \<and>
     plain (GoName (i_streamClientIdent g)) \<and> plain (i_streamServer g) \<and> plain (i_streamClient g)"

lemmas nest_simps = nest_plain nest_plain_end nest_block quoted_def bool_line_def

lemma method_entry_block: "plain_ident g \<Longrightarrow> plain_method Q m \<Longrightarrow> block (method_entry Q g m)"
  by (simp add: block_def method_entry_def nest_simps plain_ident_def plain_method_def)

lemma stream_entry_block:
  "plain_ident g \<Longrightarrow> plain_method Q m \<Longrightarrow> plain svc \<Longrightarrow> block (stream_entry Q g svc m)"
  by (simp add: block_def stream_entry_def nest_simps plain_ident_def plain_method_def server_struct_def Let_def)

lemma server_stream_block:
  "plain_ident g \<Longrightarrow> plain_method Q m \<Longrightarrow> plain svc \<Longrightarrow> block (server_stream_types Q g svc m)"
  by (simp add: block_def server_stream_types_def nest_simps plain_ident_def plain_method_def server_struct_def Let_def)

lemma client_method_block:
  "plain_ident g \<Longrightarrow> plain_method Q m \<Longrightarrow> plain svc \<Longrightarrow> plain full \<Longrightarrow> block (client_method Q g svc full m)"
  by (simp add: block_def client_method_def client_stream_method_def nest_simps plain_ident_def plain_method_def Let_def)

lemma service_interface_block:
  assumes "plain_ident g" "plain_service Q s"
  shows "block (service_interface Q g s)"
proof -
  have "block [service_method_line Q g (sv_GoName s) m]" if "m \<in> set (sv_Methods s)" for m
    using assms that
    by (simp add: block_def service_method_line_def nest_simps plain_ident_def plain_service_def plain_method_def Let_def)
  then have "block (map (service_method_line Q g (sv_GoName s)) (sv_Methods s))" by blast
  then show ?thesis
    using assms by (simp add: block_def service_interface_def nest_plain nest_block plain_service_def)
qed

lemma registration_block:
  assumes "plain_ident g" "plain_service Q s"
  shows "block (registration Q g s)"
proof -
  have m: "block (concat (map (method_entry Q g) (filter (\<lambda>m. \<not> is_stream m) (sv_Methods s))))"
    using assms by (intro block_concat method_entry_block) (auto simp: plain_service_def)
  have st: "block (concat (map (stream_entry Q g (sv_GoName s)) (filter is_stream (sv_Methods s))))"
    using assms by (intro block_concat stream_entry_block) (auto simp: plain_service_def)
  show ?thesis
    using assms m st
    by (simp add: block_def registration_def nest_plain nest_block quoted_def plain_ident_def plain_service_def Let_def)
qed

lemma client_types_block:
  assumes "plain_ident g" "plain_service Q s"
  shows "block (client_types Q g s)"
proof -
  have "block [client_interface_line Q g (sv_GoName s) m]" if "m \<in> set (sv_Methods s)" for m
    using assms that
    by (simp add: block_def client_interface_line_def nest_simps plain_ident_def plain_service_def plain_method_def)
  then have "block (map (client_interface_line Q g (sv_GoName s)) (sv_Methods s))" by blast
  then show ?thesis
    using assms
    by (simp add: block_def client_types_def nest_plain nest_plain_end nest_block plain_ident_def plain_service_def Let_def)
qed

lemma genService_block:
  assumes "plain_ident g" "plain_service Q s"
  shows "block (genService Q g s)"
  unfolding genService_def
  using assms
  by (intro block_append block_concat service_interface_block registration_block client_types_block
      server_stream_block client_method_block) (auto simp: plain_service_def)

section \<open>The lines of a method\<close>

text \<open>The lines of a method are in the file.\<close>

lemma sublist_left: "sublist xs ys \<Longrightarrow> sublist xs (ys @ zs)"
  unfolding sublist_def by (metis append.assoc)

lemma sublist_right: "sublist xs zs \<Longrightarrow> sublist xs (ys @ zs)"
  unfolding sublist_def by (metis append.assoc)

lemma sublist_in: "sublist xs ys \<Longrightarrow> sublist ys zs \<Longrightarrow> sublist xs zs"
  unfolding sublist_def by (metis append.assoc)

lemma sublist_set: "sublist xs ys \<Longrightarrow> x \<in> set xs \<Longrightarrow> x \<in> set ys"
  by (auto simp: sublist_def)

lemma sublist_concat_map: "x \<in> set xs \<Longrightarrow> sublist (f x) (concat (map f xs))"
proof (induction xs)
  case (Cons y xs)
  then show ?case by (auto intro: sublist_left [of _ "f x"] sublist_right)
qed simp

lemma generate_service_lines:
  assumes "generate Q f px = Some (name, out)" "s \<in> set (f_Services f)"
  shows "sublist (genService Q (newGenerator Q) (s\<lparr>sv_GoName := px @ sv_GoName s\<rparr>)) out"
proof -
  let ?gen = "\<lambda>s. genService Q (newGenerator Q) (s\<lparr>sv_GoName := px @ sv_GoName s\<rparr>)"
  have "out = file_header f @ concat (map ?gen (f_Services f))"
    using assms(1) by (simp add: generate_def split: if_splits)
  then show ?thesis
    using sublist_right [OF sublist_concat_map [OF assms(2), of ?gen]] by simp
qed

lemma genService_parts:
  "sublist (registration Q g s) (genService Q g s)"
  "m \<in> set (sv_Methods s) \<Longrightarrow> sublist (client_method Q g (sv_GoName s) (FullName s) m) (genService Q g s)"
  unfolding genService_def
  by (rule sublist_right, rule sublist_right, rule sublist_left, simp)
    (rule sublist_right, rule sublist_right, rule sublist_right, rule sublist_right, rule sublist_concat_map)

lemma registration_entries:
  assumes "m \<in> set (sv_Methods s)"
  shows "\<not> is_stream m \<Longrightarrow> sublist (method_entry Q g m) (registration Q g s)"
    "is_stream m \<Longrightarrow> sublist (stream_entry Q g (sv_GoName s) m) (registration Q g s)"
proof -
  assume "\<not> is_stream m"
  with assms have m: "m \<in> set (filter (\<lambda>m. \<not> is_stream m) (sv_Methods s))" by simp
  then have ne: "(filter (\<lambda>m. \<not> is_stream m) (sv_Methods s) \<noteq> []) = True" by (auto simp: filter_empty_conv)
  show "sublist (method_entry Q g m) (registration Q g s)"
    unfolding registration_def Let_def ne if_True
    by (rule sublist_right, rule sublist_left, rule sublist_right, rule sublist_left, rule sublist_concat_map [OF m])
next
  assume "is_stream m"
  with assms have m: "m \<in> set (filter is_stream (sv_Methods s))" by simp
  then have ne: "(filter is_stream (sv_Methods s) \<noteq> []) = True" by (auto simp: filter_empty_conv)
  show "sublist (stream_entry Q g (sv_GoName s) m) (registration Q g s)"
    unfolding registration_def Let_def ne if_True
    by (rule sublist_right, rule sublist_right, rule sublist_left, rule sublist_right, rule sublist_left,
        rule sublist_concat_map [OF m])
qed

lemma sublist_Cons: "sublist xs ys \<Longrightarrow> sublist xs (y # ys)"
  using sublist_right [of xs ys "[y]"] by simp

lemma sublist_start: "sublist [a, b, c] (a # b # c # xs)"
  using sublist_left [of "[a, b, c]" "[a, b, c]" xs] by simp

lemma stream_entry_flags:
  "\<exists>body. length body \<le> 7 \<and> stream_entry Q g svc m = [quoted (m_GoName m) @ '': {''] @ body @
     [bool_line ''StreamingClient'' (IsStreamingClient m), bool_line ''StreamingServer'' (IsStreamingServer m), ''},'']"
proof -
  have "\<exists>a b c. stream_entry Q g svc m = [quoted (m_GoName m) @ '': {'', a] @
     (if \<not> IsStreamingClient m then b else []) @ [c, ''},'',
      bool_line ''StreamingClient'' (IsStreamingClient m), bool_line ''StreamingServer'' (IsStreamingServer m), ''},''] \<and> length b = 4"
    unfolding stream_entry_def Let_def by (intro exI conjI, rule refl) simp
  then obtain a b c where e: "length b = 4" "stream_entry Q g svc m = [quoted (m_GoName m) @ '': {'', a] @
     (if \<not> IsStreamingClient m then b else []) @ [c, ''},'',
      bool_line ''StreamingClient'' (IsStreamingClient m), bool_line ''StreamingServer'' (IsStreamingServer m), ''},'']" by blast
  show ?thesis
    unfolding e(2) by (rule exI [of _ "[a] @ (if \<not> IsStreamingClient m then b else []) @ [c, ''},'']"]) (simp add: e(1))
qed

lemma registration_line:
  "''srv.RegisterService('' @ quoted (FullName s) @ '', &'' @ i_serviceDesc g @ ''{'' \<in> set (registration Q g s)"
  by (simp add: registration_def Let_def)

definition open_line :: "string \<Rightarrow> method_desc \<Rightarrow> string" where
  "open_line full m = ''}, '' @ quoted full @ '', '' @ quoted (m_GoName m) @ '', '' @ (if IsStreamingClient m then ''nil'' else ''req'') @ '')''"

definition call_line :: "string \<Rightarrow> method_desc \<Rightarrow> string" where
  "call_line full m =
     ''if err := c.client.Call(ctx, '' @ quoted full @ '', '' @ quoted (m_Name m) @ '', req, &resp); err != nil {''"

lemma client_stream_lines:
  assumes "is_stream m"
  shows "sublist [bool_line ''StreamingClient'' (IsStreamingClient m), bool_line ''StreamingServer'' (IsStreamingServer m), open_line full m]
     (client_method Q g svc full m)"
  unfolding client_method_def client_stream_method_def Let_def open_line_def
  by (simp only: assms if_True append.simps, rule sublist_Cons, rule sublist_Cons, rule sublist_start)

lemma client_call_line: "\<not> is_stream m \<Longrightarrow> call_line full m \<in> set (client_method Q g svc full m)"
  unfolding client_method_def Let_def call_line_def by (simp only: if_False append.simps list.set insert_iff simp_thms)

text \<open>One output file for each input file with services that is to be generated, in their order.\<close>

lemma plugin_main_files:
  "map fst (plugin_main Q ps fs) =
     map (\<lambda>f. GeneratedFilenamePrefix f @ ''_ttrpc.pb.go'') (filter (\<lambda>f. f_Generate f \<and> f_Services f \<noteq> []) fs)"
  by (induction fs) (auto simp: plugin_main_def generate_def)

section \<open>A concrete file\<close>

text \<open>A service with a unary method, whose Go name is not its name, and a bidirectional stream.\<close>

definition demo_qualified :: "GoIdent \<Rightarrow> string" where
  "demo_qualified i = (if GoImportPath i = '''' then GoName i else ''ttrpc.'' @ GoName i)"

definition demo_method :: method_desc where
  "demo_method = \<lparr>m_GoName = ''GetUser'', m_Name = ''get_user'', IsStreamingClient = False, IsStreamingServer = False,
     Input = \<lparr>GoImportPath = '''', GoName = ''In''\<rparr>, Output = \<lparr>GoImportPath = '''', GoName = ''Out''\<rparr>\<rparr>"

definition demo_feed :: method_desc where
  "demo_feed = \<lparr>m_GoName = ''Feed'', m_Name = ''feed'', IsStreamingClient = True, IsStreamingServer = True,
     Input = \<lparr>GoImportPath = '''', GoName = ''In''\<rparr>, Output = \<lparr>GoImportPath = '''', GoName = ''Out''\<rparr>\<rparr>"

definition demo_service :: service_desc where
  "demo_service = \<lparr>sv_GoName = ''Users'', FullName = ''pkg.Users'', sv_Methods = [demo_method, demo_feed]\<rparr>"

definition demo_file :: file_desc where
  "demo_file = \<lparr>f_Services = [demo_service], GeneratedFilenamePrefix = ''users'', f_Path = ''users.proto'',
     GoPackageName = ''pkg'', f_Generate = True\<rparr>"

lemmas demo_plain = plain_service_def plain_method_def plain_ident_def plain_def newGenerator_def ttrpc_ident_def
  demo_qualified_def demo_file_def demo_service_def demo_method_def demo_feed_def

section \<open>Properties\<close>

text \<open>
  C21: The generated file is well nested. If no name in the descriptors and no identifier of the
  output file contains a brace, then reading the lines of the file from its start, every closing
  brace closes one that was opened, and at its end none is open, for any mixture of unary and
  streaming methods and whatever the prefix.
\<close>

theorem generated_braces_match:
  assumes "generate Q f px = Some (name, out)" "\<forall>s \<in> set (f_Services f). plain_service Q s"
    and "plain_ident (newGenerator Q)" "plain px" "plain (f_Path f)" "plain (GoPackageName f)"
  shows "nest 0 (concat out) = Some 0"
proof -
  have "plain_service Q (s\<lparr>sv_GoName := px @ sv_GoName s\<rparr>)" if "s \<in> set (f_Services f)" for s
    using assms(2,4) that by (simp add: plain_service_def plain_def)
  then have "block (concat (map (\<lambda>s. genService Q (newGenerator Q) (s\<lparr>sv_GoName := px @ sv_GoName s\<rparr>)) (f_Services f)))"
    using assms(3) by (intro block_concat genService_block)
  moreover have "out = file_header f @ concat (map (\<lambda>s. genService Q (newGenerator Q) (s\<lparr>sv_GoName := px @ sv_GoName s\<rparr>)) (f_Services f))"
    using assms(1) by (simp add: generate_def split: if_splits)
  ultimately show ?thesis using assms(5,6) by (simp add: file_header_def nest_plain block_def)
qed

theorem generated_braces_match_witness:
  "\<exists>out. generate demo_qualified demo_file ''T'' = Some (''users_ttrpc.pb.go'', out) \<and> nest 0 (concat out) = Some 0"
proof -
  obtain out where g: "generate demo_qualified demo_file ''T'' = Some (''users_ttrpc.pb.go'', out)"
    by (simp add: generate_def demo_file_def)
  have "nest 0 (concat out) = Some 0"
    by (rule generated_braces_match [OF g]) (simp_all add: demo_plain)
  with g show ?thesis by blast
qed

text \<open>
  C20: What is registered and what is called. For every method of a file's services, whatever the
  prefix of the plugin, the service is registered under its full name without the prefix. A
  streaming method is registered, and opened by its client, under its Go name and with the same
  two flags. A unary method is registered under its Go name but called under the name of its
  descriptor.
\<close>

theorem registered_and_called_names:
  assumes "generate Q f px = Some (name, out)" "s \<in> set (f_Services f)" "m \<in> set (sv_Methods s)"
  shows "''srv.RegisterService('' @ quoted (FullName s) @ '', &'' @ i_serviceDesc (newGenerator Q) @ ''{'' \<in> set out \<and>
    (if is_stream m
     then (\<exists>body. length body \<le> 7 \<and> sublist ([quoted (m_GoName m) @ '': {''] @ body @
             [bool_line ''StreamingClient'' (IsStreamingClient m), bool_line ''StreamingServer'' (IsStreamingServer m), ''},'']) out) \<and>
          sublist [bool_line ''StreamingClient'' (IsStreamingClient m), bool_line ''StreamingServer'' (IsStreamingServer m),
             ''}, '' @ quoted (FullName s) @ '', '' @ quoted (m_GoName m) @ '', '' @
               (if IsStreamingClient m then ''nil'' else ''req'') @ '')''] out
     else (\<exists>rest. quoted (m_GoName m) @ '': func(ctx '' @ rest \<in> set out) \<and>
          ''if err := c.client.Call(ctx, '' @ quoted (FullName s) @ '', '' @ quoted (m_Name m) @ '', req, &resp); err != nil {'' \<in> set out)"
proof -
  let ?s = "s\<lparr>sv_GoName := px @ sv_GoName s\<rparr>" and ?g = "newGenerator Q"
  note gen = generate_service_lines [OF assms(1,2)]
  have m: "m \<in> set (sv_Methods ?s)" using assms(3) by simp
  have reg: "sublist (registration Q ?g ?s) out" by (rule sublist_in [OF genService_parts(1) gen])
  have cl: "sublist (client_method Q ?g (px @ sv_GoName s) (FullName s) m) out"
    using sublist_in [OF genService_parts(2) [OF m] gen] by simp
  have "''srv.RegisterService('' @ quoted (FullName s) @ '', &'' @ i_serviceDesc ?g @ ''{'' \<in> set (registration Q ?g ?s)"
    using registration_line [of ?s ?g Q] by simp
  then have "''srv.RegisterService('' @ quoted (FullName s) @ '', &'' @ i_serviceDesc ?g @ ''{'' \<in> set out"
    by (rule sublist_set [OF reg])
  moreover have "(\<exists>body. length body \<le> 7 \<and> sublist ([quoted (m_GoName m) @ '': {''] @ body @
      [bool_line ''StreamingClient'' (IsStreamingClient m), bool_line ''StreamingServer'' (IsStreamingServer m), ''},'']) out)"
    if st: "is_stream m"
    using stream_entry_flags [of Q ?g "px @ sv_GoName s" m] sublist_in [OF registration_entries(2) [OF m st] reg] by auto
  moreover have "sublist [bool_line ''StreamingClient'' (IsStreamingClient m), bool_line ''StreamingServer'' (IsStreamingServer m),
      open_line (FullName s) m] out" if "is_stream m"
    by (rule sublist_in [OF client_stream_lines [OF that] cl])
  moreover have "\<exists>rest. quoted (m_GoName m) @ '': func(ctx '' @ rest \<in> set out" if st: "\<not> is_stream m"
  proof -
    have "quoted (m_GoName m) @ '': func(ctx '' @ i_context ?g @ '', unmarshal func(interface{}) error)(interface{}, error){''
        \<in> set (method_entry Q ?g m)"
      unfolding method_entry_def by (simp only: list.set insert_iff simp_thms)
    from sublist_set [OF sublist_in [OF registration_entries(1) [OF m st] reg] this] show ?thesis by blast
  qed
  moreover have "call_line (FullName s) m \<in> set out" if "\<not> is_stream m"
    by (rule sublist_set [OF cl client_call_line [OF that]])
  ultimately show ?thesis
    unfolding open_line_def call_line_def by (cases "is_stream m") (simp_all only: if_True if_False simp_thms)
qed

theorem registered_and_called_names_witness:
  "\<exists>out. generate demo_qualified demo_file ''T'' = Some (''users_ttrpc.pb.go'', out) \<and>
     ''srv.RegisterService('' @ quoted ''pkg.Users'' @ '', &ttrpc.ServiceDesc{'' \<in> set out"
proof -
  obtain out where g: "generate demo_qualified demo_file ''T'' = Some (''users_ttrpc.pb.go'', out)"
    by (simp add: generate_def demo_file_def)
  have m: "demo_service \<in> set (f_Services demo_file)" "demo_method \<in> set (sv_Methods demo_service)"
    by (simp_all add: demo_file_def demo_service_def)
  have i: "i_serviceDesc (newGenerator demo_qualified) = ''ttrpc.ServiceDesc''"
    by (simp add: newGenerator_def ttrpc_ident_def demo_qualified_def)
  have f: "FullName demo_service = ''pkg.Users''" by (simp add: demo_service_def)
  from registered_and_called_names [OF g m] have "''srv.RegisterService('' @ quoted ''pkg.Users'' @ '', &'' @ ''ttrpc.ServiceDesc'' @ ''{'' \<in> set out"
    unfolding i f by (rule conjunct1)
  with g show ?thesis by auto
qed

text \<open>
  The registration and the unary client disagree on a method whose Go name is not its name: the
  method is registered as \<open>GetUser\<close> and called as \<open>get_user\<close>.
\<close>

theorem unary_names_disagree:
  "\<exists>out. generate demo_qualified demo_file '''' = Some (''users_ttrpc.pb.go'', out) \<and>
     (\<exists>rest. quoted ''GetUser'' @ '': func(ctx '' @ rest \<in> set out) \<and>
     ''if err := c.client.Call(ctx, '' @ quoted ''pkg.Users'' @ '', '' @ quoted ''get_user'' @ '', req, &resp); err != nil {'' \<in> set out"
proof -
  obtain out where g: "generate demo_qualified demo_file '''' = Some (''users_ttrpc.pb.go'', out)"
    by (simp add: generate_def demo_file_def)
  have s: "sublist (genService demo_qualified (newGenerator demo_qualified) demo_service) out"
    using generate_service_lines [OF g, of demo_service] by (simp add: demo_file_def)
  have m: "demo_method \<in> set (sv_Methods demo_service)" "\<not> is_stream demo_method"
    by (simp_all add: demo_service_def is_stream_def demo_method_def)
  have "quoted ''GetUser'' @ '': func(ctx '' @ i_context (newGenerator demo_qualified) @
      '', unmarshal func(interface{}) error)(interface{}, error){'' \<in> set (method_entry demo_qualified (newGenerator demo_qualified) demo_method)"
    by (simp add: method_entry_def demo_method_def)
  from sublist_set [OF sublist_in [OF registration_entries(1) [OF m] sublist_in [OF genService_parts(1) s]] this]
  have "\<exists>rest. quoted ''GetUser'' @ '': func(ctx '' @ rest \<in> set out" by blast
  moreover have "call_line ''pkg.Users'' demo_method \<in> set out"
    using sublist_set [OF sublist_in [OF genService_parts(2) [OF m(1)] s] client_call_line [OF m(2)]]
    by (simp add: demo_service_def)
  ultimately show ?thesis using g unfolding call_line_def by (simp add: demo_method_def)
qed

text \<open>
  Two services whose names differ only in case declare the same client struct, so the generated
  file does not compile.
\<close>

theorem case_only_services_collide:
  "filter (\<lambda>l. l = ''type foobarClient struct{'') (client_types Q g \<lparr>sv_GoName = ''FooBar'', FullName = ''p.FooBar'', sv_Methods = []\<rparr> @
     client_types Q g \<lparr>sv_GoName = ''Foobar'', FullName = ''p.Foobar'', sv_Methods = []\<rparr>) =
   [''type foobarClient struct{'', ''type foobarClient struct{'']"
  by (simp add: client_types_def ToLower_def lower_char_def char_of_def bit_0)

end
