(* ===== verification/Spec2Isabelle.thy ===== *)
theory Spec2Isabelle
  imports Systems Example Generator
begin

text \<open>
  \<^bold>\<open>ttrpc\<close>, the RPC library of containerd for low-memory environments, and its code generator.

  \<^bold>\<open>The program.\<close> A client and a server exchange frames over one connection (\<open>src/channel.go\<close>): a
  header of ten bytes (length, stream, type, flags) and a payload. The client (\<open>src/client.go\<close>) gives
  each call a stream with an odd, growing id; its receive loop hands what arrives to the streams
  (\<open>src/stream.go\<close>), from which the callers read. The server (\<open>src/server.go\<close>) accepts connections,
  lets a handshake approve them (\<open>src/handshake.go\<close>, \<open>src/unixcreds_linux.go\<close>) and runs each with a
  receive goroutine, a main loop that writes the responses, and a goroutine for every call, which
  the service table (\<open>src/services.go\<close>) finds. Interceptors (\<open>src/interceptor.go\<close>) and options
  (\<open>src/config.go\<close>) wrap the calls, metadata (\<open>src/metadata.go\<close>) travels in the request.

  \<^bold>\<open>The theories.\<close>
  \<^item> \<open>Prelude\<close>: machine types, byte slices with nil, decimal printing, runs of a step function, and
    the locales \<open>step_invariant\<close>, \<open>step_monotone\<close>, \<open>once\<close>, \<open>wrapper_chain\<close> and \<open>framing\<close>, each
    interpreted on the model where a component provides it.
  \<^item> \<open>Errors\<close> (\<open>src/errors.go\<close>): the errors as values, \<open>errors.Is\<close>, \<open>errors.As\<close>, the oversized-message error.
  \<^item> \<open>Channel\<close> (\<open>src/channel.go\<close>): header codec, \<open>recv\<close>, \<open>send\<close> over a buffered writer, buffer pool. Round
    trip, exactness, resynchronisation after an oversized frame, what a failed send leaves.
  \<^item> \<open>Metadata\<close> (\<open>src/metadata.go\<close>): slices over a heap of arrays, refined by a plain map; aliasing of clones.
  \<^item> \<open>UnixCreds\<close> (\<open>src/handshake.go\<close>, \<open>src/unixcreds_linux.go\<close>): the handshake and the credential check.
  \<^item> \<open>Interceptors\<close> (\<open>src/interceptor.go\<close>, \<open>src/config.go\<close>): options, and chains as nested wrappers.
  \<^item> \<open>Messages\<close> (\<open>src/codec.go\<close>, \<open>src/request.pb.go\<close>): interface values, requests, responses, codec.
  \<^item> \<open>Services\<close> (\<open>src/services.go\<close>): registration, method names, \<open>unaryCall\<close>, \<open>streamCall\<close>, error codes.
  \<^item> \<open>GoChan\<close>: a buffered Go channel with its panics, and the ledger of what went in and out.
  \<^item> \<open>Streams\<close> (\<open>src/stream.go\<close>): a client stream with deliverer, reader and closers.
  \<^item> \<open>StreamHandlers\<close> (\<open>src/services.go\<close>): the server's end of a stream, and \<open>handle\<close>.
  \<^item> \<open>ServerConn\<close> (\<open>src/server.go\<close>, \<open>run\<close>): one server connection; ids, responses, the count of active calls,
    the only crash.
  \<^item> \<open>Server\<close>, \<open>ServerRuns\<close> (\<open>src/server.go\<close>): \<open>NewServer\<close>, \<open>Serve\<close>, \<open>Shutdown\<close>, \<open>Close\<close> with the connections of
    \<open>ServerConn\<close>: backoff, tables, the end of \<open>Shutdown\<close>, the listeners, approved peers, and the
    refinement to single connections.
  \<^item> \<open>ClientOps\<close> (\<open>src/client.go\<close>): \<open>filterCloseErr\<close>, \<open>Call\<close>, \<open>NewStream\<close>, \<open>CloseSend\<close>, \<open>SendMsg\<close>, \<open>RecvMsg\<close> as functions.
  \<^item> \<open>Client\<close>, \<open>ClientRuns\<close> (\<open>src/client.go\<close>): one client connection with \<open>run\<close>, \<open>dispatch\<close>, \<open>createStream\<close>,
    \<open>deleteStream\<close>, \<open>cleanupStreams\<close>: order of the ids, routing of messages, the end of the
    connection and of the calls.
  \<^item> \<open>EndToEnd\<close>: a unary call from the client to the method and back; the client's ids at the server; what
    the context of a call becomes.
  \<^item> \<open>Pipe\<close>: one direction of a connection, written by one channel and read by another; the locale
    \<open>transport\<close> and its interpretation.
  \<^item> \<open>Link\<close>, \<open>LinkRuns\<close>, \<open>LinkCalls\<close>, \<open>LinkStreams\<close>, \<open>LinkReplies\<close>, \<open>LinkProgress\<close>: client and
    server connection over one network connection that may accept part of what is written and fail at any time. Each end runs as it does
    alone and receives what the other sent, in order (\<open>LinkRuns\<close>); the server takes every request, a caller
    gets the answer to its own request, and only data for a unary call crashes the server (\<open>LinkCalls\<close>);
    what the handlers read (\<open>LinkStreams\<close>) and the callers take (\<open>LinkReplies\<close>) is what was sent on their stream; and a call the
    server runs can be completed from every state (\<open>LinkProgress\<close>).
  \<^item> \<open>Systems\<close>: one server with any number of clients, each over its own network connection, all steps
    interleaved (\<open>system_step\<close>). The server runs as in \<open>Server\<close>, each client with its connection as in \<open>Link\<close>,
    callers get their own answers, and a panic in one connection ends the server for all clients.
  \<^item> \<open>Example\<close> (\<open>src/example\<close>): the example program, its service and the code generated for it; the client
    prints what the server answers, and what ends the server.
  \<^item> \<open>Generator\<close> (\<open>src/cmd/protoc-gen-go-ttrpc\<close>): the lines of a generated file; braces, names, flags.
\<close>

text \<open>
  \<^bold>\<open>How goroutines are modelled.\<close> A component with goroutines is a record with one program counter for
  each of them (\<open>rpc\<close>, \<open>mpc\<close>, \<open>w_pc\<close>, \<open>k_pc\<close>, \<open>cl_run\<close>, \<open>v_pc\<close>, \<open>sv_downs\<close>) and an executable step function
  over a type of events (\<open>conn_step\<close>, \<open>client_step\<close>, \<open>server_step\<close>, \<open>stream_step\<close>, \<open>handler_step\<close>, \<open>link_step\<close> for two
  ends, \<open>system_step\<close> for a server with its clients); an
  event is one atomic action of one goroutine with what its environment returns, and \<open>None\<close> means
  that the action is not possible now. What a mutex protects is one step, except that \<open>sendLock\<close>,
  which is held across others, is part of the state. A \<open>select\<close> is a step that names the branch
  taken, possible when that branch is ready, so every choice of the scheduler is a run. Go channels
  panic as they do in Go, as a state of their own. Properties are invariants of all runs from the
  initial state (\<open>step_invariant\<close>), orders along runs (\<open>step_monotone\<close>), and measures.

  \<^bold>\<open>Bounds.\<close> Integers of the wire are words of their width. The ids of a client wrap after \<open>2 ^ 31\<close>
  streams; properties that need them distinct say so, and that the bound is exact is part of
  \<open>client_request_ids\<close>. Lengths are below \<open>2 ^ 22\<close> by the limit on messages. Durations, counters and
  Go's \<open>int\<close> are unbounded; the backoff stays below a second, as proved. No fuel is used but in
  \<open>recv_many\<close> of \<open>Channel\<close>, where one unit for each frame and one for the end are enough.

  \<^bold>\<open>Parameters.\<close> The protobuf library (\<open>proto_lib\<close>, with the law \<open>proto_ok\<close>: decoding gives back what was
  encoded, an empty payload as nil), \<open>status.FromError\<close> and the text of a status (\<open>status_lib\<close>, law
  \<open>status_lib_ok\<close>), the methods, interceptors and handshakers of the user, the system calls behind a
  connection, \<open>QualifiedGoIdent\<close> of the generator, printing and the network calls of the example (with
  the law \<open>example_codec_ok\<close> for its messages). Each law has an instance used by the witnesses.

  \<^bold>\<open>Not modelled.\<close> Real time: a timeout may fire at any moment, a ticker too. The return of message
  buffers to the pool inside the connections (the pool itself is in \<open>Channel\<close>). Logging. The
  context of a call on the server beyond its metadata, its error and its duration. The generated
  serialisers (\<open>*.pb.go\<close>), the tests and the build files.
  Panics of the user's methods and interceptors on a connection, and a handler that goes on sending on
  its stream after it returned, which \<open>SendMsg\<close> does not refuse. \<open>Register\<close> during \<open>Serve\<close>: the table of services is fixed while connections run. A stream of a
  client is sent to by one caller at a time, so \<open>localClosed\<close> and \<open>remoteClosed\<close> (theory \<open>ClientOps\<close>),
  which the code reads without a lock, are not raced on.
\<close>

end
